(* ===== verification/Prelude.thy ===== *)
theory Prelude
  imports Main "HOL-Library.Word" "HOL-Library.Monad_Syntax"
begin

text \<open>
  What every component shares: the names of the machine types, the caller's memory (a raw
  \<open>char*\<close> with the bytes it points to), the scan of a fixed table for its first matching
  slot, and the collections of facts the component proofs are run with.

  Sizes of C++ objects (\<open>std::size_t\<close>) are \<open>nat\<close>; the 32-bit integers that cross the
  CAPL boundary keep their width (\<open>u32\<close>, \<open>i32\<close>, the latter read with \<open>sint\<close>).
\<close>

section \<open>Machine types\<close>

type_synonym u32 = "32 word"
type_synonym i32 = "32 word"
type_synonym u64 = "64 word"
type_synonym i64 = "64 word"

abbreviation NUL :: char where "NUL \<equiv> CHR 0x00"

named_theorems mem_simps \<open>evaluation of accesses to caller memory that stay in bounds\<close>
named_theorems table_simps \<open>scanning and updating a fixed slot table\<close>

section \<open>Exceptions\<close>

text \<open>
  A call returns or lets an exception out; the exception's value is never looked at (the
  handlers of the program are \<open>catch (...)\<close>).
\<close>

datatype 'a outcome = Returned 'a | Threw

definition catch_all :: "'a outcome \<Rightarrow> 'a \<Rightarrow> 'a" where
  "catch_all body handler = (case body of Returned x \<Rightarrow> x | Threw \<Rightarrow> handler)"

lemma catch_all_simps [simp]: "catch_all (Returned x) h = x" "catch_all Threw h = h"
  by (simp_all add: catch_all_def)

text \<open>A value or the error that replaces it: the second step runs on a value only.\<close>

definition and_then :: "'e + 'a \<Rightarrow> ('a \<Rightarrow> 'e + 'b) \<Rightarrow> 'e + 'b" where
  "and_then r f = (case r of Inl e \<Rightarrow> Inl e | Inr x \<Rightarrow> f x)"

lemma and_then_simps [simp]: "and_then (Inl e) f = Inl e" "and_then (Inr x) f = f x"
  by (simp_all add: and_then_def)

section \<open>Caller memory\<close>

text \<open>
  A \<open>char*\<close> argument is null or points to the bytes of one array. A computation that
  touches caller memory has type \<open>'a mem\<close>: \<open>None\<close> is an access outside the array
  (undefined behaviour in C++), so \<open>Some\<close> results are a statement of memory safety.
\<close>

datatype cbuf = NullPtr | Buf "char list"

type_synonym 'a mem = "'a option"

text \<open>A \<open>std::string_view\<close>: \<open>None\<close> is the default-constructed view whose \<open>data()\<close> is null.\<close>

type_synonym string_view = "string option"

definition sv_text :: "string_view \<Rightarrow> string" where
  "sv_text v = (case v of None \<Rightarrow> [] | Some s \<Rightarrow> s)"

text \<open>\<open>memcpy(b + off, s, s.size())\<close> and single-byte stores.\<close>

definition mem_write :: "char list \<Rightarrow> nat \<Rightarrow> char list \<Rightarrow> char list mem" where
  "mem_write b off s =
     (if off + length s \<le> length b then Some (take off b @ s @ drop (off + length s) b) else None)"

text \<open>\<open>std::memchr(b, c, n)\<close>: reads in order and stops at the first match.\<close>

fun mem_chr :: "char list \<Rightarrow> char \<Rightarrow> nat \<Rightarrow> nat option mem" where
  "mem_chr b c 0 = Some None"
| "mem_chr [] c (Suc n) = None"
| "mem_chr (x # xs) c (Suc n) =
     (if x = c then Some (Some 0) else map_option (map_option Suc) (mem_chr xs c n))"

text \<open>The caller's side of the contract: the stated size does not exceed the array.\<close>

definition buf_ok :: "cbuf \<Rightarrow> u32 \<Rightarrow> bool" where
  "buf_ok p n = (case p of NullPtr \<Rightarrow> True | Buf b \<Rightarrow> unat n \<le> length b)"

text \<open>The C string held in a buffer: the bytes before the first NUL.\<close>

definition c_string :: "char list \<Rightarrow> string" where
  "c_string b = takeWhile (\<lambda>c. c \<noteq> NUL) b"

lemma c_string_terminated: "NUL \<notin> set s \<Longrightarrow> c_string (s @ NUL # rest) = s"
  by (induction s) (auto simp: c_string_def)

lemma sv_text_simps [simp]: "sv_text None = []" "sv_text (Some s) = s"
  by (simp_all add: sv_text_def)

lemma buf_ok_simps [simp]: "buf_ok NullPtr n" "buf_ok (Buf b) n \<longleftrightarrow> unat n \<le> length b"
  by (simp_all add: buf_ok_def)

lemma mem_write_in [mem_simps]:
  "off + length s \<le> length b \<Longrightarrow> mem_write b off s = Some (take off b @ s @ drop (off + length s) b)"
  by (simp add: mem_write_def)

lemma mem_write_SomeD:
  "mem_write b off s = Some b' \<Longrightarrow> length b' = length b \<and> take off b' = take off b
     \<and> drop (off + length s) b' = drop (off + length s) b"
  by (auto simp: mem_write_def split: if_splits)

lemma mem_chr_in_bounds: "n \<le> length b \<Longrightarrow> mem_chr b c n \<noteq> None"
  by (induction b c n rule: mem_chr.induct) auto

lemma mem_chr_found:
  "mem_chr b c n = Some (Some k) \<longleftrightarrow>
     k < n \<and> k < length b \<and> b ! k = c \<and> c \<notin> set (take k b)"
proof (induction b c n arbitrary: k rule: mem_chr.induct)
  case (3 x xs c n)
  show ?case
  proof (cases "x = c")
    case True
    then show ?thesis by (cases k) auto
  next
    case False
    with 3 show ?thesis by (cases k) auto
  qed
qed auto

lemma mem_chr_absent:
  "mem_chr b c n = Some None \<longleftrightarrow> n \<le> length b \<and> c \<notin> set (take n b)"
  by (induction b c n rule: mem_chr.induct) auto

lemma mem_chr_terminated [mem_simps]:
  "c \<notin> set s \<Longrightarrow> length s < n \<Longrightarrow> mem_chr (s @ c # rest) c n = Some (Some (length s))"
  by (auto simp: mem_chr_found)

lemma mem_chr_finds: "(\<exists>k. mem_chr b c n = Some (Some k)) \<longleftrightarrow> c \<in> set (take n b)"
  by (induction b c n rule: mem_chr.induct) auto

lemma take_c_string: "mem_chr b NUL n = Some (Some k) \<Longrightarrow> take k b = c_string b"
proof (induction b NUL n arbitrary: k rule: mem_chr.induct)
  case (3 x xs n)
  then show ?case by (cases k) (auto simp: c_string_def split: if_splits)
qed (auto simp: c_string_def)

text \<open>The rest of a text behind its first separator is shorter: splitting loops end.\<close>

lemma dropWhile_shorter: "dropWhile P s = x # xs \<Longrightarrow> length xs < length s"
  by (metis Suc_le_eq length_Cons length_dropWhile_le)

lemma in_set_tl: "x \<in> set (tl xs) \<Longrightarrow> x \<in> set xs"
  by (cases xs) auto

section \<open>Fixed slot tables\<close>

text \<open>The index of the first slot that satisfies a test, as the \<open>for\<close> loops over the slot arrays find it.\<close>

fun first_index :: "('a \<Rightarrow> bool) \<Rightarrow> 'a list \<Rightarrow> nat option" where
  "first_index P [] = None"
| "first_index P (x # xs) = (if P x then Some 0 else map_option Suc (first_index P xs))"

lemma first_index_Some:
  "first_index P xs = Some i \<longleftrightarrow> i < length xs \<and> P (xs ! i) \<and> (\<forall>j < i. \<not> P (xs ! j))"
proof (induction xs arbitrary: i)
  case (Cons x xs)
  show ?case
  proof (cases "P x")
    case True
    then show ?thesis by (cases i) auto
  next
    case False
    with Cons show ?thesis by (cases i) (auto simp: less_Suc_eq_0_disj)
  qed
qed simp

lemma first_index_None [table_simps]: "first_index P xs = None \<longleftrightarrow> (\<forall>x \<in> set xs. \<not> P x)"
  by (induction xs) auto

lemma first_indexD: "first_index P xs = Some i \<Longrightarrow> i < length xs \<and> P (xs ! i)"
  by (simp add: first_index_Some)

definition count_slots :: "('a \<Rightarrow> bool) \<Rightarrow> 'a list \<Rightarrow> nat" where
  "count_slots P xs = length (filter P xs)"

lemma count_slots_Nil [simp]: "count_slots P [] = 0"
  and count_slots_Cons [simp]: "count_slots P (x # xs) = of_bool (P x) + count_slots P xs"
  by (simp_all add: count_slots_def)

lemma count_slots_update:
  "i < length xs \<Longrightarrow>
     count_slots P (xs[i := x]) + of_bool (P (xs ! i)) = count_slots P xs + of_bool (P x)"
proof (induction xs arbitrary: i)
  case (Cons y ys)
  then show ?case by (cases i) auto
qed simp

lemma count_slots_le: "count_slots P xs \<le> length xs"
  by (simp add: count_slots_def)

lemma count_slots_0 [table_simps]: "count_slots P xs = 0 \<longleftrightarrow> (\<forall>x \<in> set xs. \<not> P x)"
  by (simp add: count_slots_def filter_empty_conv)

lemma count_slots_pos: "0 < count_slots P xs \<longleftrightarrow> (\<exists>x \<in> set xs. P x)"
  by (metis count_slots_0 gr0I less_nat_zero_code)

end
