(* ===== verification/Status.thy ===== *)
theory Status
  imports Prelude
begin

text \<open>
  The status enumeration of \<open>src/core/status.h\<close> with the numbers CAPL scripts see, its
  order (the numeric one, so that a group of codes is an interval) and its encoding as the
  32-bit result of every exported operation.
\<close>

section \<open>The enumeration\<close>

datatype status =
    Ok
  | InvalidArgument
  | BufferTooSmall
  | VersionResourceUnavailable
  | MalformedHeaderBlock
  | UnknownHttpMethod
  | UnterminatedInputText
  | ParseError
  | PathSyntaxError
  | PathNotFound
  | IndexOutOfRange
  | TypeMismatch
  | NullValue
  | NumericOverflow
  | NotIntegral
  | NetworkError
  | Timeout
  | TlsError
  | TransportInitFailed
  | InvalidUrl
  | ResponseTooLarge
  | RequestCancelled
  | NoFreeRequestSlot
  | RequestNotComplete
  | UnknownRequestId
  | WaitTimeout
  | AsyncStartFailed
  | NoFreeDocumentSlot
  | UnknownDocumentId
  | DocumentTooLarge
  | NestingTooDeep
  | TooManyEntries
  | InternalError
  | KeyTextTooLarge

text \<open>The enumerators' values.\<close>

fun status_code :: "status \<Rightarrow> int" where
  "status_code Ok = 0"
| "status_code InvalidArgument = -1"
| "status_code BufferTooSmall = -2"
| "status_code VersionResourceUnavailable = -3"
| "status_code MalformedHeaderBlock = -4"
| "status_code UnknownHttpMethod = -5"
| "status_code UnterminatedInputText = -6"
| "status_code ParseError = -10"
| "status_code PathSyntaxError = -11"
| "status_code PathNotFound = -12"
| "status_code IndexOutOfRange = -13"
| "status_code TypeMismatch = -14"
| "status_code NullValue = -15"
| "status_code NumericOverflow = -16"
| "status_code NotIntegral = -17"
| "status_code NetworkError = -18"
| "status_code Timeout = -19"
| "status_code TlsError = -20"
| "status_code TransportInitFailed = -21"
| "status_code InvalidUrl = -22"
| "status_code ResponseTooLarge = -23"
| "status_code RequestCancelled = -24"
| "status_code NoFreeRequestSlot = -25"
| "status_code RequestNotComplete = -26"
| "status_code UnknownRequestId = -27"
| "status_code WaitTimeout = -28"
| "status_code AsyncStartFailed = -29"
| "status_code NoFreeDocumentSlot = -30"
| "status_code UnknownDocumentId = -31"
| "status_code DocumentTooLarge = -32"
| "status_code NestingTooDeep = -33"
| "status_code TooManyEntries = -34"
| "status_code InternalError = -35"
| "status_code KeyTextTooLarge = -36"

text \<open>\<open>static_cast<std::int32_t>(status)\<close>, also the \<open>long\<close> every export returns.\<close>

definition status_word :: "status \<Rightarrow> i32" where
  "status_word s = word_of_int (status_code s)"

lemma status_code_inject: "status_code a = status_code b \<longleftrightarrow> a = b"
  by (cases a; cases b; simp)

lemma status_code_range: "-36 \<le> status_code s \<and> status_code s \<le> 0"
  by (cases s) simp_all

lemma sint_status_word [simp]: "sint (status_word s) = status_code s"
  by (cases s) (simp_all add: status_word_def)

lemma status_word_inject [simp]: "status_word a = status_word b \<longleftrightarrow> a = b"
  by (metis sint_status_word status_code_inject)

section \<open>The numeric order\<close>

instantiation status :: linorder
begin

definition less_eq_status :: "status \<Rightarrow> status \<Rightarrow> bool" where
  "less_eq_status a b \<longleftrightarrow> status_code a \<le> status_code b"

definition less_status :: "status \<Rightarrow> status \<Rightarrow> bool" where
  "less_status a b \<longleftrightarrow> status_code a < status_code b"

instance
  by standard (auto simp: less_eq_status_def less_status_def status_code_inject)

end

text \<open>
  The codes the transport layer reserves, \<open>-18 .. -23\<close>: a request that was performed and
  failed.
\<close>

definition transport_failure :: "status \<Rightarrow> bool" where
  "transport_failure s \<longleftrightarrow> ResponseTooLarge \<le> s \<and> s \<le> NetworkError"

lemma transport_failure_iff:
  "transport_failure s \<longleftrightarrow>
     s \<in> {NetworkError, Timeout, TlsError, TransportInitFailed, InvalidUrl, ResponseTooLarge}"
  by (cases s) (simp_all add: transport_failure_def less_eq_status_def)

text \<open>A status is an error exactly when its number is negative.\<close>

lemma status_code_neg: "status_code s < 0 \<longleftrightarrow> s \<noteq> Ok"
  by (cases s) simp_all

end
