(* ===== verification/Export_Table.thy ===== *)
theory Export_Table
  imports Status
begin

text \<open>
  The contract the DLL publishes, from \<open>src/module/exports.cpp\<close>: the rows of
  \<open>CAPL_DLL_INFO_LIST4\<close>, by which CANoe calls the exported functions, and the parameter lists of
  those functions. Nothing in the build compares the two; here they are compared.
\<close>

section \<open>The table's types\<close>

text \<open>\<open>type - 128\<close> as a \<open>char\<close> is the byte with the top bit set.\<close>

definition kRefLong :: char where "kRefLong = char_of (of_char CHR ''L'' + 128 :: nat)"
definition kRefDword :: char where "kRefDword = char_of (of_char CHR ''D'' + 128 :: nat)"
definition kRefDouble :: char where "kRefDouble = char_of (of_char CHR ''F'' + 128 :: nat)"

datatype farcall = NoFunction | VersionTag nat | Function string

text \<open>\<open>cdlName\<close> and the parameter arrays have fixed sizes in the SDK's struct: 50, 64, 64 and 64.\<close>

record CAPL_DLL_INFO4 =
  cdlName :: string
  adr :: farcall
  categoryName :: string
  hintText :: string
  resultType :: char
  parCount :: nat
  parTypes :: "char list"
  parArray :: "nat list"
  parNames :: "string list"

section \<open>The functions' parameters\<close>

datatype cpp_type = CharPtr | ULong | LongPtr | ULongPtr | Int32Ptr | UInt32Ptr | DoublePtr

definition sync_signatures :: "(string \<times> (cpp_type \<times> string) list) list" where
  "sync_signatures = [
    (''restifyReadVersion'',
      [(CharPtr, ''buffer''), (ULong, ''bufferSize'')]),
    (''restifyGetSync'',
      [(CharPtr, ''url''), (ULong, ''urlSize''), (CharPtr, ''requestHeaders''),
       (ULong, ''requestHeadersSize''), (CharPtr, ''responseBody''),
       (ULong, ''responseBodySize''), (LongPtr, ''httpStatusCode''),
       (ULongPtr, ''responseBodyLength'')]),
    (''restifyDeleteSync'',
      [(CharPtr, ''url''), (ULong, ''urlSize''), (CharPtr, ''requestHeaders''),
       (ULong, ''requestHeadersSize''), (CharPtr, ''responseBody''),
       (ULong, ''responseBodySize''), (LongPtr, ''httpStatusCode''),
       (ULongPtr, ''responseBodyLength'')]),
    (''restifyPostSync'',
      [(CharPtr, ''url''), (ULong, ''urlSize''), (CharPtr, ''requestHeaders''),
       (ULong, ''requestHeadersSize''), (CharPtr, ''requestBody''),
       (ULong, ''requestBodySize''), (CharPtr, ''responseBody''),
       (ULong, ''responseBodySize''), (LongPtr, ''httpStatusCode''),
       (ULongPtr, ''responseBodyLength'')]),
    (''restifyPutSync'',
      [(CharPtr, ''url''), (ULong, ''urlSize''), (CharPtr, ''requestHeaders''),
       (ULong, ''requestHeadersSize''), (CharPtr, ''requestBody''),
       (ULong, ''requestBodySize''), (CharPtr, ''responseBody''),
       (ULong, ''responseBodySize''), (LongPtr, ''httpStatusCode''),
       (ULongPtr, ''responseBodyLength'')]),
    (''restifyPatchSync'',
      [(CharPtr, ''url''), (ULong, ''urlSize''), (CharPtr, ''requestHeaders''),
       (ULong, ''requestHeadersSize''), (CharPtr, ''requestBody''),
       (ULong, ''requestBodySize''), (CharPtr, ''responseBody''),
       (ULong, ''responseBodySize''), (LongPtr, ''httpStatusCode''),
       (ULongPtr, ''responseBodyLength'')]),
    (''restifyRequestSync'',
      [(CharPtr, ''method''), (ULong, ''methodSize''), (CharPtr, ''url''),
       (ULong, ''urlSize''), (CharPtr, ''requestHeaders''), (ULong, ''requestHeadersSize''),
       (CharPtr, ''requestBody''), (ULong, ''requestBodySize''), (CharPtr, ''responseBody''),
       (ULong, ''responseBodySize''), (ULong, ''connectTimeoutMs''),
       (ULong, ''totalTimeoutMs''), (ULong, ''maxResponseBytes''),
       (LongPtr, ''httpStatusCode''), (ULongPtr, ''responseBodyLength'')])]"

definition async_signatures :: "(string \<times> (cpp_type \<times> string) list) list" where
  "async_signatures = [
    (''restifyGetAsync'',
      [(CharPtr, ''url''), (ULong, ''urlSize''), (CharPtr, ''requestHeaders''),
       (ULong, ''requestHeadersSize''), (UInt32Ptr, ''requestId'')]),
    (''restifyDeleteAsync'',
      [(CharPtr, ''url''), (ULong, ''urlSize''), (CharPtr, ''requestHeaders''),
       (ULong, ''requestHeadersSize''), (UInt32Ptr, ''requestId'')]),
    (''restifyPostAsync'',
      [(CharPtr, ''url''), (ULong, ''urlSize''), (CharPtr, ''requestHeaders''),
       (ULong, ''requestHeadersSize''), (CharPtr, ''requestBody''),
       (ULong, ''requestBodySize''), (UInt32Ptr, ''requestId'')]),
    (''restifyPutAsync'',
      [(CharPtr, ''url''), (ULong, ''urlSize''), (CharPtr, ''requestHeaders''),
       (ULong, ''requestHeadersSize''), (CharPtr, ''requestBody''),
       (ULong, ''requestBodySize''), (UInt32Ptr, ''requestId'')]),
    (''restifyPatchAsync'',
      [(CharPtr, ''url''), (ULong, ''urlSize''), (CharPtr, ''requestHeaders''),
       (ULong, ''requestHeadersSize''), (CharPtr, ''requestBody''),
       (ULong, ''requestBodySize''), (UInt32Ptr, ''requestId'')]),
    (''restifyRequestAsync'',
      [(CharPtr, ''method''), (ULong, ''methodSize''), (CharPtr, ''url''),
       (ULong, ''urlSize''), (CharPtr, ''requestHeaders''), (ULong, ''requestHeadersSize''),
       (CharPtr, ''requestBody''), (ULong, ''requestBodySize''),
       (ULong, ''connectTimeoutMs''), (ULong, ''totalTimeoutMs''),
       (ULong, ''maxResponseBytes''), (UInt32Ptr, ''requestId'')]),
    (''restifyPollResponse'',
      [(ULong, ''requestId''), (Int32Ptr, ''state'')]),
    (''restifyAwaitResponse'',
      [(ULong, ''requestId''), (ULong, ''waitTimeoutMs'')]),
    (''restifyReadResponse'',
      [(ULong, ''requestId''), (CharPtr, ''responseBody''), (ULong, ''responseBodySize''),
       (Int32Ptr, ''requestStatus''), (Int32Ptr, ''httpStatusCode''),
       (UInt32Ptr, ''responseBodyLength'')]),
    (''restifyDiscardResponse'',
      [(ULong, ''requestId'')]),
    (''restifyDiscardAllResponses'',
      [(UInt32Ptr, ''stillRunning'')])]"

definition json_signatures :: "(string \<times> (cpp_type \<times> string) list) list" where
  "json_signatures = [
    (''restifyJsonParse'',
      [(CharPtr, ''json''), (ULong, ''jsonSize''), (UInt32Ptr, ''documentId'')]),
    (''restifyJsonCountEntries'',
      [(ULong, ''documentId''), (UInt32Ptr, ''entryCount'')]),
    (''restifyJsonReadEntry'',
      [(ULong, ''documentId''), (ULong, ''entryIndex''), (CharPtr, ''key''),
       (ULong, ''keySize''), (CharPtr, ''value''), (ULong, ''valueSize''),
       (Int32Ptr, ''valueType'')]),
    (''restifyJsonReadValue'',
      [(ULong, ''documentId''), (CharPtr, ''path''), (ULong, ''pathSize''),
       (CharPtr, ''value''), (ULong, ''valueSize''), (Int32Ptr, ''valueType'')]),
    (''restifyJsonDiscardDocument'',
      [(ULong, ''documentId'')]),
    (''restifyJsonDiscardAllDocuments'',
      [(UInt32Ptr, ''discardedCount'')]),
    (''restifyJsonNormalize'',
      [(CharPtr, ''json''), (ULong, ''jsonSize''), (CharPtr, ''normalized''),
       (ULong, ''normalizedSize'')]),
    (''restifyJsonReadLong'',
      [(ULong, ''documentId''), (CharPtr, ''path''), (ULong, ''pathSize''),
       (Int32Ptr, ''value'')]),
    (''restifyJsonReadDouble'',
      [(ULong, ''documentId''), (CharPtr, ''path''), (ULong, ''pathSize''),
       (DoublePtr, ''value'')]),
    (''restifyJsonReadBool'',
      [(ULong, ''documentId''), (CharPtr, ''path''), (ULong, ''pathSize''),
       (Int32Ptr, ''value'')]),
    (''restifyJsonCountElements'',
      [(ULong, ''documentId''), (CharPtr, ''path''), (ULong, ''pathSize''),
       (UInt32Ptr, ''elementCount'')])]"

definition shim_signatures :: "(string \<times> (cpp_type \<times> string) list) list" where
  "shim_signatures = sync_signatures @ async_signatures @ json_signatures"

section \<open>The table\<close>

definition version_marker :: CAPL_DLL_INFO4 where
  "version_marker = \<lparr>cdlName = ''CDLL_VERSION'', adr = VersionTag 2, categoryName = [], hintText = [],
     resultType = CHR 0x00, parCount = 0, parTypes = [], parArray = [], parNames = [[]]\<rparr>"

definition version_rows :: "CAPL_DLL_INFO4 list" where
  "version_rows = [
    \<lparr>cdlName = ''restifyReadVersion'', adr = Function ''restifyReadVersion'', categoryName = ''Common'',
     hintText =
       ''Writes this DLL's build version string into the caller-supplied buffer. Returns 0 '' @
       ''on success, a negative error code otherwise.'',
     resultType = CHR ''L'', parCount = 2,
     parTypes = [CHR ''C'', CHR ''D''],
     parArray = [1, 0],
     parNames =
       [''buffer'', ''bufferSize'']\<rparr>]"

definition sync_rows :: "CAPL_DLL_INFO4 list" where
  "sync_rows = [
    \<lparr>cdlName = ''restifyGetSync'', adr = Function ''restifyGetSync'', categoryName = ''Sync'',
     hintText =
       ''Performs a blocking HTTP GET and copies the response body into the caller's buffer, '' @
       ''returning 0 on success or a negative error code otherwise. Blocking call '' @
       [CHR 0xE2, CHR 0x80, CHR 0x94] @
       '' use from Measurement Setup or a test node only, never from a Simulation Setup node.'',
     resultType = CHR ''L'', parCount = 8,
     parTypes = [CHR ''C'', CHR ''D'', CHR ''C'', CHR ''D'', CHR ''C'', CHR ''D'', kRefLong, kRefDword],
     parArray = [1, 0, 1, 0, 1, 0, 0, 0],
     parNames =
       [''url'', ''urlSize'', ''requestHeaders'', ''requestHeadersSize'', ''responseBody'',
        ''responseBodySize'', ''httpStatusCode'', ''responseBodyLength'']\<rparr>,
    \<lparr>cdlName = ''restifyDeleteSync'', adr = Function ''restifyDeleteSync'', categoryName = ''Sync'',
     hintText =
       ''Performs a blocking HTTP DELETE and copies the response body into the caller's '' @
       ''buffer, returning 0 on success or a negative error code otherwise. Blocking call '' @
       [CHR 0xE2, CHR 0x80, CHR 0x94] @
       '' use from Measurement Setup or a test node only, never from a Simulation Setup node.'',
     resultType = CHR ''L'', parCount = 8,
     parTypes = [CHR ''C'', CHR ''D'', CHR ''C'', CHR ''D'', CHR ''C'', CHR ''D'', kRefLong, kRefDword],
     parArray = [1, 0, 1, 0, 1, 0, 0, 0],
     parNames =
       [''url'', ''urlSize'', ''requestHeaders'', ''requestHeadersSize'', ''responseBody'',
        ''responseBodySize'', ''httpStatusCode'', ''responseBodyLength'']\<rparr>,
    \<lparr>cdlName = ''restifyPostSync'', adr = Function ''restifyPostSync'', categoryName = ''Sync'',
     hintText =
       ''Performs a blocking HTTP POST with the given request body and copies the response '' @
       ''body into the caller's buffer, returning 0 on success or a negative error code '' @
       ''otherwise. Blocking call '' @
       [CHR 0xE2, CHR 0x80, CHR 0x94] @
       '' use from Measurement Setup or a test node only, never from a Simulation Setup node.'',
     resultType = CHR ''L'', parCount = 10,
     parTypes = [CHR ''C'', CHR ''D'', CHR ''C'', CHR ''D'', CHR ''C'', CHR ''D'', CHR ''C'', CHR ''D'', kRefLong, kRefDword],
     parArray = [1, 0, 1, 0, 1, 0, 1, 0, 0, 0],
     parNames =
       [''url'', ''urlSize'', ''requestHeaders'', ''requestHeadersSize'', ''requestBody'',
        ''requestBodySize'', ''responseBody'', ''responseBodySize'', ''httpStatusCode'',
        ''responseBodyLength'']\<rparr>,
    \<lparr>cdlName = ''restifyPutSync'', adr = Function ''restifyPutSync'', categoryName = ''Sync'',
     hintText =
       ''Performs a blocking HTTP PUT with the given request body and copies the response '' @
       ''body into the caller's buffer, returning 0 on success or a negative error code '' @
       ''otherwise. Blocking call '' @
       [CHR 0xE2, CHR 0x80, CHR 0x94] @
       '' use from Measurement Setup or a test node only, never from a Simulation Setup node.'',
     resultType = CHR ''L'', parCount = 10,
     parTypes = [CHR ''C'', CHR ''D'', CHR ''C'', CHR ''D'', CHR ''C'', CHR ''D'', CHR ''C'', CHR ''D'', kRefLong, kRefDword],
     parArray = [1, 0, 1, 0, 1, 0, 1, 0, 0, 0],
     parNames =
       [''url'', ''urlSize'', ''requestHeaders'', ''requestHeadersSize'', ''requestBody'',
        ''requestBodySize'', ''responseBody'', ''responseBodySize'', ''httpStatusCode'',
        ''responseBodyLength'']\<rparr>,
    \<lparr>cdlName = ''restifyPatchSync'', adr = Function ''restifyPatchSync'', categoryName = ''Sync'',
     hintText =
       ''Performs a blocking HTTP PATCH with the given request body and copies the response '' @
       ''body into the caller's buffer, returning 0 on success or a negative error code '' @
       ''otherwise. Blocking call '' @
       [CHR 0xE2, CHR 0x80, CHR 0x94] @
       '' use from Measurement Setup or a test node only, never from a Simulation Setup node.'',
     resultType = CHR ''L'', parCount = 10,
     parTypes = [CHR ''C'', CHR ''D'', CHR ''C'', CHR ''D'', CHR ''C'', CHR ''D'', CHR ''C'', CHR ''D'', kRefLong, kRefDword],
     parArray = [1, 0, 1, 0, 1, 0, 1, 0, 0, 0],
     parNames =
       [''url'', ''urlSize'', ''requestHeaders'', ''requestHeadersSize'', ''requestBody'',
        ''requestBodySize'', ''responseBody'', ''responseBodySize'', ''httpStatusCode'',
        ''responseBodyLength'']\<rparr>,
    \<lparr>cdlName = ''restifyRequestSync'', adr = Function ''restifyRequestSync'', categoryName = ''Sync'',
     hintText =
       ''Performs a blocking HTTP request using the given method, request body and timeouts, '' @
       ''copying the response body into the caller's buffer and returning 0 on success or a '' @
       ''negative error code otherwise. Blocking call '' @
       [CHR 0xE2, CHR 0x80, CHR 0x94] @
       '' use from Measurement Setup or a test node only, never from a Simulation Setup node.'',
     resultType = CHR ''L'', parCount = 15,
     parTypes = [CHR ''C'', CHR ''D'', CHR ''C'', CHR ''D'', CHR ''C'', CHR ''D'', CHR ''C'', CHR ''D'', CHR ''C'', CHR ''D'', CHR ''D'', CHR ''D'', CHR ''D'', kRefLong, kRefDword],
     parArray = [1, 0, 1, 0, 1, 0, 1, 0, 1, 0, 0, 0, 0, 0, 0],
     parNames =
       [''method'', ''methodSize'', ''url'', ''urlSize'', ''requestHeaders'',
        ''requestHeadersSize'', ''requestBody'', ''requestBodySize'', ''responseBody'',
        ''responseBodySize'', ''connectTimeoutMs'', ''totalTimeoutMs'', ''maxResponseBytes'',
        ''httpStatusCode'', ''responseBodyLength'']\<rparr>]"

definition async_rows :: "CAPL_DLL_INFO4 list" where
  "async_rows = [
    \<lparr>cdlName = ''restifyGetAsync'', adr = Function ''restifyGetAsync'', categoryName = ''Async'',
     hintText =
       ''Dispatches a non-blocking HTTP GET, returning 0 on success with a request id or a '' @
       ''negative error code otherwise. Non-blocking '' @
       [CHR 0xE2, CHR 0x80, CHR 0x94] @
       '' safe to call from a Simulation Setup node.'',
     resultType = CHR ''L'', parCount = 5,
     parTypes = [CHR ''C'', CHR ''D'', CHR ''C'', CHR ''D'', kRefDword],
     parArray = [1, 0, 1, 0, 0],
     parNames =
       [''url'', ''urlSize'', ''requestHeaders'', ''requestHeadersSize'', ''requestId'']\<rparr>,
    \<lparr>cdlName = ''restifyDeleteAsync'', adr = Function ''restifyDeleteAsync'', categoryName = ''Async'',
     hintText =
       ''Dispatches a non-blocking HTTP DELETE, returning 0 on success with a request id or '' @
       ''a negative error code otherwise. Non-blocking '' @
       [CHR 0xE2, CHR 0x80, CHR 0x94] @
       '' safe to call from a Simulation Setup node.'',
     resultType = CHR ''L'', parCount = 5,
     parTypes = [CHR ''C'', CHR ''D'', CHR ''C'', CHR ''D'', kRefDword],
     parArray = [1, 0, 1, 0, 0],
     parNames =
       [''url'', ''urlSize'', ''requestHeaders'', ''requestHeadersSize'', ''requestId'']\<rparr>,
    \<lparr>cdlName = ''restifyPostAsync'', adr = Function ''restifyPostAsync'', categoryName = ''Async'',
     hintText =
       ''Dispatches a non-blocking HTTP POST with the given request body, returning 0 on '' @
       ''success with a request id or a negative error code otherwise. Non-blocking '' @
       [CHR 0xE2, CHR 0x80, CHR 0x94] @
       '' safe to call from a Simulation Setup node.'',
     resultType = CHR ''L'', parCount = 7,
     parTypes = [CHR ''C'', CHR ''D'', CHR ''C'', CHR ''D'', CHR ''C'', CHR ''D'', kRefDword],
     parArray = [1, 0, 1, 0, 1, 0, 0],
     parNames =
       [''url'', ''urlSize'', ''requestHeaders'', ''requestHeadersSize'', ''requestBody'',
        ''requestBodySize'', ''requestId'']\<rparr>,
    \<lparr>cdlName = ''restifyPutAsync'', adr = Function ''restifyPutAsync'', categoryName = ''Async'',
     hintText =
       ''Dispatches a non-blocking HTTP PUT with the given request body, returning 0 on '' @
       ''success with a request id or a negative error code otherwise. Non-blocking '' @
       [CHR 0xE2, CHR 0x80, CHR 0x94] @
       '' safe to call from a Simulation Setup node.'',
     resultType = CHR ''L'', parCount = 7,
     parTypes = [CHR ''C'', CHR ''D'', CHR ''C'', CHR ''D'', CHR ''C'', CHR ''D'', kRefDword],
     parArray = [1, 0, 1, 0, 1, 0, 0],
     parNames =
       [''url'', ''urlSize'', ''requestHeaders'', ''requestHeadersSize'', ''requestBody'',
        ''requestBodySize'', ''requestId'']\<rparr>,
    \<lparr>cdlName = ''restifyPatchAsync'', adr = Function ''restifyPatchAsync'', categoryName = ''Async'',
     hintText =
       ''Dispatches a non-blocking HTTP PATCH with the given request body, returning 0 on '' @
       ''success with a request id or a negative error code otherwise. Non-blocking '' @
       [CHR 0xE2, CHR 0x80, CHR 0x94] @
       '' safe to call from a Simulation Setup node.'',
     resultType = CHR ''L'', parCount = 7,
     parTypes = [CHR ''C'', CHR ''D'', CHR ''C'', CHR ''D'', CHR ''C'', CHR ''D'', kRefDword],
     parArray = [1, 0, 1, 0, 1, 0, 0],
     parNames =
       [''url'', ''urlSize'', ''requestHeaders'', ''requestHeadersSize'', ''requestBody'',
        ''requestBodySize'', ''requestId'']\<rparr>,
    \<lparr>cdlName = ''restifyRequestAsync'', adr = Function ''restifyRequestAsync'', categoryName = ''Async'',
     hintText =
       ''Dispatches a non-blocking HTTP request using the given method, request body and '' @
       ''timeouts, returning 0 on success with a request id or a negative error code '' @
       ''otherwise. Non-blocking '' @
       [CHR 0xE2, CHR 0x80, CHR 0x94] @
       '' safe to call from a Simulation Setup node.'',
     resultType = CHR ''L'', parCount = 12,
     parTypes = [CHR ''C'', CHR ''D'', CHR ''C'', CHR ''D'', CHR ''C'', CHR ''D'', CHR ''C'', CHR ''D'', CHR ''D'', CHR ''D'', CHR ''D'', kRefDword],
     parArray = [1, 0, 1, 0, 1, 0, 1, 0, 0, 0, 0, 0],
     parNames =
       [''method'', ''methodSize'', ''url'', ''urlSize'', ''requestHeaders'',
        ''requestHeadersSize'', ''requestBody'', ''requestBodySize'', ''connectTimeoutMs'',
        ''totalTimeoutMs'', ''maxResponseBytes'', ''requestId'']\<rparr>,
    \<lparr>cdlName = ''restifyPollResponse'', adr = Function ''restifyPollResponse'', categoryName = ''Async'',
     hintText =
       ''Checks whether a dispatched request is still in flight or has completed, without '' @
       ''blocking. Safe to call from a Simulation Setup timer.'',
     resultType = CHR ''L'', parCount = 2,
     parTypes = [CHR ''D'', kRefLong],
     parArray = [0, 0],
     parNames =
       [''requestId'', ''state'']\<rparr>,
    \<lparr>cdlName = ''restifyAwaitResponse'', adr = Function ''restifyAwaitResponse'', categoryName = ''Async'',
     hintText =
       ''Blocks until a dispatched request completes or the given timeout elapses. Blocking '' @
       ''call '' @
       [CHR 0xE2, CHR 0x80, CHR 0x94] @
       '' use from Measurement Setup or a test node only, never from a Simulation Setup node.'',
     resultType = CHR ''L'', parCount = 2,
     parTypes = [CHR ''D'', CHR ''D''],
     parArray = [0, 0],
     parNames =
       [''requestId'', ''waitTimeoutMs'']\<rparr>,
    \<lparr>cdlName = ''restifyReadResponse'', adr = Function ''restifyReadResponse'', categoryName = ''Async'',
     hintText =
       ''Copies a completed response's body into the caller's buffer without blocking, '' @
       ''returning 0 on success or a negative error code otherwise. Safe to call from a '' @
       ''Simulation Setup timer.'',
     resultType = CHR ''L'', parCount = 6,
     parTypes = [CHR ''D'', CHR ''C'', CHR ''D'', kRefLong, kRefLong, kRefDword],
     parArray = [0, 1, 0, 0, 0, 0],
     parNames =
       [''requestId'', ''responseBody'', ''responseBodySize'', ''requestStatus'',
        ''httpStatusCode'', ''responseBodyLength'']\<rparr>,
    \<lparr>cdlName = ''restifyDiscardResponse'', adr = Function ''restifyDiscardResponse'', categoryName = ''Async'',
     hintText =
       ''Releases a single response's slot without blocking, returning 0 on success or a '' @
       ''negative error code otherwise. Safe to call from a Simulation Setup timer.'',
     resultType = CHR ''L'', parCount = 1,
     parTypes = [CHR ''D''],
     parArray = [0],
     parNames =
       [''requestId'']\<rparr>,
    \<lparr>cdlName = ''restifyDiscardAllResponses'', adr = Function ''restifyDiscardAllResponses'', categoryName = ''Async'',
     hintText =
       ''Releases every response's memory at once, returning 0 and a count of requests still '' @
       ''running. Frees memory '' @
       [CHR 0xE2, CHR 0x80, CHR 0x94] @
       '' call from on stopMeasurement or a test node.'',
     resultType = CHR ''L'', parCount = 1,
     parTypes = [kRefDword],
     parArray = [0],
     parNames =
       [''stillRunning'']\<rparr>]"

definition json_rows :: "CAPL_DLL_INFO4 list" where
  "json_rows = [
    \<lparr>cdlName = ''restifyJsonParse'', adr = Function ''restifyJsonParse'', categoryName = ''Json'',
     hintText =
       ''Parses JSON text into a stored document, returning 0 on success with a document id '' @
       ''or a negative error code otherwise.'',
     resultType = CHR ''L'', parCount = 3,
     parTypes = [CHR ''C'', CHR ''D'', kRefDword],
     parArray = [1, 0, 0],
     parNames =
       [''json'', ''jsonSize'', ''documentId'']\<rparr>,
    \<lparr>cdlName = ''restifyJsonCountEntries'', adr = Function ''restifyJsonCountEntries'', categoryName = ''Json'',
     hintText =
       ''Writes the number of flattened entries of a parsed document to entryCount, '' @
       ''returning 0 on success or a negative error code otherwise.'',
     resultType = CHR ''L'', parCount = 2,
     parTypes = [CHR ''D'', kRefDword],
     parArray = [0, 0],
     parNames =
       [''documentId'', ''entryCount'']\<rparr>,
    \<lparr>cdlName = ''restifyJsonReadEntry'', adr = Function ''restifyJsonReadEntry'', categoryName = ''Json'',
     hintText =
       ''Copies the key and value text of one entry of a parsed document into the caller's '' @
       ''buffers and reports the value type, returning 0 on success or a negative error code '' @
       ''otherwise.'',
     resultType = CHR ''L'', parCount = 7,
     parTypes = [CHR ''D'', CHR ''D'', CHR ''C'', CHR ''D'', CHR ''C'', CHR ''D'', kRefLong],
     parArray = [0, 0, 1, 0, 1, 0, 0],
     parNames =
       [''documentId'', ''entryIndex'', ''key'', ''keySize'', ''value'', ''valueSize'',
        ''valueType'']\<rparr>,
    \<lparr>cdlName = ''restifyJsonReadValue'', adr = Function ''restifyJsonReadValue'', categoryName = ''Json'',
     hintText =
       ''Copies the value text found at a JSON Pointer path in a parsed document into the '' @
       ''caller's buffer and reports the value type, returning 0 on success or a negative '' @
       ''error code otherwise.'',
     resultType = CHR ''L'', parCount = 6,
     parTypes = [CHR ''D'', CHR ''C'', CHR ''D'', CHR ''C'', CHR ''D'', kRefLong],
     parArray = [0, 1, 0, 1, 0, 0],
     parNames =
       [''documentId'', ''path'', ''pathSize'', ''value'', ''valueSize'', ''valueType'']\<rparr>,
    \<lparr>cdlName = ''restifyJsonDiscardDocument'', adr = Function ''restifyJsonDiscardDocument'', categoryName = ''Json'',
     hintText =
       ''Releases a single parsed document, returning 0 on success or a negative error code '' @
       ''otherwise.'',
     resultType = CHR ''L'', parCount = 1,
     parTypes = [CHR ''D''],
     parArray = [0],
     parNames =
       [''documentId'']\<rparr>,
    \<lparr>cdlName = ''restifyJsonDiscardAllDocuments'', adr = Function ''restifyJsonDiscardAllDocuments'', categoryName = ''Json'',
     hintText =
       ''Releases every parsed document at once, returning 0 and the number of documents '' @
       ''released.'',
     resultType = CHR ''L'', parCount = 1,
     parTypes = [kRefDword],
     parArray = [0],
     parNames =
       [''discardedCount'']\<rparr>,
    \<lparr>cdlName = ''restifyJsonNormalize'', adr = Function ''restifyJsonNormalize'', categoryName = ''Json'',
     hintText =
       ''Converts apostrophe-quoted JSON strings to standard JSON and checks the result, '' @
       ''returning 0 and the normalized text on success or a negative error code otherwise.'',
     resultType = CHR ''L'', parCount = 4,
     parTypes = [CHR ''C'', CHR ''D'', CHR ''C'', CHR ''D''],
     parArray = [1, 0, 1, 0],
     parNames =
       [''json'', ''jsonSize'', ''normalized'', ''normalizedSize'']\<rparr>]"

definition typed_json_rows :: "CAPL_DLL_INFO4 list" where
  "typed_json_rows = [
    \<lparr>cdlName = ''restifyJsonReadLong'', adr = Function ''restifyJsonReadLong'', categoryName = ''Json'',
     hintText =
       ''Writes the integer value found at a JSON Pointer path in a parsed document to '' @
       ''value, returning 0 on success or a negative error code otherwise.'',
     resultType = CHR ''L'', parCount = 4,
     parTypes = [CHR ''D'', CHR ''C'', CHR ''D'', kRefLong],
     parArray = [0, 1, 0, 0],
     parNames =
       [''documentId'', ''path'', ''pathSize'', ''value'']\<rparr>,
    \<lparr>cdlName = ''restifyJsonReadDouble'', adr = Function ''restifyJsonReadDouble'', categoryName = ''Json'',
     hintText =
       ''Writes the numeric value found at a JSON Pointer path in a parsed document to '' @
       ''value, returning 0 on success or a negative error code otherwise.'',
     resultType = CHR ''L'', parCount = 4,
     parTypes = [CHR ''D'', CHR ''C'', CHR ''D'', kRefDouble],
     parArray = [0, 1, 0, 0],
     parNames =
       [''documentId'', ''path'', ''pathSize'', ''value'']\<rparr>,
    \<lparr>cdlName = ''restifyJsonReadBool'', adr = Function ''restifyJsonReadBool'', categoryName = ''Json'',
     hintText =
       ''Writes the boolean value (1 or 0) found at a JSON Pointer path in a parsed document '' @
       ''to value, returning 0 on success or a negative error code otherwise.'',
     resultType = CHR ''L'', parCount = 4,
     parTypes = [CHR ''D'', CHR ''C'', CHR ''D'', kRefLong],
     parArray = [0, 1, 0, 0],
     parNames =
       [''documentId'', ''path'', ''pathSize'', ''value'']\<rparr>,
    \<lparr>cdlName = ''restifyJsonCountElements'', adr = Function ''restifyJsonCountElements'', categoryName = ''Json'',
     hintText =
       ''Writes the number of elements of the array found at a JSON Pointer path in a parsed '' @
       ''document to elementCount, returning 0 on success or a negative error code otherwise.'',
     resultType = CHR ''L'', parCount = 4,
     parTypes = [CHR ''D'', CHR ''C'', CHR ''D'', kRefDword],
     parArray = [0, 1, 0, 0],
     parNames =
       [''documentId'', ''path'', ''pathSize'', ''elementCount'']\<rparr>]"

definition sentinel :: CAPL_DLL_INFO4 where
  "sentinel = \<lparr>cdlName = [], adr = NoFunction, categoryName = [], hintText = [],
     resultType = CHR 0x00, parCount = 0, parTypes = [], parArray = [], parNames = []\<rparr>"

definition function_rows :: "CAPL_DLL_INFO4 list" where
  "function_rows = version_rows @ sync_rows @ async_rows @ json_rows @ typed_json_rows"

definition CAPL_DLL_INFO_LIST4 :: "CAPL_DLL_INFO4 list" where
  "CAPL_DLL_INFO_LIST4 = version_marker # function_rows @ [sentinel]"

definition caplDllGetTable4 :: "CAPL_DLL_INFO4 list" where
  "caplDllGetTable4 = CAPL_DLL_INFO_LIST4"

section \<open>What a row must say\<close>

text \<open>The letter and the array depth with which CAPL passes a parameter of a C++ type.\<close>

fun capl_type :: "cpp_type \<Rightarrow> char \<times> nat" where
  "capl_type CharPtr = (CHR ''C'', 1)"
| "capl_type ULong = (CHR ''D'', 0)"
| "capl_type LongPtr = (kRefLong, 0)"
| "capl_type Int32Ptr = (kRefLong, 0)"
| "capl_type ULongPtr = (kRefDword, 0)"
| "capl_type UInt32Ptr = (kRefDword, 0)"
| "capl_type DoublePtr = (kRefDouble, 0)"

definition row_matches :: "CAPL_DLL_INFO4 \<Rightarrow> (cpp_type \<times> string) list \<Rightarrow> bool" where
  "row_matches row ps \<longleftrightarrow>
     adr row = Function (cdlName row) \<and> resultType row = CHR ''L'' \<and> parCount row = length ps
     \<and> zip (parTypes row) (parArray row) = map (capl_type \<circ> fst) ps
     \<and> length (parTypes row) = length ps \<and> length (parArray row) = length ps
     \<and> parNames row = map snd ps"

text \<open>The sizes of the SDK's arrays, the name with its NUL.\<close>

definition row_fits :: "CAPL_DLL_INFO4 \<Rightarrow> bool" where
  "row_fits row \<longleftrightarrow> length (cdlName row) < 50 \<and> length (parTypes row) \<le> 64 \<and> length (parArray row) \<le> 64
     \<and> length (parNames row) \<le> 64"

definition blocking_warning :: string where
  "blocking_warning = ''Blocking call '' @ [CHR 0xE2, CHR 0x80, CHR 0x94] @
     '' use from Measurement Setup or a test node only, never from a Simulation Setup node.''"

definition ends_with :: "string \<Rightarrow> string \<Rightarrow> bool" where
  "ends_with s t \<longleftrightarrow> length t \<le> length s \<and> drop (length s - length t) s = t"

lemmas rows_defs = version_rows_def sync_rows_def async_rows_def json_rows_def typed_json_rows_def
lemmas sig_defs = sync_signatures_def async_signatures_def json_signatures_def
lemmas table_defs = caplDllGetTable4_def CAPL_DLL_INFO_LIST4_def function_rows_def rows_defs version_marker_def sentinel_def

section \<open>Properties\<close>

text \<open>C22: The table is right. Its rows are the exported functions, in the order of their definitions,
  between the version marker and the terminating row, under distinct names with the project's
  prefix; each row carries its own function, the result type, and as many parameters as the
  function takes, with the letter, the array depth and the name of each as the C++ signature has
  them; and everything fits the SDK's fixed arrays. The hint of every synchronous request
  ends in the warning that it blocks.
\<close>

theorem table_matches_shims:
  "list_all2 (\<lambda>row sig. cdlName row = fst sig \<and> row_matches row (snd sig)) function_rows shim_signatures
   \<and> caplDllGetTable4 = [version_marker] @ function_rows @ [sentinel]
   \<and> distinct (map cdlName caplDllGetTable4)
   \<and> list_all (\<lambda>row. take 7 (cdlName row) = ''restify'') function_rows
   \<and> list_all row_fits caplDllGetTable4
   \<and> list_all (\<lambda>row. ends_with (hintText row) blocking_warning) sync_rows"
proof (intro conjI)
  show "list_all2 (\<lambda>row sig. cdlName row = fst sig \<and> row_matches row (snd sig)) function_rows shim_signatures"
    unfolding function_rows_def shim_signatures_def rows_defs sig_defs by (simp add: row_matches_def)
  show "caplDllGetTable4 = [version_marker] @ function_rows @ [sentinel]"
    by (simp add: caplDllGetTable4_def CAPL_DLL_INFO_LIST4_def)
  show "distinct (map cdlName caplDllGetTable4)" unfolding table_defs by simp
  show "list_all (\<lambda>row. take 7 (cdlName row) = ''restify'') function_rows" unfolding function_rows_def rows_defs by simp
  show "list_all row_fits caplDllGetTable4" unfolding table_defs by (simp add: row_fits_def)
  show "list_all (\<lambda>row. ends_with (hintText row) blocking_warning) sync_rows" by code_simp
qed

end
