(* ===== verification/Doubles.thy ===== *)
theory Doubles
  imports Complex_Main Prelude
begin

text \<open>
  C++ \<open>double\<close> as IEEE binary64: the 64-bit pattern is the value that is stored and passed,
  \<open>decode_f64\<close> reads it. Only what the program uses of the language is here: \<open>std::trunc\<close>,
  \<open>!=\<close>, \<open><\<close>, the conversion of a 64-bit integer to \<open>double\<close> and the correctly rounded
  conversion of a decimal text. All of it is integer arithmetic, so it evaluates; the lemmas
  tie it to the real number a pattern stands for.
\<close>

section \<open>Patterns and values\<close>

type_synonym f64 = "64 word"

text \<open>A finite number is \<open>(-1)^s * m * 2^e\<close>.\<close>

datatype fp = FpNaN | FpInf bool | FpFin bool nat int

definition decode_f64 :: "f64 \<Rightarrow> fp" where
  "decode_f64 w =
     (let n = unat w; s = (n div 2 ^ 63 = 1); ex = (n div 2 ^ 52) mod 2 ^ 11; man = n mod 2 ^ 52
      in if ex = 2047 then (if man = 0 then FpInf s else FpNaN)
         else if ex = 0 then FpFin s man (-1074)
         else FpFin s (man + 2 ^ 52) (int ex - 1075))"

definition signed :: "bool \<Rightarrow> nat \<Rightarrow> int" where
  "signed s m = (if s then - int m else int m)"

text \<open>The real number of a finite pattern.\<close>

fun fp_val :: "fp \<Rightarrow> real" where
  "fp_val (FpFin s m e) = of_int (signed s m) * 2 powi e"
| "fp_val _ = 0"

definition is_finite_fp :: "fp \<Rightarrow> bool" where
  "is_finite_fp x = (case x of FpFin s m e \<Rightarrow> True | _ \<Rightarrow> False)"

section \<open>Comparison and truncation\<close>

text \<open>Operands are compared as integers after scaling to the smaller exponent.\<close>

fun fp_eq :: "fp \<Rightarrow> fp \<Rightarrow> bool" where
  "fp_eq (FpFin s m e) (FpFin t n f) =
     (signed s m * 2 ^ nat (e - min e f) = signed t n * 2 ^ nat (f - min e f))"
| "fp_eq (FpInf s) (FpInf t) = (s = t)"
| "fp_eq _ _ = False"

fun fp_less :: "fp \<Rightarrow> fp \<Rightarrow> bool" where
  "fp_less (FpFin s m e) (FpFin t n f) =
     (signed s m * 2 ^ nat (e - min e f) < signed t n * 2 ^ nat (f - min e f))"
| "fp_less (FpInf s) (FpFin t n f) = s"
| "fp_less (FpFin s m e) (FpInf t) = (\<not> t)"
| "fp_less (FpInf s) (FpInf t) = (s \<and> \<not> t)"
| "fp_less _ _ = False"

text \<open>\<open>std::trunc\<close>: rounds toward zero, and is the identity on infinities and NaN.\<close>

fun fp_trunc :: "fp \<Rightarrow> fp" where
  "fp_trunc (FpFin s m e) = (if 0 \<le> e then FpFin s m e else FpFin s (m div 2 ^ nat (- e)) 0)"
| "fp_trunc x = x"

text \<open>The integer of a truncated number, as \<open>static_cast<std::int32_t>\<close> reads it in range.\<close>

fun fp_to_int :: "fp \<Rightarrow> int" where
  "fp_to_int (FpFin s m e) = (if 0 \<le> e then signed s m * 2 ^ nat e else signed s (m div 2 ^ nat (- e)))"
| "fp_to_int _ = 0"

text \<open>A small integer as a number, for the two bounds \<open>static_cast<double>(INT32_MIN)\<close> and \<open>MAX\<close>.\<close>

definition fp_of_int :: "int \<Rightarrow> fp" where
  "fp_of_int z = FpFin (z < 0) (nat \<bar>z\<bar>) 0"

lemma powi_scale:
  assumes "k \<le> e"
  shows "(2::real) powi e = 2 ^ nat (e - k) * 2 powi k"
proof -
  have "(2::real) powi (k + int (nat (e - k))) = 2 powi k * 2 ^ nat (e - k)"
    by (subst power_int_add) (simp_all add: power_int_def)
  with assms show ?thesis by simp
qed

lemma fp_val_scaled:
  "k \<le> e \<Longrightarrow> fp_val (FpFin s m e) = of_int (signed s m * 2 ^ nat (e - k)) * 2 powi k"
  by (simp add: powi_scale)

lemma fp_eq_iff: "fp_eq (FpFin s m e) (FpFin t n f) \<longleftrightarrow> fp_val (FpFin s m e) = fp_val (FpFin t n f)"
  unfolding fp_val_scaled [OF min.cobounded1 [of e f]] fp_val_scaled [OF min.cobounded2 [of e f]]
  by (simp del: of_int_mult of_int_power)

lemma fp_less_iff: "fp_less (FpFin s m e) (FpFin t n f) \<longleftrightarrow> fp_val (FpFin s m e) < fp_val (FpFin t n f)"
  unfolding fp_val_scaled [OF min.cobounded1 [of e f]] fp_val_scaled [OF min.cobounded2 [of e f]]
  by (simp del: of_int_mult of_int_power)

lemma fp_val_fp_of_int [simp]: "fp_val (fp_of_int z) = of_int z"
  by (simp add: fp_of_int_def signed_def)

lemma fp_val_trunc [simp]: "fp_val (fp_trunc (FpFin s m e)) = of_int (fp_to_int (FpFin s m e))"
  by (simp add: power_int_def)

text \<open>A number equals its truncation exactly when it is an integer.\<close>

lemma fp_integral_iff:
  "fp_eq (FpFin s m e) (fp_trunc (FpFin s m e)) \<longleftrightarrow>
     fp_val (FpFin s m e) = of_int (fp_to_int (FpFin s m e))"
  by (cases "0 \<le> e") (simp_all add: fp_eq_iff power_int_def del: fp_eq.simps)

lemma abs_signed [simp]: "\<bar>signed s m\<bar> = int m"
  by (simp add: signed_def)

lemma fp_val_int_imp:
  assumes "fp_val (FpFin s m e) = of_int z"
  shows "fp_to_int (FpFin s m e) = z"
proof (cases "0 \<le> e")
  case True
  then have "(of_int (signed s m * 2 ^ nat e) :: real) = of_int z"
    using assms by (simp add: power_int_def)
  then show ?thesis using True by (simp only: of_int_eq_iff fp_to_int.simps if_True)
next
  case False
  let ?d = "(2::int) ^ nat (- e)"
  have "(of_int (signed s m) :: real) = of_int (z * ?d)"
    using assms False by (simp add: power_int_def field_simps)
  then have sm: "signed s m = z * ?d" by (simp only: of_int_eq_iff)
  then have "int m = \<bar>z\<bar> * ?d"
    by (metis abs_mult abs_signed abs_numeral power_abs)
  then have q: "int (m div 2 ^ nat (- e)) = \<bar>z\<bar>"
    by (simp add: zdiv_int)
  have d: "0 < ?d" by simp
  show ?thesis
  proof (cases s)
    case True
    with sm have "z * ?d \<le> 0" by (metis signed_def neg_le_0_iff_le of_nat_0_le_iff)
    with d have "z \<le> 0" by (simp add: mult_le_0_iff)
    with q False True show ?thesis by (simp add: signed_def)
  next
    case s: False
    with sm have "0 \<le> z * ?d" by (metis signed_def of_nat_0_le_iff)
    with d have "0 \<le> z" by (simp add: zero_le_mult_iff)
    with q False s show ?thesis by (simp add: signed_def)
  qed
qed

section \<open>Rounding a positive rational to the nearest double\<close>

fun bit_length :: "nat \<Rightarrow> nat" where
  "bit_length n = (if n = 0 then 0 else Suc (bit_length (n div 2)))"

declare bit_length.simps [simp del]

text \<open>The exponent of the leading bit of \<open>num / den\<close>.\<close>

definition floor_log2 :: "nat \<Rightarrow> nat \<Rightarrow> int" where
  "floor_log2 num den =
     (let e = int (bit_length num) - int (bit_length den)
      in if num * 2 ^ nat (- e) \<ge> den * 2 ^ nat e then e else e - 1)"

text \<open>\<open>num / den / 2^e\<close> rounded to an integer, ties to even.\<close>

definition round_quotient :: "nat \<Rightarrow> nat \<Rightarrow> int \<Rightarrow> nat" where
  "round_quotient num den e =
     (let n = num * 2 ^ nat (- e); d = den * 2 ^ nat e; q = n div d; r = n mod d
      in if 2 * r > d \<or> (2 * r = d \<and> odd q) then Suc q else q)"

text \<open>
  The pattern (without sign) nearest to \<open>num / den\<close>, and \<open>None\<close> when that is infinity. With
  the unit exponent \<open>e\<close> of the significand, the biased exponent field is \<open>e + 1074\<close> plus the
  carry of the hidden bit, so the pattern is one sum, also for subnormal results and when
  rounding reaches the next power of two.
\<close>

definition round_f64 :: "nat \<Rightarrow> nat \<Rightarrow> nat option" where
  "round_f64 num den =
     (if num = 0 then Some 0
      else let e = max (-1074) (floor_log2 num den - 52);
               bits = nat (e + 1074) * 2 ^ 52 + round_quotient num den e
           in if bits < 2047 * 2 ^ 52 then Some bits else None)"

definition f64_of_bits :: "bool \<Rightarrow> nat \<Rightarrow> f64" where
  "f64_of_bits s n = word_of_nat ((if s then 2 ^ 63 else 0) + n)"

text \<open>
  \<open>static_cast<double>\<close> of a 64-bit integer: never infinite, so the last case does not arise
  (\<open>f64_of_int_val\<close>).
\<close>

definition f64_of_int :: "int \<Rightarrow> f64" where
  "f64_of_int z =
     (case round_f64 (nat \<bar>z\<bar>) 1 of Some n \<Rightarrow> f64_of_bits (z < 0) n | None \<Rightarrow> f64_of_bits (z < 0) (2047 * 2 ^ 52))"

lemma bit_length_bounds: "0 < n \<Longrightarrow> 2 ^ (bit_length n - 1) \<le> n \<and> n < 2 ^ bit_length n"
proof (induction n rule: bit_length.induct)
  case (1 n)
  show ?case
  proof (cases "n div 2 = 0")
    case True
    with "1.prems" have "n = 1" by simp
    then show ?thesis by (simp add: bit_length.simps)
  next
    case False
    with 1 have IH: "2 ^ (bit_length (n div 2) - 1) \<le> n div 2" "n div 2 < 2 ^ bit_length (n div 2)"
      by auto
    from False have "0 < bit_length (n div 2)" by (subst bit_length.simps) simp
    then obtain k where k: "bit_length (n div 2) = Suc k" by (cases "bit_length (n div 2)") auto
    with "1.prems" have "bit_length n = Suc (Suc k)" by (subst bit_length.simps) simp
    moreover from IH k have "2 ^ Suc k \<le> n" "n < 2 ^ Suc (Suc k)" by simp_all
    ultimately show ?thesis by simp
  qed
qed

lemma round_quotient_exact:
  "e \<le> 0 \<Longrightarrow> round_quotient num (Suc 0) e = num * 2 ^ nat (- e)"
  by (simp add: round_quotient_def Let_def)

lemma floor_log2_nat:
  assumes "0 < n"
  shows "floor_log2 n (Suc 0) = int (bit_length n) - 1"
proof -
  have l1: "bit_length (Suc 0) = 1" by (simp add: bit_length.simps)
  have pos: "0 < bit_length n" using assms by (subst bit_length.simps) simp
  define k where "k = bit_length n - 1"
  have k: "bit_length n = Suc k" using pos by (simp add: k_def)
  have "2 ^ k \<le> n" using bit_length_bounds [OF assms] k by simp
  then show ?thesis by (simp add: floor_log2_def l1 k)
qed

lemma unat_f64_of_bits: "n < 2 ^ 63 \<Longrightarrow> unat (f64_of_bits s n) = (if s then 2 ^ 63 else 0) + n"
  by (simp add: f64_of_bits_def unat_of_nat take_bit_nat_eq_self del: of_nat_add)

text \<open>Reading back a normal pattern.\<close>

lemma decode_normal:
  assumes "q < 2 ^ 52" "0 < ex" "ex < 2047"
  shows "decode_f64 (f64_of_bits s (ex * 2 ^ 52 + q)) = FpFin s (q + 2 ^ 52) (int ex - 1075)"
proof -
  let ?n = "ex * 2 ^ 52 + q"
  have "?n < 2 ^ 63" using assms by simp
  then have u: "unat (f64_of_bits s ?n) = (if s then 2 ^ 63 else 0) + ?n" by (rule unat_f64_of_bits)
  have d: "((if s then 2 ^ 63 else 0) + ?n) div 2 ^ 52 = (if s then 2 ^ 11 else 0) + ex"
    by (rule div_nat_eqI) (use assms(1) in \<open>cases s; simp\<close>)+
  have "((if s then 2 ^ 63 else 0) + ?n) mod 2 ^ 52 = q"
    unfolding mod_div_trivial minus_mult_div_eq_mod [symmetric] d using assms(1) by (cases s) simp_all
  moreover have "((if s then (2::nat) ^ 63 else 0) + ?n) div 2 ^ 63 = of_bool s"
    by (rule div_nat_eqI) (use \<open>?n < 2 ^ 63\<close> in \<open>cases s; simp\<close>)+
  moreover have "((if s then 2 ^ 11 else 0) + ex) mod 2 ^ 11 = ex" using assms(3) by simp
  ultimately show ?thesis
    using assms u d by (simp add: decode_f64_def Let_def)
qed

text \<open>Integers of at most 53 bits convert exactly.\<close>

lemma f64_of_int_val:
  assumes "\<bar>z\<bar> < 2 ^ 53"
  shows "is_finite_fp (decode_f64 (f64_of_int z)) \<and> fp_val (decode_f64 (f64_of_int z)) = of_int z"
proof (cases "z = 0")
  case True
  then show ?thesis
    by (simp add: f64_of_int_def round_f64_def f64_of_bits_def decode_f64_def is_finite_fp_def signed_def)
next
  case False
  define m where "m = nat \<bar>z\<bar>"
  have m: "0 < m" "m < 2 ^ 53" using assms False by (auto simp: m_def zless_nat_eq_int_zless nat_less_iff)
  define k where "k = bit_length m - 1"
  have "0 < bit_length m" using m(1) by (subst bit_length.simps) simp
  then have k: "bit_length m = Suc k" by (simp add: k_def)
  have b: "2 ^ k \<le> m" "m < 2 ^ Suc k" using bit_length_bounds [OF m(1)] k by simp_all
  have "(2::nat) ^ k < 2 ^ 53" using b(1) m(2) by linarith
  then have "k < 53" by (rule power_less_imp_less_exp [rotated]) simp
  then have k52: "k \<le> 52" by simp
  let ?e = "int k - 52"
  have e: "max (-1074) (floor_log2 m 1 - 52) = ?e" by (simp add: floor_log2_nat m k k52)
  let ?q = "m * 2 ^ (52 - k)"
  have q: "round_quotient m 1 ?e = ?q"
    using k52 by (simp add: round_quotient_exact nat_diff_distrib')
  have two: "(2::nat) ^ k * 2 ^ (52 - k) = 2 ^ 52" "(2::nat) ^ Suc k * 2 ^ (52 - k) = 2 ^ 53"
    using k52 by (simp_all flip: power_add)
  have "2 ^ k * 2 ^ (52 - k) \<le> ?q" "?q < 2 ^ Suc k * 2 ^ (52 - k)"
    using b by (intro mult_right_mono mult_strict_right_mono; simp)+
  then have qb: "2 ^ 52 \<le> ?q" "?q < 2 ^ 53" unfolding two by blast+
  let ?ex = "k + 1023"
  have bits: "nat (?e + 1074) * 2 ^ 52 + ?q = ?ex * 2 ^ 52 + (?q - 2 ^ 52)"
    using qb k52 by (simp add: nat_add_distrib nat_diff_distrib' algebra_simps)
  have "?ex * 2 ^ 52 + (?q - 2 ^ 52) < 2047 * 2 ^ 52" using qb k52 by simp
  then have "round_f64 m 1 = Some (?ex * 2 ^ 52 + (?q - 2 ^ 52))"
    using m(1) by (simp only: round_f64_def e q bits Let_def if_True) simp
  then have "f64_of_int z = f64_of_bits (z < 0) (?ex * 2 ^ 52 + (?q - 2 ^ 52))"
    by (simp add: f64_of_int_def m_def)
  then have dec: "decode_f64 (f64_of_int z) = FpFin (z < 0) ?q ?e"
    using decode_normal [of "?q - 2 ^ 52" ?ex "z < 0"] qb k52 by simp
  have "signed (z < 0) m = z" by (simp add: m_def signed_def)
  moreover have "(2::real) ^ (52 - k) * 2 powi ?e = 1"
    using k52 by (simp add: power_int_def nat_diff_distrib' flip: power_mult_distrib)
  moreover have "signed (z < 0) ?q = signed (z < 0) m * 2 ^ (52 - k)" by (simp add: signed_def)
  ultimately show ?thesis
    by (simp add: dec is_finite_fp_def)
qed

end
