(* ===== verification/Decimal.thy ===== *)
theory Decimal
  imports Prelude
begin

text \<open>
  Decimal text of integers as the C++ standard library reads and writes it:
  \<open>std::to_string\<close> and \<open>std::from_chars\<close> for the 32-bit integer types. A
  \<open>from_chars\<close> call returns its error code, the rest of the text behind \<open>ptr\<close> and the
  value, which keeps its old contents unless the code is success.
\<close>

section \<open>Digits\<close>

definition IsDigit :: "char \<Rightarrow> bool" where
  "IsDigit c \<longleftrightarrow> (48::nat) \<le> of_char c \<and> of_char c \<le> (57::nat)"

definition digit_value :: "char \<Rightarrow> nat" where
  "digit_value c = of_char c - 48"

definition digit_char :: "nat \<Rightarrow> char" where
  "digit_char d = char_of (48 + d)"

fun to_string :: "nat \<Rightarrow> string" where
  "to_string n = (if n < 10 then [digit_char n] else to_string (n div 10) @ [digit_char (n mod 10)])"

declare to_string.simps [simp del]

definition dec_value :: "string \<Rightarrow> nat" where
  "dec_value s = foldl (\<lambda>v c. 10 * v + digit_value c) 0 s"

lemma of_char_digit_char [simp]: "d < 10 \<Longrightarrow> of_char (digit_char d) = 48 + d"
  by (simp add: digit_char_def)

lemma digit_char_0 [simp]: "digit_char 0 = CHR ''0''"
  by code_simp

lemma IsDigit_digit_char [simp]: "d < 10 \<Longrightarrow> IsDigit (digit_char d)"
  by (simp add: IsDigit_def)

lemma digit_value_digit_char [simp]: "d < 10 \<Longrightarrow> digit_value (digit_char d) = d"
  by (simp add: digit_value_def)

lemma digit_char_value [simp]: "IsDigit c \<Longrightarrow> digit_char (digit_value c) = c"
  by (simp add: IsDigit_def digit_char_def digit_value_def)

lemma digit_value_less [simp]: "IsDigit c \<Longrightarrow> digit_value c < 10"
  unfolding IsDigit_def digit_value_def by linarith

lemma dec_value_snoc [simp]: "dec_value (s @ [c]) = 10 * dec_value s + digit_value c"
  by (simp add: dec_value_def)

lemma dec_value_single [simp]: "dec_value [c] = digit_value c"
  by (simp add: dec_value_def)

lemma to_string_nonempty [simp]: "to_string n \<noteq> []"
  by (subst to_string.simps) simp

lemma to_string_digits: "c \<in> set (to_string n) \<Longrightarrow> IsDigit c"
proof (induction n rule: to_string.induct)
  case (1 n)
  then show ?case
    by (cases "n < 10") (auto simp: to_string.simps [of n])
qed

lemma to_string_0 [simp]: "to_string 0 = ''0''"
  by (subst to_string.simps) simp

lemma dec_value_to_string [simp]: "dec_value (to_string n) = n"
proof (induction n rule: to_string.induct)
  case (1 n)
  then show ?case by (cases "n < 10") (simp_all add: to_string.simps [of n])
qed

text \<open>No leading zero: the text of a number other than \<open>0\<close> starts with another digit.\<close>

lemma hd_to_string: "0 < n \<Longrightarrow> hd (to_string n) \<noteq> CHR ''0''"
proof (induction n rule: to_string.induct)
  case (1 n)
  show ?case
  proof (cases "n < 10")
    case True
    with "1.prems" show ?thesis
      by (auto simp: to_string.simps [of n] dest: arg_cong [where f = "of_char :: char \<Rightarrow> nat"])
  next
    case False
    with 1 show ?thesis by (simp add: to_string.simps [of n])
  qed
qed

text \<open>A digit string without a leading zero is the text of its value.\<close>

lemma to_string_dec_value:
  "s \<noteq> [] \<Longrightarrow> list_all IsDigit s \<Longrightarrow> length s = 1 \<or> hd s \<noteq> CHR ''0'' \<Longrightarrow> to_string (dec_value s) = s"
proof (induction s rule: rev_induct)
  case (snoc c s)
  show ?case
  proof (cases "s = []")
    case True
    with snoc.prems show ?thesis by (subst to_string.simps) simp
  next
    case False
    with snoc have s: "to_string (dec_value s) = s" and c: "IsDigit c" by auto
    have "dec_value s \<noteq> 0"
    proof
      assume "dec_value s = 0"
      with s have "s = [digit_char 0]" by (simp add: to_string.simps)
      with snoc.prems(3) False show False by simp
    qed
    moreover have "(10 * dec_value s + digit_value c) div 10 = dec_value s"
      "(10 * dec_value s + digit_value c) mod 10 = digit_value c"
      using digit_value_less [OF c] by simp_all
    ultimately show ?thesis using c s
      by (subst to_string.simps) simp
  qed
qed simp

section \<open>from_chars\<close>

datatype errc = NoErrc | invalid_argument | result_out_of_range

text \<open>\<open>std::from_chars(first, last, std::uint32_t&)\<close>: no sign is recognized.\<close>

definition from_chars_u32 :: "string \<Rightarrow> u32 \<Rightarrow> errc \<times> string \<times> u32" where
  "from_chars_u32 s old =
     (let ds = takeWhile IsDigit s; rest = dropWhile IsDigit s
      in if ds = [] then (invalid_argument, s, old)
         else if dec_value ds < 2 ^ 32 then (NoErrc, rest, of_nat (dec_value ds))
         else (result_out_of_range, rest, old))"

text \<open>\<open>std::from_chars(first, last, std::int32_t&)\<close>: an optional minus sign.\<close>

definition from_chars_i32 :: "string \<Rightarrow> i32 \<Rightarrow> errc \<times> string \<times> i32" where
  "from_chars_i32 s old =
     (let neg = (s \<noteq> [] \<and> hd s = CHR ''-''); t = (if neg then tl s else s);
          ds = takeWhile IsDigit t; rest = dropWhile IsDigit t;
          v = (if neg then - int (dec_value ds) else int (dec_value ds))
      in if ds = [] then (invalid_argument, s, old)
         else if - (2 ^ 31) \<le> v \<and> v < 2 ^ 31 then (NoErrc, rest, of_int v)
         else (result_out_of_range, rest, old))"

text \<open>\<open>std::to_string\<close> of a signed number, also the serializer's integer text.\<close>

definition int_to_string :: "int \<Rightarrow> string" where
  "int_to_string z = (if z < 0 then CHR ''-'' # to_string (nat (- z)) else to_string (nat z))"

lemma from_chars_u32_digits:
  "list_all IsDigit s \<Longrightarrow> s \<noteq> [] \<Longrightarrow>
     from_chars_u32 s old =
       (if dec_value s < 2 ^ 32 then (NoErrc, [], of_nat (dec_value s)) else (result_out_of_range, [], old))"
  by (auto simp: from_chars_u32_def Let_def list_all_iff takeWhile_eq_all_conv [THEN iffD2]
      dropWhile_eq_Nil_conv [THEN iffD2])

end
