(* ===== verification/Json_Value.thy ===== *)
theory Json_Value
  imports Doubles Decimal Status
begin

text \<open>
  \<open>JsonValue\<close> (\<open>src/core/json-value.h\<close>): the values of \<open>nlohmann::ordered_json\<close> that JSON
  text can produce, with the insertion-ordered object map of the vendored \<open>json.hpp\<close>. Strings
  and keys are byte strings.
\<close>

section \<open>Values\<close>

datatype json =
    JNull
  | JBool bool
  | JInt i64
  | JUInt u64
  | JFloat f64
  | JString string
  | JArray "json list"
  | JObject "(string \<times> json) list"

definition is_null :: "json \<Rightarrow> bool" where
  "is_null v = (case v of JNull \<Rightarrow> True | _ \<Rightarrow> False)"

definition is_boolean :: "json \<Rightarrow> bool" where
  "is_boolean v = (case v of JBool _ \<Rightarrow> True | _ \<Rightarrow> False)"

definition is_number :: "json \<Rightarrow> bool" where
  "is_number v = (case v of JInt _ \<Rightarrow> True | JUInt _ \<Rightarrow> True | JFloat _ \<Rightarrow> True | _ \<Rightarrow> False)"

definition is_string :: "json \<Rightarrow> bool" where
  "is_string v = (case v of JString _ \<Rightarrow> True | _ \<Rightarrow> False)"

definition is_array :: "json \<Rightarrow> bool" where
  "is_array v = (case v of JArray _ \<Rightarrow> True | _ \<Rightarrow> False)"

definition is_object :: "json \<Rightarrow> bool" where
  "is_object v = (case v of JObject _ \<Rightarrow> True | _ \<Rightarrow> False)"

text \<open>\<open>empty()\<close> and \<open>size()\<close> of a container; a scalar has size 1 and null size 0.\<close>

definition json_size :: "json \<Rightarrow> nat" where
  "json_size v = (case v of JNull \<Rightarrow> 0 | JArray xs \<Rightarrow> length xs | JObject fs \<Rightarrow> length fs | _ \<Rightarrow> 1)"

lemmas json_kind_defs =
  is_null_def is_boolean_def is_number_def is_string_def is_array_def is_object_def json_size_def

section \<open>The ordered object map\<close>

text \<open>\<open>find\<close>: the first field with the key.\<close>

fun om_find :: "string \<Rightarrow> (string \<times> json) list \<Rightarrow> json option" where
  "om_find k [] = None"
| "om_find k ((k', v) # fs) = (if k' = k then Some v else om_find k fs)"

text \<open>
  \<open>map[key] = v\<close>: \<open>operator[]\<close> finds the first field with the key or appends one, and the
  assignment replaces its value. A repeated key keeps the position of its first occurrence.
\<close>

fun om_assign :: "string \<Rightarrow> json \<Rightarrow> (string \<times> json) list \<Rightarrow> (string \<times> json) list" where
  "om_assign k v [] = [(k, v)]"
| "om_assign k v ((k', v') # fs) = (if k' = k then (k', v) # fs else (k', v') # om_assign k v fs)"

lemma om_find_map_of: "om_find k fs = map_of fs k"
  by (induction k fs rule: om_find.induct) auto

lemma om_find_assign: "om_find k (om_assign k' v fs) = (if k = k' then Some v else om_find k fs)"
  by (induction k' v fs rule: om_assign.induct) auto

lemma keys_om_assign:
  "map fst (om_assign k v fs) = (if k \<in> fst ` set fs then map fst fs else map fst fs @ [k])"
  by (induction k v fs rule: om_assign.induct) auto

lemma distinct_om_assign: "distinct (map fst fs) \<Longrightarrow> distinct (map fst (om_assign k v fs))"
  by (auto simp: keys_om_assign)

lemma set_om_assign: "set (om_assign k v fs) \<subseteq> insert (k, v) (set fs)"
  by (induction k v fs rule: om_assign.induct) auto

text \<open>
  A document the parser built has distinct keys in every object. \<open>wf_json\<close> says so of a value
  and everything below it.
\<close>

fun wf_json :: "json \<Rightarrow> bool" where
  "wf_json (JArray xs) = (\<forall>x \<in> set xs. wf_json x)"
| "wf_json (JObject fs) = (distinct (map fst fs) \<and> (\<forall>f \<in> set fs. wf_json (snd f)))"
| "wf_json _ = True"

end
