(* ===== verification/Json_Path.thy ===== *)
theory Json_Path
  imports Json_Value
begin

text \<open>
  \<open>src/core/json-path.cpp\<close>: JSON Pointers (RFC 6901). \<open>ParsePath\<close> splits and decodes a
  pointer, \<open>ResolvePath\<close> walks a document. The specification side is \<open>render_path\<close>, the
  inverse of parsing, and the relation \<open>reaches\<close>, which says where a token list leads.
\<close>

section \<open>Parsing a pointer\<close>

type_synonym PathTokens = "string list"

text \<open>
  \<open>DecodeToken\<close>: each escape is decoded once, left to right. \<open>None\<close> is its \<open>false\<close>; the
  partial output is a local of the caller and dropped with it.
\<close>

fun DecodeToken :: "string \<Rightarrow> string option" where
  "DecodeToken [] = Some []"
| "DecodeToken (c # cs) =
     (if c \<noteq> CHR ''~'' then map_option (Cons c) (DecodeToken cs)
      else (case cs of
              [] \<Rightarrow> None
            | n # rest \<Rightarrow>
                if n = CHR ''1'' then map_option (Cons (CHR ''/'')) (DecodeToken rest)
                else if n = CHR ''0'' then map_option (Cons (CHR ''~'')) (DecodeToken rest)
                else None))"

text \<open>
  The loop of \<open>ParsePath\<close> from \<open>start\<close>: the text up to the next slash is one raw token, and
  without a further slash the loop ends. \<open>tokens\<close> holds what was decoded so far.
\<close>

function ParsePath_loop :: "string \<Rightarrow> PathTokens \<Rightarrow> PathTokens option" where
  "ParsePath_loop s tokens =
     (let raw = takeWhile (\<lambda>c. c \<noteq> CHR ''/'') s; rest = dropWhile (\<lambda>c. c \<noteq> CHR ''/'') s
      in case DecodeToken raw of
           None \<Rightarrow> None
         | Some token \<Rightarrow>
             (case rest of
                [] \<Rightarrow> Some (tokens @ [token])
              | _ # s' \<Rightarrow> ParsePath_loop s' (tokens @ [token])))"
  by pat_completeness auto
termination
  by (relation "measure (length \<circ> fst)") (auto dest: dropWhile_shorter [OF sym])

declare ParsePath_loop.simps [simp del]

definition ParsePath :: "string_view \<Rightarrow> PathTokens \<Rightarrow> status \<times> PathTokens" where
  "ParsePath path out =
     (case path of
        None \<Rightarrow> (InvalidArgument, out)
      | Some [] \<Rightarrow> (Ok, [])
      | Some (c # s) \<Rightarrow>
          if c \<noteq> CHR ''/'' then (PathSyntaxError, out)
          else (case ParsePath_loop s [] of
                  None \<Rightarrow> (PathSyntaxError, out)
                | Some tokens \<Rightarrow> (Ok, tokens)))"

section \<open>Resolving a pointer\<close>

definition ParseIndex :: "string \<Rightarrow> u32 \<Rightarrow> status \<times> u32" where
  "ParseIndex token index =
     (if token = ''-'' then (IndexOutOfRange, index)
      else if token = [] \<or> (length token > 1 \<and> hd token = CHR ''0'') then (TypeMismatch, index)
      else if \<not> list_all IsDigit token then (TypeMismatch, index)
      else (case from_chars_u32 token 0 of
              (ec, rest, val) \<Rightarrow>
                if ec = result_out_of_range then (IndexOutOfRange, index)
                else if ec \<noteq> NoErrc \<or> rest \<noteq> [] then (TypeMismatch, index)
                else (Ok, val)))"

text \<open>The token walk; \<open>out\<close> is \<open>None\<close> for the null pointer a caller starts with.\<close>

fun ResolveTokens :: "json \<Rightarrow> PathTokens \<Rightarrow> json option \<Rightarrow> status \<times> json option" where
  "ResolveTokens current [] out = (Ok, Some current)"
| "ResolveTokens current (token # tokens) out =
     (case current of
        JObject fields \<Rightarrow>
          (case om_find token fields of
             None \<Rightarrow> (PathNotFound, out)
           | Some v \<Rightarrow> ResolveTokens v tokens out)
      | JArray xs \<Rightarrow>
          (case ParseIndex token 0 of
             (st, index) \<Rightarrow>
               if st \<noteq> Ok then (st, out)
               else if unat index \<ge> length xs then (IndexOutOfRange, out)
               else ResolveTokens (xs ! unat index) tokens out)
      | _ \<Rightarrow> (TypeMismatch, out))"

definition ResolvePath :: "json \<Rightarrow> string_view \<Rightarrow> json option \<Rightarrow> status \<times> json option" where
  "ResolvePath document path out =
     (case ParsePath path [] of
        (st, tokens) \<Rightarrow> if st \<noteq> Ok then (st, out) else ResolveTokens document tokens out)"

section \<open>Parsing inverts rendering\<close>

definition render_path :: "(string \<Rightarrow> string) \<Rightarrow> PathTokens \<Rightarrow> string" where
  "render_path enc ts = concat (map (\<lambda>t. CHR ''/'' # enc t) ts)"

lemma render_path_simps [simp]:
  "render_path enc [] = []"
  "render_path enc (t # ts) = CHR ''/'' # enc t @ render_path enc ts"
  "render_path enc (ts @ us) = render_path enc ts @ render_path enc us"
  by (simp_all add: render_path_def)

text \<open>The contract of a token escaping that \<open>DecodeToken\<close> undoes.\<close>

locale pointer_escaping =
  fixes enc :: "string \<Rightarrow> string"
  assumes dec_enc: "DecodeToken (enc t) = Some t"
    and enc_no_sep: "CHR ''/'' \<notin> set (enc t)"
begin

lemma split_render:
  "takeWhile (\<lambda>c. c \<noteq> CHR ''/'') (enc t @ render_path enc ts) = enc t"
  "dropWhile (\<lambda>c. c \<noteq> CHR ''/'') (enc t @ render_path enc ts) = render_path enc ts"
  using enc_no_sep [of t] by (cases ts; auto simp: takeWhile_append dropWhile_append)+

lemma ParsePath_loop_render:
  "ParsePath_loop (enc t @ render_path enc ts) acc = Some (acc @ t # ts)"
proof (induction ts arbitrary: t acc)
  case Nil
  show ?case
    unfolding ParsePath_loop.simps [of "enc t @ render_path enc []"] split_render Let_def dec_enc by simp
next
  case (Cons u us)
  show ?case
    unfolding ParsePath_loop.simps [of "enc t @ render_path enc (u # us)"] split_render Let_def dec_enc
    using Cons.IH [of u "acc @ [t]"] by simp
qed

lemma ParsePath_render: "ParsePath (Some (render_path enc ts)) out = (Ok, ts)"
  by (cases ts) (simp_all add: ParsePath_def ParsePath_loop_render)

lemma render_inject: "render_path enc ts = render_path enc us \<longleftrightarrow> ts = us"
  using ParsePath_render by (metis prod.inject)

end

text \<open>A canonical escaping is the only text that decodes to a token.\<close>

locale canonical_escaping = pointer_escaping +
  assumes enc_dec: "CHR ''/'' \<notin> set raw \<Longrightarrow> DecodeToken raw = Some t \<Longrightarrow> enc t = raw"
begin

lemma ParsePath_loop_inv:
  "ParsePath_loop s acc = Some ts \<Longrightarrow> \<exists>us. ts = acc @ us \<and> render_path enc us = CHR ''/'' # s"
proof (induction s acc arbitrary: ts rule: ParsePath_loop.induct)
  case (1 s acc)
  let ?raw = "takeWhile (\<lambda>c. c \<noteq> CHR ''/'') s" and ?rest = "dropWhile (\<lambda>c. c \<noteq> CHR ''/'') s"
  from "1.prems" obtain t where t: "DecodeToken ?raw = Some t"
    by (subst (asm) ParsePath_loop.simps) (auto split: option.splits)
  have "CHR ''/'' \<notin> set ?raw" by (auto dest: set_takeWhileD)
  with t have enc: "enc t = ?raw" by (simp add: enc_dec)
  show ?case
  proof (cases ?rest)
    case Nil
    with "1.prems" t have "ts = acc @ [t]" by (subst (asm) ParsePath_loop.simps) simp
    moreover have "?raw = s" using Nil by (metis append_Nil2 takeWhile_dropWhile_id)
    ultimately show ?thesis using enc by (intro exI [of _ "[t]"]) simp
  next
    case (Cons c s')
    then have c: "c = CHR ''/''" by (metis (mono_tags) hd_dropWhile list.distinct(1) list.sel(1))
    from "1.prems" t Cons have "ParsePath_loop s' (acc @ [t]) = Some ts"
      by (subst (asm) ParsePath_loop.simps) simp
    from "1.IH" [OF refl refl t Cons this]
    obtain us where "ts = acc @ t # us" "render_path enc us = CHR ''/'' # s'" by auto
    moreover have "s = ?raw @ CHR ''/'' # s'" using Cons c by (metis takeWhile_dropWhile_id)
    ultimately show ?thesis using enc by (intro exI [of _ "t # us"]) simp
  qed
qed

lemma ParsePath_Ok_iff: "ParsePath (Some p) out = (Ok, ts) \<longleftrightarrow> render_path enc ts = p"
proof
  assume "ParsePath (Some p) out = (Ok, ts)"
  then show "render_path enc ts = p"
    by (auto simp: ParsePath_def split: list.splits if_splits option.splits dest: ParsePath_loop_inv)
next
  assume "render_path enc ts = p"
  then show "ParsePath (Some p) out = (Ok, ts)" using ParsePath_render by auto
qed

end

lemma ParsePath_failure:
  "ParsePath path out = (st, ts) \<Longrightarrow> st \<noteq> Ok \<Longrightarrow>
     ts = out \<and> st = (if path = None then InvalidArgument else PathSyntaxError)"
  by (auto simp: ParsePath_def split: option.splits list.splits if_splits)

section \<open>Where a token list leads\<close>

lemma ParseIndex_digits:
  assumes "token = to_string n"
  shows "ParseIndex token i = (if n < 2 ^ 32 then (Ok, of_nat n) else (IndexOutOfRange, i))"
proof -
  have dig: "list_all IsDigit token" using assms by (auto simp: list_all_iff dest: to_string_digits)
  have "token \<noteq> ''-''" using dig by (auto simp: IsDigit_def)
  moreover have "\<not> (length token > 1 \<and> hd token = CHR ''0'')"
  proof (cases "n = 0")
    case True
    then show ?thesis using assms by (simp add: to_string.simps)
  next
    case False
    then show ?thesis using assms hd_to_string by auto
  qed
  moreover have "token \<noteq> []" using assms by simp
  ultimately show ?thesis using dig assms
    by (simp add: ParseIndex_def from_chars_u32_digits)
qed

lemma ParseIndex_cases:
  "(\<exists>n. token = to_string n) \<or> ParseIndex token i = (IndexOutOfRange, i) \<and> token = ''-''
     \<or> ParseIndex token i = (TypeMismatch, i)"
proof (cases "token = [] \<or> \<not> list_all IsDigit token \<or> length token > 1 \<and> hd token = CHR ''0''")
  case True
  then show ?thesis by (auto simp: ParseIndex_def)
next
  case False
  then have "length token = 1 \<or> hd token \<noteq> CHR ''0''" by (cases token) auto
  with False have "token = to_string (dec_value token)" by (simp add: to_string_dec_value)
  then show ?thesis by blast
qed

lemma ParseIndex_Ok_iff:
  "ParseIndex token i = (Ok, idx) \<longleftrightarrow> (\<exists>n < 2 ^ 32. token = to_string n \<and> idx = of_nat n)"
  using ParseIndex_cases [of token i] by (auto simp: ParseIndex_digits split: if_splits)

text \<open>
  The specification of a walk: object keys are taken as they are, array indices only in their
  canonical decimal form and below \<open>2^32\<close>.
\<close>

inductive reaches :: "json \<Rightarrow> PathTokens \<Rightarrow> json \<Rightarrow> bool" where
  here: "reaches v [] v"
| field: "om_find k fields = Some v \<Longrightarrow> reaches v ts w \<Longrightarrow> reaches (JObject fields) (k # ts) w"
| element: "n < length xs \<Longrightarrow> n < 2 ^ 32 \<Longrightarrow> reaches (xs ! n) ts w \<Longrightarrow>
     reaches (JArray xs) (to_string n # ts) w"

inductive_simps reaches_Nil [simp]: "reaches v [] w"
inductive_simps reaches_object [simp]: "reaches (JObject fields) (k # ts) w"
inductive_simps reaches_array: "reaches (JArray xs) (k # ts) w"
inductive_cases reaches_ConsE: "reaches v (k # ts) w"

lemma ResolveTokens_iff: "ResolveTokens v ts out = (Ok, Some w) \<longleftrightarrow> reaches v ts w"
proof (induction v ts out rule: ResolveTokens.induct)
  case (2 current token tokens out)
  show ?case
  proof (cases current)
    case (JObject fields)
    with 2 show ?thesis by (auto split: option.splits)
  next
    case (JArray xs)
    show ?thesis
    proof (cases "ParseIndex token 0")
      case (Pair st idx)
      show ?thesis
      proof (cases "st = Ok")
        case True
        with Pair obtain n where n: "n < 2 ^ 32" "token = to_string n" "idx = of_nat n"
          by (auto simp: ParseIndex_Ok_iff)
        then have idx: "unat idx = n" by (simp add: unat_of_nat take_bit_nat_eq_self)
        have inj: "to_string n = to_string m \<longleftrightarrow> n = m" for m by (metis dec_value_to_string)
        show ?thesis
        proof (cases "n < length xs")
          case True
          with 2(1) [OF JArray Pair [symmetric]] \<open>st = Ok\<close> idx JArray Pair n show ?thesis
            by (auto simp: reaches_array inj)
        next
          case False
          with JArray Pair \<open>st = Ok\<close> idx n show ?thesis by (auto simp: reaches_array inj)
        qed
      next
        case False
        with Pair have "\<not> (\<exists>n < 2 ^ 32. token = to_string n)"
          using ParseIndex_Ok_iff [of token 0] by auto
        with JArray Pair False show ?thesis by (auto simp: reaches_array)
      qed
    qed
  qed (auto elim: reaches.cases)
qed (auto simp: eq_commute)

lemma ResolveTokens_failure:
  "ResolveTokens v ts out = (st, r) \<Longrightarrow> st \<noteq> Ok \<Longrightarrow> r = out \<and> st \<in> {PathNotFound, IndexOutOfRange, TypeMismatch}"
proof (induction v ts out rule: ResolveTokens.induct)
  case (2 current token tokens out)
  then show ?case
    using ParseIndex_cases [of token 0]
    by (auto simp: ParseIndex_digits split: json.splits option.splits prod.splits if_splits)
qed simp

lemma ResolveTokens_Ok_Some: "ResolveTokens v ts out = (Ok, r) \<Longrightarrow> \<exists>w. r = Some w"
  by (induction v ts out rule: ResolveTokens.induct)
    (auto split: json.splits option.splits prod.splits if_splits)

lemma ResolveTokens_append:
  "ResolveTokens v (ts @ us) out =
     (case ResolveTokens v ts out of (st, r) \<Rightarrow> if st \<noteq> Ok then (st, r) else
        ResolveTokens (the r) us out)"
  by (induction v ts out rule: ResolveTokens.induct)
    (auto split: json.splits option.splits prod.splits)

lemma reaches_append: "reaches v (ts @ us) w \<longleftrightarrow> (\<exists>x. reaches v ts x \<and> reaches x us w)"
proof (induction ts arbitrary: v)
  case (Cons t ts)
  then show ?case by (cases v) (auto simp: reaches_array elim: reaches_ConsE)
qed simp

end
