(* ===== verification/Json_Leaves.thy ===== *)
theory Json_Leaves
  imports Json_Path
begin

text \<open>
  The escaping of an object key in an entry key (\<open>AppendEscapedToken\<close> of
  \<open>src/mapping/json-flatten.cpp\<close>) and the abstract specification of flattening: the leaves of a
  tree in document order, each with its path tokens. The escaping provides the interface
  \<open>canonical_escaping\<close> of the path parser, so entry keys and paths are each other's inverses.
\<close>

section \<open>Escaping\<close>

fun AppendEscapedToken :: "string \<Rightarrow> string \<Rightarrow> string" where
  "AppendEscapedToken out [] = out"
| "AppendEscapedToken out (c # token) =
     (if c = CHR ''~'' then AppendEscapedToken (out @ ''~0'') token
      else if c = CHR ''/'' then AppendEscapedToken (out @ ''~1'') token
      else AppendEscapedToken (out @ [c]) token)"

definition escape_token :: "string \<Rightarrow> string" where
  "escape_token token = AppendEscapedToken [] token"

lemma AppendEscapedToken_escape: "AppendEscapedToken out token = out @ escape_token token"
proof -
  have "AppendEscapedToken (a @ b) token = a @ AppendEscapedToken b token" for a b
    by (induction token arbitrary: b) simp_all
  from this [of out "[]"] show ?thesis by (simp add: escape_token_def)
qed

lemma escape_token_simps [simp]:
  "escape_token [] = []"
  "escape_token (c # token) =
     (if c = CHR ''~'' then ''~0'' else if c = CHR ''/'' then ''~1'' else [c]) @ escape_token token"
  using AppendEscapedToken_escape [of "''~0''" token] AppendEscapedToken_escape [of "''~1''" token]
    AppendEscapedToken_escape [of "[c]" token]
  by (simp_all add: escape_token_def [of "[]"] escape_token_def [of "c # token"])

interpretation ptr: canonical_escaping escape_token
proof
  show "DecodeToken (escape_token t) = Some t" for t
    by (induction t) simp_all
  show "CHR ''/'' \<notin> set (escape_token t)" for t
    by (induction t) simp_all
  show "CHR ''/'' \<notin> set raw \<Longrightarrow> DecodeToken raw = Some t \<Longrightarrow> escape_token t = raw" for raw t
  proof (induction raw arbitrary: t rule: DecodeToken.induct)
    case (2 c cs)
    show ?case
    proof (cases "c = CHR ''~''")
      case True
      with "2.prems" obtain n rest where cs: "cs = n # rest" by (cases cs) auto
      have sep: "CHR ''/'' \<notin> set rest" using "2.prems" cs by simp
      have "(n = CHR ''1'' \<or> n = CHR ''0'') \<and>
          (\<exists>t'. DecodeToken rest = Some t' \<and> t = (if n = CHR ''1'' then CHR ''/'' else CHR ''~'') # t')"
        using "2.prems" True cs
        by (auto simp: DecodeToken.simps(2) [of "CHR ''~''" "n # rest"] split: if_splits simp del: DecodeToken.simps)
      then obtain t' where t': "n = CHR ''1'' \<or> n = CHR ''0''" "DecodeToken rest = Some t'"
        "t = (if n = CHR ''1'' then CHR ''/'' else CHR ''~'') # t'" by blast
      have "escape_token t' = rest"
        using "2.IH"(2) [of n rest t'] "2.IH"(3) [of n rest t'] True cs sep t' by auto
      then show ?thesis using t' True cs by auto
    next
      case False
      then obtain t' where t': "DecodeToken cs = Some t'" "t = c # t'"
        using "2.prems" by (auto simp: DecodeToken.simps(2) [of c cs] simp del: DecodeToken.simps)
      have "CHR ''/'' \<notin> set cs" using "2.prems" by simp
      with "2.IH"(1) [OF False _ t'(1)] have "escape_token t' = cs" by simp
      moreover have "c \<noteq> CHR ''/''" using "2.prems"(1) by auto
      ultimately show ?thesis using t' False by simp
    qed
  qed simp
qed

lemma escape_digits [simp]: "escape_token (to_string n) = to_string n"
proof -
  have digit: "IsDigit c \<Longrightarrow> c \<noteq> CHR ''~'' \<and> c \<noteq> CHR ''/''" for c
    by (auto simp: IsDigit_def)
  have "\<forall>c \<in> set s. IsDigit c \<Longrightarrow> escape_token s = s" for s
    by (induction s) (simp_all add: digit)
  then show ?thesis using to_string_digits by blast
qed

abbreviation pointer_of :: "PathTokens \<Rightarrow> string" where
  "pointer_of \<equiv> render_path escape_token"

section \<open>Leaves\<close>

definition IsNonEmptyContainer :: "json \<Rightarrow> bool" where
  "IsNonEmptyContainer node \<longleftrightarrow> (is_object node \<or> is_array node) \<and> json_size node \<noteq> 0"

definition below :: "string \<Rightarrow> (PathTokens \<times> json) list \<Rightarrow> (PathTokens \<times> json) list" where
  "below token ls = map (\<lambda>(path, leaf). (token # path, leaf)) ls"

fun below_indices :: "nat \<Rightarrow> (PathTokens \<times> json) list list \<Rightarrow> (PathTokens \<times> json) list" where
  "below_indices i [] = []"
| "below_indices i (ls # lss) = below (to_string i) ls @ below_indices (Suc i) lss"

fun leaves :: "json \<Rightarrow> (PathTokens \<times> json) list" where
  "leaves (JArray xs) = (if xs = [] then [([], JArray [])] else below_indices 0 (map leaves xs))"
| "leaves (JObject fs) =
     (if fs = [] then [([], JObject [])] else concat (map (\<lambda>f. below (fst f) (leaves (snd f))) fs))"
| "leaves v = [([], v)]"

lemma below_simps [simp]:
  "below t [] = []" "below t ((p, l) # ls) = (t # p, l) # below t ls"
  "below t (ls @ ms) = below t ls @ below t ms" "length (below t ls) = length ls"
  by (simp_all add: below_def)

lemma mem_below: "x \<in> set (below t ls) \<longleftrightarrow> (\<exists>p. fst x = t # p \<and> (p, snd x) \<in> set ls)"
  by (cases x) (auto simp: below_def)

lemma mem_below_indices:
  "x \<in> set (below_indices i lss) \<longleftrightarrow>
     (\<exists>j < length lss. x \<in> set (below (to_string (i + j)) (lss ! j)))"
proof (induction i lss rule: below_indices.induct)
  case (2 i ls lss)
  then show ?case by (auto simp: less_Suc_eq_0_disj)
qed simp

lemma length_below_indices [simp]:
  "length (below_indices i lss) = sum_list (map length lss)"
  by (induction i lss rule: below_indices.induct) simp_all

lemma leaves_not_container: "(p, l) \<in> set (leaves v) \<Longrightarrow> \<not> IsNonEmptyContainer l"
proof (induction v arbitrary: p)
  case (JArray xs)
  then show ?case
    by (fastforce simp: mem_below_indices mem_below IsNonEmptyContainer_def json_kind_defs split: if_splits)
next
  case (JObject fs)
  then show ?case
    by (fastforce simp: mem_below IsNonEmptyContainer_def json_kind_defs snds.simps split: if_splits)
qed (simp_all add: IsNonEmptyContainer_def json_kind_defs)

lemma leaves_nonempty [simp]: "leaves v \<noteq> []"
proof (induction v)
  case (JArray xs)
  then show ?case by (cases xs) (auto simp: below_def)
next
  case (JObject fs)
  then show ?case by (cases fs) (auto simp: below_def snds.simps)
qed simp_all

lemma length_le_sum: "(\<And>x. x \<in> set xs \<Longrightarrow> 1 \<le> f x) \<Longrightarrow> length xs \<le> sum_list (map f xs)" for f :: "'a \<Rightarrow> nat"
proof (induction xs)
  case (Cons x xs)
  then have "1 \<le> f x" "length xs \<le> sum_list (map f xs)" by simp_all
  then show ?case by simp
qed simp

text \<open>An array has at most as many elements as leaves, so small documents have small indices.\<close>

lemma length_array_leaves: "length xs \<le> length (leaves (JArray xs))"
  using length_le_sum [of xs "length \<circ> leaves"] by (auto simp: Suc_le_eq comp_def)

lemma member_le_sum: "x \<in> set xs \<Longrightarrow> f x \<le> sum_list (map f xs)" for f :: "'a \<Rightarrow> nat"
  by (induction xs) auto

text \<open>Every leaf is where its path says, and every place that is a leaf is listed.\<close>

theorem leaves_reach:
  assumes "wf_json v" "length (leaves v) < 2 ^ 32" "(p, l) \<in> set (leaves v)"
  shows "reaches v p l"
  using assms
proof (induction v arbitrary: p)
  case (JArray xs)
  show ?case
  proof (cases "xs = []")
    case False
    then obtain j q where j: "j < length xs" "p = to_string j # q" "(q, l) \<in> set (leaves (xs ! j))"
      using JArray.prems(3) by (auto simp: mem_below_indices mem_below)
    have "j < 2 ^ 32" using j(1) length_array_leaves [of xs] JArray.prems(2) by linarith
    moreover have "length (leaves (xs ! j)) < 2 ^ 32"
      using member_le_sum [of "xs ! j" xs "length \<circ> leaves"] j(1) JArray.prems(2) False
      by (auto simp: comp_def intro: le_less_trans)
    ultimately show ?thesis using JArray.IH [of "xs ! j" q] JArray.prems(1) j by (auto intro: reaches.element)
  qed (use JArray.prems in \<open>auto intro: reaches.here\<close>)
next
  case (JObject fs)
  show ?case
  proof (cases "fs = []")
    case False
    then obtain f q where f: "f \<in> set fs" "p = fst f # q" "(q, l) \<in> set (leaves (snd f))"
      using JObject.prems(3) by (auto simp: mem_below)
    have "length (leaves (snd f)) < 2 ^ 32"
      using member_le_sum [of f fs "\<lambda>f. length (leaves (snd f))"] f(1) JObject.prems(2) False
      by (simp add: length_concat comp_def)
    moreover have "om_find (fst f) fs = Some (snd f)"
      using f(1) JObject.prems(1) by (simp add: om_find_map_of)
    ultimately show ?thesis using JObject.IH [of f "snd f" q] JObject.prems(1) f by (auto simp: snds.simps)
  qed (use JObject.prems in \<open>auto intro: reaches.here\<close>)
qed (auto intro: reaches.here)

theorem reach_leaves:
  "reaches v p l \<Longrightarrow> \<not> IsNonEmptyContainer l \<Longrightarrow> (p, l) \<in> set (leaves v)"
proof (induction rule: reaches.induct)
  case (here v)
  then show ?case by (cases v) (auto simp: IsNonEmptyContainer_def json_kind_defs)
next
  case (field k fields v ts w)
  then have "(k, v) \<in> set fields" by (simp add: om_find_map_of map_of_SomeD)
  with field show ?case by (force simp: mem_below)
next
  case (element n xs ts w)
  then show ?case by (auto simp: mem_below_indices mem_below intro!: exI [of _ n])
qed

lemma to_string_inject [simp]: "to_string m = to_string n \<longleftrightarrow> m = n"
  by (metis dec_value_to_string)

lemma hd_below: "p \<in> set (map fst (below t ls)) \<Longrightarrow> hd p = t"
  by (auto simp: below_def)

lemma hd_below_indices:
  "p \<in> set (map fst (below_indices i lss)) \<Longrightarrow> \<exists>j \<ge> i. hd p = to_string j"
proof (induction i lss rule: below_indices.induct)
  case (2 i ls lss)
  then consider "p \<in> set (map fst (below (to_string i) ls))" | "p \<in> set (map fst (below_indices (Suc i) lss))"
    by auto
  then show ?case using 2 hd_below [of p "to_string i" ls] by cases (blast intro: Suc_leD)+
qed simp

lemma distinct_below: "distinct (map fst (below t ls)) \<longleftrightarrow> distinct (map fst ls)"
  by (simp add: below_def distinct_map comp_def inj_on_def split_beta)

lemma distinct_append_map:
  "distinct (map f xs) \<Longrightarrow> distinct (map f ys) \<Longrightarrow>
   (\<And>p. p \<in> set (map f xs) \<Longrightarrow> p \<notin> set (map f ys)) \<Longrightarrow> distinct (map f (xs @ ys))"
  unfolding map_append distinct_append by blast

lemma distinct_below_indices:
  "\<forall>ls \<in> set lss. distinct (map fst ls) \<Longrightarrow> distinct (map fst (below_indices i lss))"
proof (induction i lss rule: below_indices.induct)
  case (2 i ls lss)
  have "p \<notin> set (map fst (below_indices (Suc i) lss))" if "p \<in> set (map fst (below (to_string i) ls))" for p
    using hd_below [OF that] hd_below_indices [of p "Suc i" lss] by fastforce
  with 2 show ?case by (simp only: below_indices.simps) (rule distinct_append_map; simp add: distinct_below)
qed simp

lemma distinct_below_fields:
  "\<forall>f \<in> set fs. distinct (map fst (g f)) \<Longrightarrow> distinct (map fst fs) \<Longrightarrow>
   distinct (map fst (concat (map (\<lambda>f. below (fst f) (g f)) fs)))"
proof (induction fs)
  case (Cons f fs)
  let ?rest = "concat (map (\<lambda>f. below (fst f) (g f)) fs)"
  have "hd p \<in> fst ` set fs" if "p \<in> set (map fst ?rest)" for p
    using that by (force simp: below_def)
  moreover have "hd p = fst f" if "p \<in> set (map fst (below (fst f) (g f)))" for p
    using that by (rule hd_below)
  moreover have "fst f \<notin> fst ` set fs" using Cons.prems(2) by simp
  ultimately have disjoint: "p \<notin> set (map fst ?rest)" if "p \<in> set (map fst (below (fst f) (g f)))" for p
    using that by metis
  have "distinct (map fst (below (fst f) (g f)))" using Cons.prems(1) by (simp add: distinct_below)
  moreover have "distinct (map fst ?rest)" using Cons by simp
  ultimately have "distinct (map fst (below (fst f) (g f) @ ?rest))"
    using disjoint by (rule distinct_append_map)
  then show ?case by simp
qed simp

theorem distinct_leaf_paths: "wf_json v \<Longrightarrow> distinct (map fst (leaves v))"
proof (induction v)
  case (JArray xs)
  then show ?case by (simp add: distinct_below_indices)
next
  case (JObject fs)
  then have "\<forall>f \<in> set fs. distinct (map fst (leaves (snd f)))" by (auto simp: snds.simps)
  with JObject.prems show ?case by (simp add: distinct_below_fields)
qed simp_all

section \<open>Properties\<close>

text \<open>C23: A path is accepted exactly when it is the pointer written for its tokens: parsing and
  escaping are inverse to each other.\<close>
theorem path_syntax: "ParsePath (Some p) out = (Ok, ts) \<longleftrightarrow> pointer_of ts = p"
  by (rule ptr.ParsePath_Ok_iff)

text \<open>Resolving a path finds a value exactly when the path's tokens lead to it through object keys
  and canonical array indices below \<open>2 ^ 32\<close>.\<close>
theorem resolve_path_iff:
  "ResolvePath d (Some p) out = (Ok, Some w) \<longleftrightarrow> (\<exists>ts. pointer_of ts = p \<and> reaches d ts w)"
proof (cases "ParsePath (Some p) []")
  case (Pair st ts)
  show ?thesis
  proof (cases "st = Ok")
    case True
    with Pair have "pointer_of us = p \<longleftrightarrow> us = ts" for us by (auto simp flip: ptr.ParsePath_Ok_iff [of _ "[]"])
    with Pair True show ?thesis by (simp add: ResolvePath_def ResolveTokens_iff)
  next
    case False
    with Pair have "pointer_of us \<noteq> p" for us by (auto simp flip: ptr.ParsePath_Ok_iff [of _ "[]"])
    with Pair False show ?thesis by (simp add: ResolvePath_def)
  qed
qed

end
