(* ===== verification/Json_Parser.thy ===== *)
theory Json_Parser
  imports Json_Value
begin

text \<open>
  The part of the vendored JSON library the mapping layer drives: the SAX parser loop
  (\<open>parser::sax_parse_internal\<close> and \<open>sax_parse\<close> of \<open>include/vendor/json.hpp\<close>) over the token
  sequence of a lexer, and the document builder \<open>json_sax_dom_parser\<close>. The lexer itself (bytes
  to tokens) is a parameter of the components above. The loop is generic in the event handler,
  as the template is, so the limit checker, the acceptor and the builder all see the same
  events.
\<close>

section \<open>Tokens and events\<close>

text \<open>
  A token with the value the parser fetches for it. The lexer yields \<open>EndOfInput\<close> for ever
  once the input is exhausted, so a token list stands for an infinite stream.
\<close>

datatype token =
    LiteralTrue | LiteralFalse | LiteralNull
  | ValueString string | ValueUnsigned u64 | ValueInteger i64 | ValueFloat f64
  | BeginArray | BeginObject | EndArray | EndObject
  | NameSeparator | ValueSeparator
  | LexError | EndOfInput

definition get_token :: "token list \<Rightarrow> token \<times> token list" where
  "get_token rest = (case rest of [] \<Rightarrow> (EndOfInput, []) | t # ts \<Rightarrow> (t, ts))"

datatype sax_event =
    EvNull | EvBoolean bool | EvInteger i64 | EvUnsigned u64 | EvFloat f64 | EvString string
  | EvStartObject | EvKey string | EvEndObject | EvStartArray | EvEndArray

text \<open>
  A handler: its callback for an event (\<open>false\<close> stops the parse) and for \<open>parse_error\<close>, whose
  result every handler of the program returns as \<open>false\<close>.
\<close>

record 's sax =
  on_event :: "'s \<Rightarrow> sax_event \<Rightarrow> bool \<times> 's"
  on_error :: "'s \<Rightarrow> bool \<times> 's"

section \<open>The parser loop\<close>

text \<open>
  How one part of the loop body ends: \<open>return b\<close>, \<open>continue\<close> with a fresh token, or reaching
  the state evaluation after a complete value. The token state is \<open>last_token\<close> and the tokens
  not yet read.
\<close>

datatype 's flow =
    Return bool "token list" 's
  | Continue token "token list" "bool list" 's
  | Evaluate "token list" "bool list" 's

definition parse_error :: "'s sax \<Rightarrow> token list \<Rightarrow> 's \<Rightarrow> 's flow" where
  "parse_error sax rest s = (case on_error sax s of (b, s') \<Rightarrow> Return b rest s')"

text \<open>Report an event; a rejected event ends the parse with \<open>false\<close>.\<close>

definition emit :: "'s sax \<Rightarrow> sax_event \<Rightarrow> token list \<Rightarrow> 's \<Rightarrow> ('s \<Rightarrow> 's flow) \<Rightarrow> 's flow" where
  "emit sax ev rest s k =
     (case on_event sax s ev of (b, s') \<Rightarrow> if b then k s' else Return False rest s')"

text \<open>An object key, its separator and the first token of its value, from the token behind it.\<close>

definition parse_key ::
  "'s sax \<Rightarrow> token \<Rightarrow> token list \<Rightarrow> bool list \<Rightarrow> 's \<Rightarrow> 's flow" where
  "parse_key sax tok rest states s =
     (case tok of
        ValueString name \<Rightarrow>
          emit sax (EvKey name) rest s (\<lambda>s.
            (case get_token rest of (tok, rest) \<Rightarrow>
               if tok \<noteq> NameSeparator then parse_error sax rest s
               else (case get_token rest of (tok, rest) \<Rightarrow> Continue tok rest states s)))
      | _ \<Rightarrow> parse_error sax rest s)"

text \<open>The \<open>switch (last_token)\<close>; \<open>states\<close> has its top first, \<open>True\<close> for an array.\<close>

definition parse_value ::
  "'s sax \<Rightarrow> token \<Rightarrow> token list \<Rightarrow> bool list \<Rightarrow> 's \<Rightarrow> 's flow" where
  "parse_value sax tok rest states s =
     (case tok of
        BeginObject \<Rightarrow>
          emit sax EvStartObject rest s (\<lambda>s.
            (case get_token rest of (tok, rest) \<Rightarrow>
               if tok = EndObject
               then emit sax EvEndObject rest s (\<lambda>s. Evaluate rest states s)
               else parse_key sax tok rest (False # states) s))
      | BeginArray \<Rightarrow>
          emit sax EvStartArray rest s (\<lambda>s.
            (case get_token rest of (tok, rest) \<Rightarrow>
               if tok = EndArray
               then emit sax EvEndArray rest s (\<lambda>s. Evaluate rest states s)
               else Continue tok rest (True # states) s))
      | ValueFloat d \<Rightarrow>
          if \<not> is_finite_fp (decode_f64 d) then parse_error sax rest s
          else emit sax (EvFloat d) rest s (\<lambda>s. Evaluate rest states s)
      | LiteralFalse \<Rightarrow> emit sax (EvBoolean False) rest s (\<lambda>s. Evaluate rest states s)
      | LiteralNull \<Rightarrow> emit sax EvNull rest s (\<lambda>s. Evaluate rest states s)
      | LiteralTrue \<Rightarrow> emit sax (EvBoolean True) rest s (\<lambda>s. Evaluate rest states s)
      | ValueInteger z \<Rightarrow> emit sax (EvInteger z) rest s (\<lambda>s. Evaluate rest states s)
      | ValueString str \<Rightarrow> emit sax (EvString str) rest s (\<lambda>s. Evaluate rest states s)
      | ValueUnsigned n \<Rightarrow> emit sax (EvUnsigned n) rest s (\<lambda>s. Evaluate rest states s)
      | _ \<Rightarrow> parse_error sax rest s)"

text \<open>
  The evaluation of the enclosing container after a value. \<open>Evaluate\<close> as a result is the
  \<open>skip_to_state_evaluation\<close> jump after a container closed.
\<close>

definition evaluate_state ::
  "'s sax \<Rightarrow> token list \<Rightarrow> bool list \<Rightarrow> 's \<Rightarrow> 's flow" where
  "evaluate_state sax rest states s =
     (case states of
        [] \<Rightarrow> Return True rest s
      | True # states' \<Rightarrow>
          (case get_token rest of (tok, rest) \<Rightarrow>
             if tok = ValueSeparator
             then (case get_token rest of (tok, rest) \<Rightarrow> Continue tok rest states s)
             else if tok = EndArray
             then emit sax EvEndArray rest s (\<lambda>s. Evaluate rest states' s)
             else parse_error sax rest s)
      | False # states' \<Rightarrow>
          (case get_token rest of (tok, rest) \<Rightarrow>
             if tok = ValueSeparator
             then (case get_token rest of (tok, rest) \<Rightarrow> parse_key sax tok rest states s)
             else if tok = EndObject
             then emit sax EvEndObject rest s (\<lambda>s. Evaluate rest states' s)
             else parse_error sax rest s))"

text \<open>Every turn of the loop consumes input: an end-of-input token is worth less than any other.\<close>

definition token_weight :: "token \<Rightarrow> token list \<Rightarrow> nat" where
  "token_weight tok rest = 2 * length rest + of_bool (tok \<noteq> EndOfInput)"

lemma get_token_weight: "get_token rest = (l, r) \<Longrightarrow> token_weight l r \<le> 2 * length rest \<and> length r \<le> length rest"
  by (auto simp: get_token_def token_weight_def split: list.splits)

lemma get_token_less: "get_token rest = (l, r) \<Longrightarrow> l \<noteq> EndOfInput \<Longrightarrow> length r < length rest"
  by (auto simp: get_token_def split: list.splits)

lemma parse_key_flow:
  "parse_key sax tok rest states s = Continue l r st s' \<Longrightarrow> token_weight l r < token_weight tok rest"
  "parse_key sax tok rest states s \<noteq> Evaluate r st s'"
  by (auto simp: parse_key_def emit_def parse_error_def token_weight_def split: token.splits prod.splits if_splits
      dest!: get_token_weight)

lemma parse_value_Continue:
  "parse_value sax tok rest states s = Continue l r st s' \<Longrightarrow> token_weight l r < token_weight tok rest"
  by (fastforce simp: parse_value_def emit_def parse_error_def token_weight_def
      split: token.splits prod.splits if_splits dest!: get_token_weight parse_key_flow(1))

lemma parse_value_Evaluate:
  "parse_value sax tok rest states s = Evaluate r st s' \<Longrightarrow> 2 * length r < token_weight tok rest"
  by (auto simp: parse_value_def emit_def parse_error_def token_weight_def parse_key_flow(2)
      split: token.splits prod.splits if_splits dest!: get_token_weight)

lemma evaluate_state_flow:
  "evaluate_state sax rest states s = Continue l r st s' \<Longrightarrow> token_weight l r < 2 * length rest"
  "evaluate_state sax rest states s = Evaluate r st s' \<Longrightarrow> length r < length rest"
  by (auto simp: evaluate_state_def emit_def parse_error_def parse_key_flow(2) token_weight_def
      split: list.splits bool.splits prod.splits if_splits
      dest!: parse_key_flow(1) get_token_weight get_token_less) 

fun flow_weight :: "'s flow \<Rightarrow> nat" where
  "flow_weight (Return b rest s) = 0"
| "flow_weight (Continue tok rest states s) = Suc (token_weight tok rest)"
| "flow_weight (Evaluate rest states s) = Suc (2 * length rest)"

function sax_loop :: "'s sax \<Rightarrow> 's flow \<Rightarrow> bool \<times> token list \<times> 's" where
  "sax_loop sax (Return b rest s) = (b, rest, s)"
| "sax_loop sax (Continue tok rest states s) = sax_loop sax (parse_value sax tok rest states s)"
| "sax_loop sax (Evaluate rest states s) = sax_loop sax (evaluate_state sax rest states s)"
  by pat_completeness auto
termination
proof (relation "measure (flow_weight \<circ> snd)", goal_cases)
  case (2 sax tok rest states s)
  show ?case
    by (cases "parse_value sax tok rest states s")
      (auto dest: parse_value_Continue parse_value_Evaluate)
next
  case (3 sax rest states s)
  show ?case
    by (cases "evaluate_state sax rest states s") (auto dest: evaluate_state_flow)
qed simp

text \<open>\<open>sax_parse_internal\<close>: the parser reads its first token when it is constructed.\<close>

definition sax_parse_internal :: "'s sax \<Rightarrow> token list \<Rightarrow> 's \<Rightarrow> bool \<times> token list \<times> 's" where
  "sax_parse_internal sax tokens s =
     (case get_token tokens of (tok, rest) \<Rightarrow> sax_loop sax (Continue tok rest [] s))"

text \<open>\<open>sax_parse\<close> with \<open>strict = true\<close>: nothing may follow the value.\<close>

definition sax_parse :: "'s sax \<Rightarrow> token list \<Rightarrow> 's \<Rightarrow> bool \<times> 's" where
  "sax_parse sax tokens s =
     (case sax_parse_internal sax tokens s of
        (result, rest, s') \<Rightarrow>
          if result \<and> fst (get_token rest) \<noteq> EndOfInput then on_error sax s' else (result, s'))"

section \<open>The document builder\<close>

text \<open>
  \<open>json_sax_dom_parser\<close>. The open containers of \<open>ref_stack\<close> are kept with their contents so
  far, innermost first; the library keeps pointers into the half-built tree instead, which
  read the same once a container is closed. An object frame remembers the key whose slot
  \<open>object_element\<close> points to.
\<close>

datatype dom_frame = DomArray "json list" | DomObject "(string \<times> json) list" string

record dom =
  dom_root :: "json option"
  ref_stack :: "dom_frame list"
  errored :: bool

definition handle_value :: "json \<Rightarrow> dom \<Rightarrow> dom" where
  "handle_value v d =
     (case ref_stack d of
        [] \<Rightarrow> d\<lparr>dom_root := Some v\<rparr>
      | DomArray xs # fs \<Rightarrow> d\<lparr>ref_stack := DomArray (xs @ [v]) # fs\<rparr>
      | DomObject ms k # fs \<Rightarrow> d\<lparr>ref_stack := DomObject (om_assign k v ms) k # fs\<rparr>)"

text \<open>\<open>operator[]\<close> alone: a missing key gets a null value at the end.\<close>

definition om_touch :: "string \<Rightarrow> (string \<times> json) list \<Rightarrow> (string \<times> json) list" where
  "om_touch k ms = (if om_find k ms = None then ms @ [(k, JNull)] else ms)"

fun dom_event :: "dom \<Rightarrow> sax_event \<Rightarrow> bool \<times> dom" where
  "dom_event d EvNull = (True, handle_value JNull d)"
| "dom_event d (EvBoolean b) = (True, handle_value (JBool b) d)"
| "dom_event d (EvInteger z) = (True, handle_value (JInt z) d)"
| "dom_event d (EvUnsigned n) = (True, handle_value (JUInt n) d)"
| "dom_event d (EvFloat x) = (True, handle_value (JFloat x) d)"
| "dom_event d (EvString str) = (True, handle_value (JString str) d)"
| "dom_event d EvStartObject = (True, d\<lparr>ref_stack := DomObject [] [] # ref_stack d\<rparr>)"
| "dom_event d (EvKey k) =
     (True, case ref_stack d of
              DomObject ms _ # fs \<Rightarrow> d\<lparr>ref_stack := DomObject (om_touch k ms) k # fs\<rparr>
            | _ \<Rightarrow> d)"
| "dom_event d EvEndObject =
     (True, case ref_stack d of
              DomObject ms _ # fs \<Rightarrow> handle_value (JObject ms) (d\<lparr>ref_stack := fs\<rparr>)
            | _ \<Rightarrow> d)"
| "dom_event d EvStartArray = (True, d\<lparr>ref_stack := DomArray [] # ref_stack d\<rparr>)"
| "dom_event d EvEndArray =
     (True, case ref_stack d of
              DomArray xs # fs \<Rightarrow> handle_value (JArray xs) (d\<lparr>ref_stack := fs\<rparr>)
            | _ \<Rightarrow> d)"

definition dom_error :: "dom \<Rightarrow> bool \<times> dom" where
  "dom_error d = (False, d\<lparr>errored := True\<rparr>)"

definition dom_sax :: "dom sax" where
  "dom_sax = \<lparr>on_event = dom_event, on_error = dom_error\<rparr>"

definition dom_init :: dom where
  "dom_init = \<lparr>dom_root = None, ref_stack = [], errored = False\<rparr>"

text \<open>
  \<open>JsonValue::parse(first, last, nullptr, false)\<close>: \<open>None\<close> is the discarded value a syntax
  error gives.
\<close>

definition dom_parse :: "token list \<Rightarrow> json option" where
  "dom_parse tokens =
     (case sax_parse_internal dom_sax tokens dom_init of
        (_, rest, d) \<Rightarrow>
          (let d = (if fst (get_token rest) \<noteq> EndOfInput then snd (dom_error d) else d)
           in if errored d then None else dom_root d))"

text \<open>\<open>JsonValue::accept\<close>: the handler that accepts every event.\<close>

definition acceptor_sax :: "unit sax" where
  "acceptor_sax = \<lparr>on_event = (\<lambda>s ev. (True, s)), on_error = (\<lambda>s. (False, s))\<rparr>"

definition json_accept :: "token list \<Rightarrow> bool" where
  "json_accept tokens = fst (sax_parse acceptor_sax tokens ())"

end
