(* ===== verification/Json_Grammar.thy ===== *)
theory Json_Grammar
  imports Json_Parser
begin

text \<open>
  What the parser loop does, stated on trees. A tree here is a \<open>json\<close> value whose objects may
  repeat a key, as text can: \<open>value_tokens\<close> is its token sequence, \<open>events_of\<close> its event
  sequence and \<open>collapse\<close> the document it becomes. The loop accepts exactly the token
  sequences of trees, whatever handler it drives, and the builder returns the collapsed tree.
\<close>

section \<open>Trees, tokens and events\<close>

fun sep_tokens :: "token list list \<Rightarrow> token list" where
  "sep_tokens [] = []"
| "sep_tokens [ts] = ts"
| "sep_tokens (ts # us # vs) = ts @ ValueSeparator # sep_tokens (us # vs)"

fun value_tokens :: "json \<Rightarrow> token list" where
  "value_tokens JNull = [LiteralNull]"
| "value_tokens (JBool b) = [if b then LiteralTrue else LiteralFalse]"
| "value_tokens (JInt z) = [ValueInteger z]"
| "value_tokens (JUInt n) = [ValueUnsigned n]"
| "value_tokens (JFloat d) = [ValueFloat d]"
| "value_tokens (JString str) = [ValueString str]"
| "value_tokens (JArray xs) = BeginArray # sep_tokens (map value_tokens xs) @ [EndArray]"
| "value_tokens (JObject fs) =
     BeginObject # sep_tokens (map (\<lambda>f. ValueString (fst f) # NameSeparator # value_tokens (snd f)) fs) @ [EndObject]"

fun events_of :: "json \<Rightarrow> sax_event list" where
  "events_of JNull = [EvNull]"
| "events_of (JBool b) = [EvBoolean b]"
| "events_of (JInt z) = [EvInteger z]"
| "events_of (JUInt n) = [EvUnsigned n]"
| "events_of (JFloat d) = [EvFloat d]"
| "events_of (JString str) = [EvString str]"
| "events_of (JArray xs) = EvStartArray # concat (map events_of xs) @ [EvEndArray]"
| "events_of (JObject fs) =
     EvStartObject # concat (map (\<lambda>f. EvKey (fst f) # events_of (snd f)) fs) @ [EvEndObject]"

text \<open>The parser refuses a float token that is not finite.\<close>

fun finite_floats :: "json \<Rightarrow> bool" where
  "finite_floats (JFloat d) = is_finite_fp (decode_f64 d)"
| "finite_floats (JArray xs) = (\<forall>x \<in> set xs. finite_floats x)"
| "finite_floats (JObject fs) = (\<forall>f \<in> set fs. finite_floats (snd f))"
| "finite_floats _ = True"

text \<open>Repeated keys: the last value wins and keeps the position of the first occurrence.\<close>

fun collapse :: "json \<Rightarrow> json" where
  "collapse (JArray xs) = JArray (map collapse xs)"
| "collapse (JObject fs) = JObject (foldl (\<lambda>ms (k, v). om_assign k v ms) [] (map (\<lambda>f. (fst f, collapse (snd f))) fs))"
| "collapse v = v"

text \<open>A handler run over an event sequence, stopped by the first event it rejects.\<close>

fun run_events :: "('s \<Rightarrow> sax_event \<Rightarrow> bool \<times> 's) \<Rightarrow> 's \<Rightarrow> sax_event list \<Rightarrow> bool \<times> 's" where
  "run_events h s [] = (True, s)"
| "run_events h s (e # es) = (case h s e of (b, s') \<Rightarrow> if b then run_events h s' es else (False, s'))"

lemma run_events_append:
  "run_events h s (es @ fs) =
     (case run_events h s es of (b, s') \<Rightarrow> if b then run_events h s' fs else (False, s'))"
  by (induction es arbitrary: s) (auto split: prod.splits)

lemma run_events_append_ok [simp]:
  "run_events h s es = (True, s') \<Longrightarrow> run_events h s (es @ fs) = run_events h s' fs"
  by (simp add: run_events_append)

lemma run_events_append_stop [simp]:
  "run_events h s es = (False, s') \<Longrightarrow> run_events h s (es @ fs) = (False, s')"
  by (simp add: run_events_append)

lemma value_tokens_nonempty [simp]: "value_tokens t \<noteq> []"
  by (cases t) simp_all

lemma get_token_Cons [simp]: "get_token (t # ts) = (t, ts)"
  by (simp add: get_token_def)

lemma hd_value_tokens:
  "hd (value_tokens t) \<notin> {EndArray, EndObject, NameSeparator, ValueSeparator, LexError, EndOfInput}"
  by (cases t) simp_all

declare sax_loop.simps(2,3) [simp del]

section \<open>Completeness: the loop follows a tree\<close>

text \<open>
  Running the loop in front of the tokens of a tree: when the handler takes all the tree's
  events the loop arrives behind the tree, otherwise it stops with \<open>false\<close> in the handler's
  state at the rejected event.
\<close>

definition follows :: "'s sax \<Rightarrow> token list \<Rightarrow> bool list \<Rightarrow> 's \<Rightarrow> sax_event list \<Rightarrow> 's flow \<Rightarrow> bool" where
  "follows sax rest states s es flow \<longleftrightarrow>
     (case run_events (on_event sax) s es of
        (True, s') \<Rightarrow> sax_loop sax flow = sax_loop sax (Evaluate rest states s')
      | (False, s') \<Rightarrow> \<exists>r. sax_loop sax flow = (False, r, s'))"

lemma follows_emit:
  assumes "\<And>s'. on_event sax s ev = (True, s') \<Longrightarrow> follows sax rest states s' es (k s')"
  shows "follows sax rest states s (ev # es) (emit sax ev tokens s k)"
  using assms by (cases "on_event sax s ev") (auto simp: follows_def emit_def)

lemma follows_Nil: "follows sax rest states s [] (Evaluate rest states s)"
  by (simp add: follows_def)

lemma follows_Continue:
  "follows sax rest states s es (parse_value sax tok toks st s) \<Longrightarrow>
     follows sax rest states s es (Continue tok toks st s)"
  by (simp add: follows_def sax_loop.simps split: prod.splits bool.splits)

lemma follows_Evaluate:
  "follows sax rest states s es (evaluate_state sax toks st s) \<Longrightarrow>
     follows sax rest states s es (Evaluate toks st s)"
  by (simp add: follows_def sax_loop.simps(3) [of sax toks] split: prod.splits bool.splits)

lemma follows_trans:
  assumes "follows sax rest' states' s es flow"
    and "\<And>s'. run_events (on_event sax) s es = (True, s') \<Longrightarrow>
           follows sax rest states s' fs (Evaluate rest' states' s')"
  shows "follows sax rest states s (es @ fs) flow"
  using assms by (cases "run_events (on_event sax) s es") (auto simp: follows_def run_events_append split: prod.splits bool.splits)

abbreviation at_value :: "token list \<Rightarrow> bool list \<Rightarrow> 's \<Rightarrow> 's flow" where
  "at_value toks states s \<equiv> (case get_token toks of (tok, rest) \<Rightarrow> Continue tok rest states s)"

lemma follows_elements:
  assumes IH: "\<And>x rest st s. x \<in> set xs \<Longrightarrow>
      follows sax rest st s (events_of x) (at_value (value_tokens x @ rest) st s)"
    and "xs \<noteq> []"
  shows "follows sax rest states s (concat (map events_of xs) @ [EvEndArray])
           (at_value (sep_tokens (map value_tokens xs) @ EndArray # rest) (True # states) s)"
  using assms
proof (induction xs arbitrary: s)
  case (Cons x xs)
  show ?case
  proof (cases xs)
    case Nil
    have "follows sax rest states s' [EvEndArray] (Evaluate (EndArray # rest) (True # states) s')" for s'
      by (rule follows_Evaluate) (simp add: evaluate_state_def follows_emit follows_Nil)
    from follows_trans [OF Cons.prems(1) [of x "EndArray # rest" "True # states" s] this]
    show ?thesis using Nil by simp
  next
    case (Cons y ys)
    let ?more = "sep_tokens (map value_tokens xs) @ EndArray # rest"
    have sep: "sep_tokens (map value_tokens (x # xs)) @ EndArray # rest = value_tokens x @ ValueSeparator # ?more"
      using Cons by simp
    have "follows sax rest states s' (concat (map events_of xs) @ [EvEndArray])
        (Evaluate (ValueSeparator # ?more) (True # states) s')" for s'
      by (rule follows_Evaluate)
        (use Cons.IH [of s'] Cons.prems Cons in \<open>simp add: evaluate_state_def\<close>)
    from follows_trans [OF Cons.prems(1) [of x "ValueSeparator # ?more" "True # states" s] this]
    show ?thesis unfolding sep by simp
  qed
qed simp

definition field_tokens :: "string \<times> json \<Rightarrow> token list" where
  "field_tokens f = ValueString (fst f) # NameSeparator # value_tokens (snd f)"

definition field_events :: "string \<times> json \<Rightarrow> sax_event list" where
  "field_events f = EvKey (fst f) # events_of (snd f)"

lemma follows_fields:
  assumes IH: "\<And>f rest st s. f \<in> set fs \<Longrightarrow>
      follows sax rest st s (events_of (snd f)) (at_value (value_tokens (snd f) @ rest) st s)"
    and "fs \<noteq> []"
  shows "follows sax rest states s (concat (map field_events fs) @ [EvEndObject])
           (case get_token (sep_tokens (map field_tokens fs) @ EndObject # rest) of
              (tok, toks) \<Rightarrow> parse_key sax tok toks (False # states) s)"
  using assms
proof (induction fs arbitrary: s)
  case (Cons f fs)
  have key: "follows sax more (False # states) s (field_events f)
      (case get_token (field_tokens f @ more) of (tok, toks) \<Rightarrow> parse_key sax tok toks (False # states) s)" for more s
    using Cons.prems(1) [of f more "False # states"]
    by (auto simp: field_tokens_def field_events_def parse_key_def intro!: follows_emit)
  show ?case
  proof (cases fs)
    case Nil
    have "follows sax rest states s' [EvEndObject] (Evaluate (EndObject # rest) (False # states) s')" for s'
      by (rule follows_Evaluate) (simp add: evaluate_state_def follows_emit follows_Nil)
    from follows_trans [OF key [of "EndObject # rest" s] this]
    show ?thesis using Nil by simp
  next
    case (Cons g gs)
    let ?more = "sep_tokens (map field_tokens fs) @ EndObject # rest"
    have sep: "sep_tokens (map field_tokens (f # fs)) @ EndObject # rest = field_tokens f @ ValueSeparator # ?more"
      using Cons by simp
    have "follows sax rest states s' (concat (map field_events fs) @ [EvEndObject])
        (Evaluate (ValueSeparator # ?more) (False # states) s')" for s'
      by (rule follows_Evaluate)
        (use Cons.IH [of s'] Cons.prems Cons in \<open>simp add: evaluate_state_def\<close>)
    from follows_trans [OF key [of "ValueSeparator # ?more" s] this]
    show ?thesis unfolding sep by simp
  qed
qed simp

lemma hd_sep_tokens:
  "ts \<noteq> [] \<Longrightarrow> hd ts \<noteq> [] \<Longrightarrow> \<exists>us. sep_tokens ts = hd (hd ts) # us"
  by (cases ts rule: sep_tokens.cases) (auto simp: neq_Nil_conv)

lemma parse_value_containers:
  "parse_value sax BeginArray toks states s =
     emit sax EvStartArray toks s (\<lambda>s. case get_token toks of (tok, toks) \<Rightarrow>
       if tok = EndArray then emit sax EvEndArray toks s (\<lambda>s. Evaluate toks states s)
       else Continue tok toks (True # states) s)"
  "parse_value sax BeginObject toks states s =
     emit sax EvStartObject toks s (\<lambda>s. case get_token toks of (tok, toks) \<Rightarrow>
       if tok = EndObject then emit sax EvEndObject toks s (\<lambda>s. Evaluate toks states s)
       else parse_key sax tok toks (False # states) s)"
  by (simp_all add: parse_value_def split: prod.split)

theorem follows_value:
  assumes "finite_floats t"
  shows "follows sax rest states s (events_of t) (at_value (value_tokens t @ rest) states s)"
  using assms
proof (induction t arbitrary: rest states s)
  case (JArray xs)
  let ?toks = "sep_tokens (map value_tokens xs) @ EndArray # rest"
  have "follows sax rest states s' (concat (map events_of xs) @ [EvEndArray])
      (case get_token ?toks of (tok, toks) \<Rightarrow>
         if tok = EndArray then emit sax EvEndArray toks s' (\<lambda>s. Evaluate toks states s)
         else Continue tok toks (True # states) s')" for s'
  proof (cases xs)
    case Nil
    then show ?thesis by (simp add: follows_emit follows_Nil)
  next
    case (Cons x ys)
    have "follows sax rest states s' (concat (map events_of xs) @ [EvEndArray]) (at_value ?toks (True # states) s')"
      by (rule follows_elements) (use JArray Cons in auto)
    moreover obtain us where "?toks = hd (value_tokens x) # us"
      using hd_sep_tokens [of "map value_tokens xs"] Cons by auto
    ultimately show ?thesis using hd_value_tokens [of x] by simp
  qed
  then show ?case
    by (simp add: follows_Continue follows_emit parse_value_containers)
next
  case (JObject fs)
  have IH: "f \<in> set fs \<Longrightarrow>
      follows sax rest st s (events_of (snd f)) (at_value (value_tokens (snd f) @ rest) st s)" for f rest st s
    using JObject.IH [of f "snd f"] JObject.prems by (auto simp: snds.simps)
  let ?toks = "sep_tokens (map field_tokens fs) @ EndObject # rest"
  have "follows sax rest states s' (concat (map field_events fs) @ [EvEndObject])
      (case get_token ?toks of (tok, toks) \<Rightarrow>
         if tok = EndObject then emit sax EvEndObject toks s' (\<lambda>s. Evaluate toks states s)
         else parse_key sax tok toks (False # states) s')" for s'
  proof (cases fs)
    case Nil
    then show ?thesis by (simp add: follows_emit follows_Nil)
  next
    case (Cons f gs)
    have "follows sax rest states s' (concat (map field_events fs) @ [EvEndObject])
        (case get_token ?toks of (tok, toks) \<Rightarrow> parse_key sax tok toks (False # states) s')"
      by (rule follows_fields) (use IH Cons in auto)
    moreover obtain us where "?toks = ValueString (fst f) # us"
      using hd_sep_tokens [of "map field_tokens fs"] Cons by (auto simp: field_tokens_def)
    ultimately show ?thesis by simp
  qed
  then show ?case
    by (simp add: follows_Continue follows_emit parse_value_containers
        field_tokens_def [abs_def] field_events_def [abs_def])
qed (auto simp: parse_value_def intro!: follows_Continue follows_emit follows_Nil)

section \<open>Soundness: an accepted input is a tree\<close>

text \<open>
  The containers the loop is inside of, innermost first: the elements an array has so far, or the
  fields an object has so far and the key of the value being read.
\<close>

datatype open_frame = OpenArray "json list" | OpenObject "(string \<times> json) list" string

fun frame_is_array :: "open_frame \<Rightarrow> bool" where
  "frame_is_array (OpenArray xs) = True"
| "frame_is_array (OpenObject fs k) = False"

fun frame_finite :: "open_frame \<Rightarrow> bool" where
  "frame_finite (OpenArray xs) = (\<forall>x \<in> set xs. finite_floats x)"
| "frame_finite (OpenObject fs k) = (\<forall>f \<in> set fs. finite_floats (snd f))"

fun open_tokens :: "open_frame list \<Rightarrow> token list" where
  "open_tokens [] = []"
| "open_tokens (OpenArray xs # c) =
     open_tokens c @ BeginArray # concat (map (\<lambda>x. value_tokens x @ [ValueSeparator]) xs)"
| "open_tokens (OpenObject fs k # c) =
     open_tokens c @ BeginObject # concat (map (\<lambda>f. field_tokens f @ [ValueSeparator]) fs) @
       [ValueString k, NameSeparator]"

lemma sep_tokens_snoc:
  "sep_tokens (map g (xs @ [x])) = concat (map (\<lambda>x. g x @ [ValueSeparator]) xs) @ g x"
proof (induction xs)
  case (Cons y ys)
  then show ?case by (cases "map g (ys @ [x])") auto
qed simp

lemma value_tokens_array_snoc:
  "value_tokens (JArray (xs @ [v])) =
     BeginArray # concat (map (\<lambda>x. value_tokens x @ [ValueSeparator]) xs) @ value_tokens v @ [EndArray]"
  using sep_tokens_snoc [of value_tokens xs v] by simp

lemma value_tokens_object:
  "value_tokens (JObject fs) = BeginObject # sep_tokens (map field_tokens fs) @ [EndObject]"
  by (simp add: field_tokens_def [abs_def])

lemma value_tokens_object_snoc:
  "value_tokens (JObject (fs @ [(k, v)])) =
     BeginObject # concat (map (\<lambda>f. field_tokens f @ [ValueSeparator]) fs) @
       ValueString k # NameSeparator # value_tokens v @ [EndObject]"
  using sep_tokens_snoc [of field_tokens fs "(k, v)"]
  unfolding value_tokens_object by (simp add: field_tokens_def)

text \<open>What the loop has read when it is at a given point of an input.\<close>

fun on_track :: "token list \<Rightarrow> 's flow \<Rightarrow> bool" where
  "on_track all (Return b rest s) \<longleftrightarrow> (b \<longrightarrow> (\<exists>v. finite_floats v \<and> all = value_tokens v @ rest))"
| "on_track all (Continue tok rest states s) \<longleftrightarrow>
     (\<exists>c. states = map frame_is_array c \<and> (\<forall>f \<in> set c. frame_finite f) \<and>
        (tok = EndOfInput \<or> all = open_tokens c @ tok # rest))"
| "on_track all (Evaluate rest states s) \<longleftrightarrow>
     (\<exists>c v. states = map frame_is_array c \<and> (\<forall>f \<in> set c. frame_finite f) \<and> finite_floats v \<and>
        all = open_tokens c @ value_tokens v @ rest)"

lemma get_token_cases:
  obtains "get_token rest = (EndOfInput, [])" "rest = []" | tok more where "get_token rest = (tok, more)" "rest = tok # more"
  by (cases rest) (auto simp: get_token_def)

lemma on_track_emit:
  "(\<And>s. on_track all (k s)) \<Longrightarrow> on_track all (emit sax ev rest s k)"
  by (simp add: emit_def split: prod.split)

lemma on_track_error:
  "(\<And>s. \<not> fst (on_error sax s)) \<Longrightarrow> on_track all (parse_error sax rest s)"
  by (metis (mono_tags, lifting) case_prod_unfold on_track.simps(1) parse_error_def)

lemma on_track_scalar:
  assumes "states = map frame_is_array c" "\<forall>f \<in> set c. frame_finite f" "finite_floats v"
    and "all = open_tokens c @ value_tokens v @ rest"
  shows "on_track all (Evaluate rest states s)"
  using assms by auto

lemma on_track_key:
  assumes "\<And>s. \<not> fst (on_error sax s)"
    and "states = map frame_is_array c" "\<forall>f \<in> set c. frame_finite f" "\<forall>f \<in> set fs. finite_floats (snd f)"
    and "tok = EndOfInput \<or>
      all = open_tokens c @ BeginObject # concat (map (\<lambda>f. field_tokens f @ [ValueSeparator]) fs) @ tok # rest"
  shows "on_track all (parse_key sax tok rest (False # states) s)"
proof (cases tok)
  case (ValueString k)
  show ?thesis
  proof (cases rest rule: get_token_cases)
    case 1
    then show ?thesis using assms(1) ValueString
      by (simp add: parse_key_def on_track_emit on_track_error)
  next
    case (2 sep more)
    have "on_track all (at_value more (False # states) s')" if "sep = NameSeparator" for s'
      using assms(2-) 2 ValueString that
      by (cases more rule: get_token_cases) (auto intro!: exI [of _ "OpenObject fs k # c"])
    then show ?thesis using assms(1) ValueString 2
      by (auto simp: parse_key_def intro!: on_track_emit on_track_error simp del: on_track.simps)
  qed
qed (use assms(1) in \<open>auto simp: parse_key_def intro!: on_track_error\<close>)

lemma on_track_value:
  fixes sax :: "'s sax"
  assumes err: "\<And>s. \<not> fst (on_error sax s)"
    and "on_track all (Continue tok rest states s)"
  shows "on_track all (parse_value sax tok rest states s)"
proof -
  obtain c where c: "states = map frame_is_array c" "\<forall>f \<in> set c. frame_finite f"
    and all: "tok = EndOfInput \<or> all = open_tokens c @ tok # rest"
    using assms(2) by auto
  note scalar = on_track_scalar [OF c]
  show ?thesis
  proof (cases tok)
    case BeginArray
    have closed: "on_track all (Evaluate more states s')" if "rest = EndArray # more" for more and s' :: 's
      using scalar [of "JArray []"] all BeginArray that by simp
    have opened: "on_track all (Continue t more (True # states) s')" if "rest = t # more" for t more and s' :: 's
      using all c BeginArray that by (auto intro!: exI [of _ "OpenArray [] # c"])
    have none: "on_track all (Continue EndOfInput [] (True # states) s')" for s' :: 's
      using c by (auto intro!: exI [of _ "OpenArray [] # c"])
    show ?thesis using BeginArray none closed opened
      by (cases rest rule: get_token_cases)
        (auto simp: parse_value_containers simp del: on_track.simps intro!: on_track_emit)
  next
    case BeginObject
    have closed: "on_track all (Evaluate more states s')" if "rest = EndObject # more" for more and s' :: 's
      using scalar [of "JObject []"] all BeginObject that by simp
    have "on_track all (parse_key sax t more (False # states) s')" if "get_token rest = (t, more)" for t more and s' :: 's
      by (rule on_track_key [OF err c, where fs = "[]"])
        (use all BeginObject that in \<open>cases rest rule: get_token_cases; auto\<close>)+
    then show ?thesis using BeginObject closed
      by (cases rest rule: get_token_cases)
        (auto simp: parse_value_containers simp del: on_track.simps intro!: on_track_emit)
  next
    case (ValueFloat d)
    then show ?thesis using scalar [of "JFloat d"] all err
      by (auto simp: parse_value_def simp del: on_track.simps intro!: on_track_emit on_track_error)
  qed (use scalar [of JNull] scalar [of "JBool True"] scalar [of "JBool False"] scalar [of "JInt _"]
      scalar [of "JUInt _"] scalar [of "JString _"] all err in
      \<open>auto simp: parse_value_def simp del: on_track.simps intro!: on_track_emit on_track_error\<close>)
qed

lemma on_track_evaluate:
  fixes sax :: "'s sax"
  assumes err: "\<And>s. \<not> fst (on_error sax s)"
    and "on_track all (Evaluate rest states s)"
  shows "on_track all (evaluate_state sax rest states s)"
proof -
  obtain c v where c: "states = map frame_is_array c" "\<forall>f \<in> set c. frame_finite f"
    and v: "finite_floats v" and all: "all = open_tokens c @ value_tokens v @ rest"
    using assms(2) by auto
  show ?thesis
  proof (cases c)
    case Nil
    then show ?thesis using c v all by (auto simp: evaluate_state_def)
  next
    case (Cons f c')
    show ?thesis
    proof (cases f)
      case (OpenArray xs)
      have closed: "on_track all (Evaluate more (map frame_is_array c') s')" if "rest = EndArray # more" for more and s' :: 's
        by (rule on_track_scalar [where v = "JArray (xs @ [v])"])
          (use c v all Cons OpenArray that in \<open>auto simp: value_tokens_array_snoc simp del: value_tokens.simps\<close>)
      have "on_track all (at_value more states s')" if "rest = ValueSeparator # more" for more and s' :: 's
        using c v all Cons OpenArray that
        by (cases more rule: get_token_cases) (auto intro!: exI [of _ "OpenArray (xs @ [v]) # c'"])
      then show ?thesis using c Cons OpenArray closed err
        by (cases rest rule: get_token_cases)
          (auto simp: evaluate_state_def simp del: on_track.simps intro!: on_track_emit on_track_error)
    next
      case (OpenObject fs k)
      have closed: "on_track all (Evaluate more (map frame_is_array c') s')" if "rest = EndObject # more" for more and s' :: 's
        by (rule on_track_scalar [where v = "JObject (fs @ [(k, v)])"])
          (use c v all Cons OpenObject that in \<open>auto simp: value_tokens_object_snoc simp del: value_tokens.simps\<close>)
      have "on_track all (parse_key sax t rest' (False # map frame_is_array c') s')"
        if "rest = ValueSeparator # more" "get_token more = (t, rest')" for more t rest' and s' :: 's
        by (rule on_track_key [OF err, where fs = "fs @ [(k, v)]" and c = c'])
          (use c v all Cons OpenObject that in \<open>cases more rule: get_token_cases; auto simp: field_tokens_def\<close>)+
      then show ?thesis using c Cons OpenObject closed err
        by (cases rest rule: get_token_cases)
          (auto simp: evaluate_state_def simp del: on_track.simps intro!: on_track_emit on_track_error split: prod.splits)
    qed
  qed
qed

lemma on_track_loop:
  assumes "\<And>s. \<not> fst (on_error sax s)" "on_track all flow" "sax_loop sax flow = (True, rest, s')"
  shows "\<exists>v. finite_floats v \<and> all = value_tokens v @ rest"
  using assms
proof (induction sax flow rule: sax_loop.induct)
  case (2 sax tok rest states s)
  then show ?case using on_track_value [of sax all tok rest states s]
    by (simp add: sax_loop.simps(2) del: on_track.simps)
next
  case (3 sax rest states s)
  then show ?case using on_track_evaluate [of sax all rest states s]
    by (simp add: sax_loop.simps(3) del: on_track.simps)
qed simp

text \<open>
  What a parse returns, for any handler: it accepts exactly the tokens of a tree, with nothing
  behind it, all whose events the handler takes.
\<close>

definition at_end :: "token list \<Rightarrow> bool" where
  "at_end rest \<longleftrightarrow> fst (get_token rest) = EndOfInput"

lemma sax_parse_internal_tree:
  assumes "finite_floats t"
  shows "case run_events (on_event sax) s (events_of t) of
      (True, s') \<Rightarrow> sax_parse_internal sax (value_tokens t @ rest) s = (True, rest, s')
    | (False, s') \<Rightarrow> \<exists>r. sax_parse_internal sax (value_tokens t @ rest) s = (False, r, s')"
  using follows_value [OF assms, of sax rest "[]" s]
  by (auto simp: follows_def sax_parse_internal_def sax_loop.simps evaluate_state_def split: prod.splits bool.splits)

theorem sax_parse_internal_True_iff:
  assumes "\<And>s. \<not> fst (on_error sax s)"
  shows "sax_parse_internal sax toks s = (True, rest, s') \<longleftrightarrow>
    (\<exists>t. finite_floats t \<and> toks = value_tokens t @ rest \<and> run_events (on_event sax) s (events_of t) = (True, s'))"
proof
  assume ok: "sax_parse_internal sax toks s = (True, rest, s')"
  have "on_track toks (case get_token toks of (tok, rest) \<Rightarrow> Continue tok rest [] s)"
    by (cases toks rule: get_token_cases) auto
  from on_track_loop [OF assms this] ok obtain t where t: "finite_floats t" "toks = value_tokens t @ rest"
    by (auto simp: sax_parse_internal_def split: prod.splits)
  with sax_parse_internal_tree [OF t(1), where sax = sax and s = s and rest = rest] ok
  show "\<exists>t. finite_floats t \<and> toks = value_tokens t @ rest \<and> run_events (on_event sax) s (events_of t) = (True, s')"
    by (auto split: prod.splits bool.splits)
next
  assume "\<exists>t. finite_floats t \<and> toks = value_tokens t @ rest \<and> run_events (on_event sax) s (events_of t) = (True, s')"
  then show "sax_parse_internal sax toks s = (True, rest, s')"
    using sax_parse_internal_tree [where sax = sax and s = s and rest = rest] by fastforce
qed

theorem sax_parse_True_iff:
  assumes "\<And>s. \<not> fst (on_error sax s)"
  shows "sax_parse sax toks s = (True, s') \<longleftrightarrow>
    (\<exists>t rest. finite_floats t \<and> toks = value_tokens t @ rest \<and> at_end rest \<and>
       run_events (on_event sax) s (events_of t) = (True, s'))"
proof -
  have "sax_parse sax toks s = (True, s') \<longleftrightarrow>
      (\<exists>rest. sax_parse_internal sax toks s = (True, rest, s') \<and> at_end rest)"
    using assms by (auto simp: sax_parse_def at_end_def split: prod.splits if_splits) (metis fst_conv)+
  then show ?thesis using sax_parse_internal_True_iff [of sax toks s _ s', OF assms] by blast
qed

section \<open>The builder and the acceptor\<close>

lemma om_assign_touch: "om_assign k v (om_touch k ms) = om_assign k v ms"
proof -
  have "om_find k ms = None \<Longrightarrow> om_assign k v (ms @ [(k, JNull)]) = om_assign k v ms"
    by (induction k v ms rule: om_assign.induct) (auto split: if_splits)
  then show ?thesis by (simp add: om_touch_def)
qed

lemma dom_elements:
  assumes "\<And>x d. x \<in> set xs \<Longrightarrow> run_events dom_event d (events_of x) = (True, handle_value (collapse x) d)"
  shows "run_events dom_event (d\<lparr>ref_stack := DomArray ys # fs\<rparr>) (concat (map events_of xs)) =
    (True, d\<lparr>ref_stack := DomArray (ys @ map collapse xs) # fs\<rparr>)"
  using assms
proof (induction xs arbitrary: ys)
  case (Cons x xs)
  from Cons.prems [of x] have "run_events dom_event (d\<lparr>ref_stack := DomArray ys # fs\<rparr>) (events_of x) =
      (True, d\<lparr>ref_stack := DomArray (ys @ [collapse x]) # fs\<rparr>)"
    by (simp add: handle_value_def)
  moreover have "run_events dom_event (d\<lparr>ref_stack := DomArray (ys @ [collapse x]) # fs\<rparr>)
      (concat (map events_of xs)) = (True, d\<lparr>ref_stack := DomArray (ys @ map collapse (x # xs)) # fs\<rparr>)"
    using Cons.IH [of "ys @ [collapse x]"] Cons.prems by simp
  ultimately show ?case by simp
qed simp

lemma dom_fields:
  assumes "\<And>f d. f \<in> set fs \<Longrightarrow>
      run_events dom_event d (events_of (snd f)) = (True, handle_value (collapse (snd f)) d)"
  shows "\<exists>k'. run_events dom_event (d\<lparr>ref_stack := DomObject ms k # st\<rparr>)
      (concat (map field_events fs)) =
    (True, d\<lparr>ref_stack :=
      DomObject (foldl (\<lambda>ms (k, v). om_assign k v ms) ms (map (\<lambda>f. (fst f, collapse (snd f))) fs)) k' # st\<rparr>)"
  using assms
proof (induction fs arbitrary: ms k)
  case (Cons f fs)
  have "run_events dom_event (d\<lparr>ref_stack := DomObject ms k # st\<rparr>) (field_events f) =
      (True, d\<lparr>ref_stack := DomObject (om_assign (fst f) (collapse (snd f)) ms) (fst f) # st\<rparr>)"
    using Cons.prems [of f] by (simp add: field_events_def handle_value_def om_assign_touch)
  then show ?case
    using Cons.IH [of "om_assign (fst f) (collapse (snd f)) ms" "fst f"] Cons.prems by simp
qed auto

lemma dom_tree: "run_events dom_event d (events_of t) = (True, handle_value (collapse t) d)"
proof (induction t arbitrary: d)
  case (JArray xs)
  have "run_events dom_event (d\<lparr>ref_stack := DomArray [] # ref_stack d\<rparr>) (concat (map events_of xs)) =
      (True, d\<lparr>ref_stack := DomArray (map collapse xs) # ref_stack d\<rparr>)"
    using dom_elements [where xs = xs and d = d and ys = "[]" and fs = "ref_stack d"] JArray by simp
  then show ?case by (simp add: handle_value_def split: list.split dom_frame.split)
next
  case (JObject fs)
  have "f \<in> set fs \<Longrightarrow>
      run_events dom_event d (events_of (snd f)) = (True, handle_value (collapse (snd f)) d)" for f d
    using JObject.IH [of f "snd f"] by (auto simp: snds.simps)
  then obtain k where "run_events dom_event (d\<lparr>ref_stack := DomObject [] [] # ref_stack d\<rparr>)
      (concat (map field_events fs)) = (True, d\<lparr>ref_stack :=
        DomObject (foldl (\<lambda>ms (k, v). om_assign k v ms) [] (map (\<lambda>f. (fst f, collapse (snd f))) fs)) k # ref_stack d\<rparr>)"
    using dom_fields [where fs = fs and d = d and ms = "[]" and k = "[]" and st = "ref_stack d"] by blast
  then show ?case
    by (simp add: field_events_def [abs_def] handle_value_def split: list.split dom_frame.split)
qed simp_all

lemma dom_error_False [simp]: "\<not> fst (dom_error d)"
  by (simp add: dom_error_def)

theorem dom_parse_tree:
  assumes "finite_floats t" "at_end rest"
  shows "dom_parse (value_tokens t @ rest) = Some (collapse t)"
proof -
  have "run_events (on_event dom_sax) dom_init (events_of t) = (True, handle_value (collapse t) dom_init)"
    using dom_tree [of dom_init t] by (simp add: dom_sax_def)
  with sax_parse_internal_tree [OF assms(1), of dom_sax rest dom_init]
  have "sax_parse_internal dom_sax (value_tokens t @ rest) dom_init = (True, rest, handle_value (collapse t) dom_init)"
    by simp
  then show ?thesis using assms(2)
    by (simp add: dom_parse_def at_end_def handle_value_def dom_init_def)
qed

theorem json_accept_iff:
  "json_accept toks \<longleftrightarrow> (\<exists>t rest. finite_floats t \<and> toks = value_tokens t @ rest \<and> at_end rest)"
proof -
  have "run_events (\<lambda>s ev. (True, s)) s es = (True, s)" for s :: unit and es
    by (induction es) auto
  then show ?thesis
    using sax_parse_True_iff [of acceptor_sax toks "()" "()"]
    by (simp add: json_accept_def acceptor_sax_def) (metis (full_types) fst_conv old.unit.exhaust prod.collapse)
qed

lemma keys_foldl_assign:
  "distinct (map fst ms) \<Longrightarrow> distinct (map fst (foldl (\<lambda>ms (k, v). om_assign k v ms) ms fs))"
  by (induction fs arbitrary: ms) (auto simp: distinct_om_assign split: prod.splits)

lemma set_foldl_assign:
  "set (foldl (\<lambda>ms (k, v). om_assign k v ms) ms fs) \<subseteq> set ms \<union> set fs"
proof (induction fs arbitrary: ms)
  case (Cons f fs)
  obtain k v where f: "f = (k, v)" by (cases f)
  show ?case using Cons.IH [of "om_assign k v ms"] set_om_assign [of k v ms] by (auto simp: f)
qed simp

lemma wf_collapse: "wf_json (collapse t)"
proof (induction t)
  case (JObject fs)
  then show ?case
    using set_foldl_assign [of "[]" "map (\<lambda>f. (fst f, collapse (snd f))) fs"]
    by (fastforce simp: keys_foldl_assign snds.simps)
qed simp_all

lemma collapse_wf: "wf_json t \<Longrightarrow> collapse t = t"
proof (induction t)
  case (JArray xs)
  then show ?case by (auto intro: map_idI)
next
  case (JObject fs)
  have id: "map (\<lambda>f. (fst f, collapse (snd f))) fs = fs"
    using JObject by (auto intro!: map_idI simp: snds.simps)
  have new: "k \<notin> fst ` set ms \<Longrightarrow> om_assign k v ms = ms @ [(k, v)]" for k v ms
    by (induction k v ms rule: om_assign.induct) auto
  have "distinct (map fst (ms @ gs)) \<Longrightarrow> foldl (\<lambda>ms (k, v). om_assign k v ms) ms gs = ms @ gs" for ms gs
    by (induction gs arbitrary: ms) (auto simp: new image_Un)
  from this [of "[]" fs] show ?case using JObject.prems by (simp add: id)
qed simp_all

text \<open>The tree of a token sequence, when it has one.\<close>

definition tree_of :: "token list \<Rightarrow> json \<Rightarrow> bool" where
  "tree_of toks t \<longleftrightarrow> finite_floats t \<and> (\<exists>rest. toks = value_tokens t @ rest \<and> at_end rest)"


section \<open>Properties\<close>

text \<open>The parser accepts a token sequence exactly when it is the token sequence of a JSON value
  with finite numbers and nothing behind it.\<close>
theorem parser_accepts_trees: "json_accept toks \<longleftrightarrow> (\<exists>t. tree_of toks t)"
  by (auto simp: json_accept_iff tree_of_def)

text \<open>The document built from the tokens of a JSON value is that value with repeated keys
  collapsed (last value, first position), and no object in it repeats a key.\<close>
theorem document_of_tokens:
  assumes "tree_of toks t"
  shows "dom_parse toks = Some (collapse t) \<and> wf_json (collapse t)"
  using assms dom_parse_tree wf_collapse by (auto simp: tree_of_def)

theorem document_of_tokens_witness:
  "dom_parse [BeginObject, ValueString ''a'', NameSeparator, LiteralTrue, ValueSeparator,
       ValueString ''b'', NameSeparator, LiteralNull, ValueSeparator,
       ValueString ''a'', NameSeparator, ValueInteger 7, EndObject]
     = Some (JObject [(''a'', JInt 7), (''b'', JNull)])"
proof -
  have "tree_of [BeginObject, ValueString ''a'', NameSeparator, LiteralTrue, ValueSeparator,
       ValueString ''b'', NameSeparator, LiteralNull, ValueSeparator,
       ValueString ''a'', NameSeparator, ValueInteger 7, EndObject]
     (JObject [(''a'', JBool True), (''b'', JNull), (''a'', JInt 7)])"
    by (simp add: tree_of_def at_end_def get_token_def)
  from document_of_tokens [OF this] show ?thesis by simp
qed

end
