(* ===== verification/Json_Limits.thy ===== *)
theory Json_Limits
  imports Json_Leaves Json_Grammar "HOL-Library.Multiset"
begin

text \<open>
  \<open>LimitCheckingSax\<close> of \<open>src/mapping/json-flatten.cpp\<close>: the event handler that rejects a text
  before any document is built. Its counters are compared with what the tree of the text really
  contains: its nesting, its leaves and the bytes of their keys.
\<close>

section \<open>The handler\<close>

definition kMaxJsonInputBytes :: nat where "kMaxJsonInputBytes = 1048576"
definition kMaxJsonDepth :: nat where "kMaxJsonDepth = 64"
definition kMaxFlatEntries :: nat where "kMaxFlatEntries = 10000"
definition kMaxFlatKeyBytes :: nat where "kMaxFlatKeyBytes = 4194304"

text \<open>
  Counters are \<open>size_t\<close> in the code. They stay below the limits, and a key is shorter than
  twice the input, so they never wrap and are kept as natural numbers.
\<close>

record key_frame =
  isArray :: bool
  nextIndex :: nat
  prefixBytes :: nat

record limits =
  failure :: status
  depth :: nat
  entryCount :: nat
  keyTotal :: nat
  pendingTokenBytes :: nat
  frames :: "key_frame list"
  previousEventOpenedContainer :: bool

definition LimitCheckingSax :: limits where
  "LimitCheckingSax =
     \<lparr>failure = ParseError, depth = 0, entryCount = 0, keyTotal = 0, pendingTokenBytes = 0,
      frames = replicate kMaxJsonDepth \<lparr>isArray = False, nextIndex = 0, prefixBytes = 0\<rparr>,
      previousEventOpenedContainer = False\<rparr>"

definition Reject :: "status \<Rightarrow> limits \<Rightarrow> bool \<times> limits" where
  "Reject st s = (False, s\<lparr>failure := st\<rparr>)"

definition CountEntry :: "limits \<Rightarrow> bool \<times> limits" where
  "CountEntry s =
     (if entryCount s \<ge> kMaxFlatEntries then Reject TooManyEntries s
      else (True, s\<lparr>entryCount := entryCount s + 1\<rparr>))"

definition AddKeyBytes :: "nat \<Rightarrow> limits \<Rightarrow> bool \<times> limits" where
  "AddKeyBytes keyBytes s =
     (if keyBytes > kMaxFlatKeyBytes - keyTotal s then Reject KeyTextTooLarge s
      else (True, s\<lparr>keyTotal := keyTotal s + keyBytes\<rparr>))"

fun DecimalDigits :: "nat \<Rightarrow> nat" where
  "DecimalDigits n = (if n \<ge> 10 then DecimalDigits (n div 10) + 1 else 1)"

declare DecimalDigits.simps [simp del]

definition NextKeyBytes :: "limits \<Rightarrow> nat \<times> limits" where
  "NextKeyBytes s =
     (if depth s = 0 then (0, s)
      else let top = frames s ! (depth s - 1) in
        if isArray top
        then (prefixBytes top + 1 + DecimalDigits (nextIndex top),
              s\<lparr>frames := (frames s)[depth s - 1 := top\<lparr>nextIndex := nextIndex top + 1\<rparr>]\<rparr>)
        else (prefixBytes top + 1 + pendingTokenBytes s, s))"

text \<open>\<open>CountEntry() && AddKeyBytes(keyBytes)\<close>.\<close>

definition CountAndAdd :: "nat \<Rightarrow> limits \<Rightarrow> bool \<times> limits" where
  "CountAndAdd keyBytes s = (case CountEntry s of (b, s) \<Rightarrow> if b then AddKeyBytes keyBytes s else (False, s))"

definition Leaf :: "limits \<Rightarrow> bool \<times> limits" where
  "Leaf s =
     (case NextKeyBytes (s\<lparr>previousEventOpenedContainer := False\<rparr>) of
        (keyBytes, s) \<Rightarrow> CountAndAdd keyBytes s)"

definition Open :: "bool \<Rightarrow> limits \<Rightarrow> bool \<times> limits" where
  "Open array s =
     (if depth s \<ge> kMaxJsonDepth then Reject NestingTooDeep s
      else case NextKeyBytes s of
        (keyBytes, s) \<Rightarrow>
          (True, s\<lparr>frames := (frames s)[depth s := \<lparr>isArray = array, nextIndex = 0, prefixBytes = keyBytes\<rparr>],
                   depth := depth s + 1, previousEventOpenedContainer := True\<rparr>))"

definition Close :: "limits \<Rightarrow> bool \<times> limits" where
  "Close s =
     (let wasEmpty = previousEventOpenedContainer s;
          s = s\<lparr>previousEventOpenedContainer := False, depth := depth s - 1\<rparr>
      in if \<not> wasEmpty then (True, s) else CountAndAdd (prefixBytes (frames s ! depth s)) s)"

definition key_event :: "string \<Rightarrow> limits \<Rightarrow> bool \<times> limits" where
  "key_event name s =
     (let s = s\<lparr>previousEventOpenedContainer := False\<rparr>
      in if NUL \<in> set name then Reject ParseError s
         else (True, s\<lparr>pendingTokenBytes :=
                 length name + length (filter (\<lambda>c. c = CHR ''~'' \<or> c = CHR ''/'') name)\<rparr>))"

fun limit_event :: "limits \<Rightarrow> sax_event \<Rightarrow> bool \<times> limits" where
  "limit_event s EvNull = Leaf s"
| "limit_event s (EvBoolean b) = Leaf s"
| "limit_event s (EvInteger z) = Leaf s"
| "limit_event s (EvUnsigned n) = Leaf s"
| "limit_event s (EvFloat d) = Leaf s"
| "limit_event s (EvString str) = Leaf s"
| "limit_event s EvStartObject = Open False s"
| "limit_event s EvEndObject = Close s"
| "limit_event s EvStartArray = Open True s"
| "limit_event s EvEndArray = Close s"
| "limit_event s (EvKey name) = key_event name s"

definition limit_sax :: "limits sax" where
  "limit_sax = \<lparr>on_event = limit_event, on_error = (\<lambda>s. (False, s))\<rparr>"

lemmas limit_defs = Reject_def CountEntry_def AddKeyBytes_def CountAndAdd_def

section \<open>What a tree contains\<close>

fun json_depth :: "json \<Rightarrow> nat" where
  "json_depth (JArray xs) = Suc (Max (insert 0 (set (map json_depth xs))))"
| "json_depth (JObject fs) = Suc (Max (insert 0 (set (map (\<lambda>f. json_depth (snd f)) fs))))"
| "json_depth _ = 0"

fun nul_in_key :: "json \<Rightarrow> bool" where
  "nul_in_key (JArray xs) = (\<exists>x \<in> set xs. nul_in_key x)"
| "nul_in_key (JObject fs) = (\<exists>f \<in> set fs. NUL \<in> set (fst f) \<or> nul_in_key (snd f))"
| "nul_in_key _ = False"

text \<open>The bytes of the entry keys of some leaves when \<open>k\<close> bytes stand before each path.\<close>

definition key_bytes :: "nat \<Rightarrow> (PathTokens \<times> json) list \<Rightarrow> nat" where
  "key_bytes k ls = sum_list (map (\<lambda>l. k + length (pointer_of (fst l))) ls)"

lemma key_bytes_simps [simp]:
  "key_bytes k [] = 0"
  "key_bytes k (ls @ ms) = key_bytes k ls + key_bytes k ms"
  "key_bytes k [([], v)] = k"
  by (simp_all add: key_bytes_def)

lemma key_bytes_below [simp]:
  "key_bytes k (below t ls) = key_bytes (k + 1 + length (escape_token t)) ls"
  unfolding key_bytes_def by (induction ls) auto

lemma DecimalDigits_to_string [simp]: "DecimalDigits n = length (to_string n)"
  by (induction n rule: DecimalDigits.induct) (subst DecimalDigits.simps, subst to_string.simps, auto)

lemma pending_escape:
  "length name + length (filter (\<lambda>c. c = CHR ''~'' \<or> c = CHR ''/'') name) = length (escape_token name)"
  by (induction name) auto

section \<open>The counters are the contents\<close>

definition limits_ok :: "limits \<Rightarrow> bool" where
  "limits_ok s \<longleftrightarrow> length (frames s) = kMaxJsonDepth \<and> depth s \<le> kMaxJsonDepth \<and>
     entryCount s \<le> kMaxFlatEntries \<and> keyTotal s \<le> kMaxFlatKeyBytes"

text \<open>
  \<open>charged fr s n b d u r\<close>: run from \<open>s\<close> over events with \<open>n\<close> leaves of \<open>b\<close> key bytes, nesting
  \<open>d\<close> and \<open>u\<close> telling of a key with a NUL. Either the handler took them all, moved its counters
  accordingly and holds the open frames \<open>fr\<close>, or it reports a limit the events really break.
\<close>

definition advanced :: "key_frame list \<Rightarrow> limits \<Rightarrow> nat \<Rightarrow> nat \<Rightarrow> limits \<Rightarrow> bool" where
  "advanced fr s n b s' \<longleftrightarrow> limits_ok s' \<and> depth s' = depth s \<and> take (depth s) (frames s') = fr \<and>
     entryCount s' = entryCount s + n \<and> keyTotal s' = keyTotal s + b \<and> \<not> previousEventOpenedContainer s'"

definition broken :: "limits \<Rightarrow> nat \<Rightarrow> nat \<Rightarrow> nat \<Rightarrow> bool \<Rightarrow> status \<Rightarrow> bool" where
  "broken s n b d u st \<longleftrightarrow>
     st = NestingTooDeep \<and> depth s + d > kMaxJsonDepth \<or>
     st = TooManyEntries \<and> entryCount s + n > kMaxFlatEntries \<or>
     st = KeyTextTooLarge \<and> keyTotal s + b > kMaxFlatKeyBytes \<or>
     st = ParseError \<and> u"

definition charged ::
  "key_frame list \<Rightarrow> limits \<Rightarrow> nat \<Rightarrow> nat \<Rightarrow> nat \<Rightarrow> bool \<Rightarrow> bool \<times> limits \<Rightarrow> bool" where
  "charged fr s n b d u r \<longleftrightarrow>
     (if fst r then advanced fr s n b (snd r) \<and> depth s + d \<le> kMaxJsonDepth \<and> \<not> u
      else broken s n b d u (failure (snd r)))"

lemma charged_compose:
  assumes "charged fr1 s n1 b1 d1 u1 (run_events limit_event s es)"
    and "\<And>s'. advanced fr1 s n1 b1 s' \<Longrightarrow> charged fr s' n2 b2 d2 u2 (run_events limit_event s' fs)"
  shows "charged fr s (n1 + n2) (b1 + b2) (max d1 d2) (u1 \<or> u2) (run_events limit_event s (es @ fs))"
proof (cases "run_events limit_event s es")
  case (Pair ok s')
  show ?thesis
  proof (cases ok)
    case True
    with Pair assms(1) have adv: "advanced fr1 s n1 b1 s'" "depth s + d1 \<le> kMaxJsonDepth" "\<not> u1"
      by (simp_all add: charged_def)
    with assms(2) [OF this(1)] True Pair show ?thesis
      by (auto simp: charged_def advanced_def broken_def split: if_splits)
  next
    case False
    with Pair assms(1) show ?thesis
      by (auto simp: charged_def broken_def)
  qed
qed

lemma charged_cong:
  assumes "depth s = depth s'" "entryCount s = entryCount s'" "keyTotal s = keyTotal s'"
  shows "charged fr s n b d u r = charged fr s' n b d u r"
  using assms by (simp add: charged_def advanced_def broken_def)

lemma CountAndAdd_charged:
  assumes "limits_ok s" "\<not> previousEventOpenedContainer s" "fr = take (depth s) (frames s)"
  shows "charged fr s 1 k 0 False (CountAndAdd k s)"
  using assms by (auto simp: charged_def limit_defs advanced_def broken_def limits_ok_def)

lemma NextKeyBytes_keeps:
  assumes "NextKeyBytes s = (k, s1)"
  shows "depth s1 = depth s" "entryCount s1 = entryCount s" "keyTotal s1 = keyTotal s"
    "limits_ok s1 = limits_ok s" "length (frames s1) = length (frames s)"
    "previousEventOpenedContainer s1 = previousEventOpenedContainer s"
    "NextKeyBytes (s\<lparr>previousEventOpenedContainer := b\<rparr>) = (k, s1\<lparr>previousEventOpenedContainer := b\<rparr>)"
  using assms by (auto simp: NextKeyBytes_def limits_ok_def Let_def split: if_splits)

definition frames_after :: "limits \<Rightarrow> key_frame list" where
  "frames_after s = take (depth s) (frames (snd (NextKeyBytes s)))"

lemma Leaf_charged:
  assumes "limits_ok s" "NextKeyBytes s = (k, s1)"
  shows "charged (frames_after s) s 1 k 0 False (Leaf s)"
proof -
  note keep = NextKeyBytes_keeps [OF assms(2)]
  let ?s1 = "s1\<lparr>previousEventOpenedContainer := False\<rparr>"
  have "charged (frames_after s) ?s1 1 k 0 False (CountAndAdd k ?s1)"
    by (rule CountAndAdd_charged) (use assms keep in \<open>simp_all add: frames_after_def limits_ok_def\<close>)
  moreover have "Leaf s = CountAndAdd k ?s1" by (simp add: Leaf_def keep)
  ultimately show ?thesis using charged_cong [of ?s1 s] keep by simp
qed

text \<open>A container: opening it, its contents, closing it.\<close>

lemma Open_opened:
  assumes "limits_ok s" "NextKeyBytes s = (k, s1)" "Open array s = (True, s2)"
  shows "limits_ok s2" "depth s2 = depth s + 1" "entryCount s2 = entryCount s" "keyTotal s2 = keyTotal s"
    "frames s2 ! depth s = \<lparr>isArray = array, nextIndex = 0, prefixBytes = k\<rparr>"
    "take (depth s) (frames s2) = frames_after s" "depth s < kMaxJsonDepth" "previousEventOpenedContainer s2"
  using assms NextKeyBytes_keeps [OF assms(2)]
  by (auto simp: Open_def limits_ok_def limit_defs frames_after_def split: if_splits)

lemma Open_refused:
  "Open array s = (False, s2) \<Longrightarrow> failure s2 = NestingTooDeep \<and> kMaxJsonDepth \<le> depth s"
  by (auto simp: Open_def limit_defs split: if_splits prod.splits)

lemma empty_container_charged:
  assumes s: "limits_ok s" "NextKeyBytes s = (k, s1)"
    and events: "limit_event s ev = Open array s" "\<And>s. limit_event s ev' = Close s"
  shows "charged (frames_after s) s 1 k 1 False (run_events limit_event s [ev, ev'])"
proof (cases "Open array s")
  case (Pair ok s2)
  show ?thesis
  proof (cases ok)
    case True
    with Pair have opened: "Open array s = (True, s2)" by simp
    note s2 = Open_opened [OF s opened]
    let ?closed = "s2\<lparr>previousEventOpenedContainer := False, depth := depth s2 - 1\<rparr>"
    have "charged (frames_after s) ?closed 1 k 0 False (CountAndAdd k ?closed)"
      by (rule CountAndAdd_charged) (use s2 in \<open>auto simp: limits_ok_def\<close>)
    moreover have "Close s2 = CountAndAdd k ?closed"
      using s2 by (simp add: Close_def Let_def)
    ultimately have "charged (frames_after s) s 1 k 0 False (Close s2)"
      using charged_cong [of ?closed s] s2 by simp
    then show ?thesis using opened events s2
      by (auto simp: charged_def advanced_def broken_def split: prod.splits if_splits)
  qed (use Pair events Open_refused [of array s s2] in \<open>auto simp: charged_def broken_def\<close>)
qed

lemma full_container_charged:
  assumes s: "limits_ok s" "NextKeyBytes s = (k, s1)"
    and events: "limit_event s ev = Open array s" "\<And>s. limit_event s ev' = Close s"
    and content: "\<And>s2. Open array s = (True, s2) \<Longrightarrow> charged (frames_after s @ [f]) s2 n b d u (run_events limit_event s2 es)"
  shows "charged (frames_after s) s n b (Suc d) u (run_events limit_event s (ev # es @ [ev']))"
proof (cases "Open array s")
  case (Pair ok s2)
  show ?thesis
  proof (cases ok)
    case True
    with Pair have opened: "Open array s = (True, s2)" by simp
    note s2 = Open_opened [OF s opened]
    obtain ok' s3 where run: "run_events limit_event s2 es = (ok', s3)" by force
    show ?thesis
    proof (cases ok')
      case True
      with run content [OF opened] have adv: "advanced (frames_after s @ [f]) s2 n b s3"
        "depth s2 + d \<le> kMaxJsonDepth" "\<not> u" by (simp_all add: charged_def)
      have "run_events limit_event s (ev # es @ [ev']) =
          (True, s3\<lparr>previousEventOpenedContainer := False, depth := depth s3 - 1\<rparr>)"
        using opened events run True adv(1)
        by (simp add: run_events_append Close_def Let_def advanced_def)
      moreover have "take (depth s) (frames s3) = frames_after s"
      proof -
        have "take (Suc (depth s)) (frames s3) = frames_after s @ [f]"
          using adv(1) s2(2) by (simp add: advanced_def)
        then have "take (depth s) (take (Suc (depth s)) (frames s3)) = take (depth s) (frames_after s @ [f])"
          by (rule arg_cong)
        moreover have "length (frames_after s) = depth s"
          using s NextKeyBytes_keeps [OF s(2)] by (simp add: frames_after_def limits_ok_def)
        ultimately show ?thesis by (simp add: min_def)
      qed
      ultimately show ?thesis using adv s2
        by (simp add: charged_def advanced_def limits_ok_def)
    next
      case False
      with run content [OF opened] opened events s2 show ?thesis
        by (auto simp: charged_def broken_def run_events_append)
    qed
  qed (use Pair events Open_refused [of array s s2] in \<open>auto simp: charged_def broken_def\<close>)
qed

lemma Max_insert0_Cons: "Max (insert (0::nat) (set (x # xs))) = max x (Max (insert 0 (set xs)))"
  by (simp add: insert_commute [of 0])

lemma NextKeyBytes_array:
  assumes "limits_ok s" "take (depth s) (frames s) = fs @ [\<lparr>isArray = True, nextIndex = i, prefixBytes = k\<rparr>]"
  shows "fst (NextKeyBytes s) = k + 1 + length (to_string i)"
    "frames_after s = fs @ [\<lparr>isArray = True, nextIndex = Suc i, prefixBytes = k\<rparr>]"
proof -
  have len: "depth s = Suc (length fs)" "depth s \<le> length (frames s)"
    using assms by (metis limits_ok_def length_append_singleton length_take min.absorb2)+
  then have top: "frames s ! (depth s - 1) = \<lparr>isArray = True, nextIndex = i, prefixBytes = k\<rparr>"
    using arg_cong [OF assms(2), of "\<lambda>l. l ! length fs"] by simp
  then show "fst (NextKeyBytes s) = k + 1 + length (to_string i)"
    "frames_after s = fs @ [\<lparr>isArray = True, nextIndex = Suc i, prefixBytes = k\<rparr>]"
    using len assms(2) by (simp_all add: NextKeyBytes_def Let_def frames_after_def take_update_swap)
qed

lemma NextKeyBytes_object:
  assumes "limits_ok s" "take (depth s) (frames s) = fs @ [\<lparr>isArray = False, nextIndex = i, prefixBytes = k\<rparr>]"
  shows "fst (NextKeyBytes s) = k + 1 + pendingTokenBytes s"
    "frames_after s = fs @ [\<lparr>isArray = False, nextIndex = i, prefixBytes = k\<rparr>]"
proof -
  have len: "depth s = Suc (length fs)" "depth s \<le> length (frames s)"
    using assms by (metis limits_ok_def length_append_singleton length_take min.absorb2)+
  then have top: "frames s ! (depth s - 1) = \<lparr>isArray = False, nextIndex = i, prefixBytes = k\<rparr>"
    using arg_cong [OF assms(2), of "\<lambda>l. l ! length fs"] by simp
  then show "fst (NextKeyBytes s) = k + 1 + pendingTokenBytes s"
    "frames_after s = fs @ [\<lparr>isArray = False, nextIndex = i, prefixBytes = k\<rparr>]"
    using len assms(2) by (simp_all add: NextKeyBytes_def Let_def frames_after_def)
qed

text \<open>What the main induction shows of a tree.\<close>

definition tree_charged :: "json \<Rightarrow> bool" where
  "tree_charged t \<longleftrightarrow> (\<forall>s. limits_ok s \<longrightarrow>
     charged (frames_after s) s (length (leaves t)) (key_bytes (fst (NextKeyBytes s)) (leaves t))
       (json_depth t) (nul_in_key t) (run_events limit_event s (events_of t)))"

lemma tree_chargedD:
  "tree_charged t \<Longrightarrow> limits_ok s \<Longrightarrow> frames_after s = fr \<Longrightarrow> fst (NextKeyBytes s) = k \<Longrightarrow>
     charged fr s (length (leaves t)) (key_bytes k (leaves t)) (json_depth t) (nul_in_key t)
       (run_events limit_event s (events_of t))"
  by (auto simp: tree_charged_def)

lemma elements_charged:
  assumes "xs \<noteq> []" "\<forall>x \<in> set xs. tree_charged x" "limits_ok s"
    and "take (depth s) (frames s) = fs @ [\<lparr>isArray = True, nextIndex = i, prefixBytes = k\<rparr>]"
  shows "charged (fs @ [\<lparr>isArray = True, nextIndex = i + length xs, prefixBytes = k\<rparr>]) s
      (length (below_indices i (map leaves xs))) (key_bytes k (below_indices i (map leaves xs)))
      (Max (insert 0 (set (map json_depth xs)))) (\<exists>x \<in> set xs. nul_in_key x)
      (run_events limit_event s (concat (map events_of xs)))"
  using assms
proof (induction xs arbitrary: s i rule: list_nonempty_induct)
  case (single x)
  show ?case
    using tree_chargedD [OF _ single(2) NextKeyBytes_array(2,1) [OF single(2,3)], of x] single(1) by simp
next
  case (cons x xs)
  let ?fr = "fs @ [\<lparr>isArray = True, nextIndex = Suc i, prefixBytes = k\<rparr>]"
  have "charged ?fr s (length (leaves x)) (key_bytes (k + 1 + length (to_string i)) (leaves x)) (json_depth x)
      (nul_in_key x) (run_events limit_event s (events_of x))"
    using tree_chargedD [OF _ cons.prems(2) NextKeyBytes_array(2,1) [OF cons.prems(2,3)], of x] cons.prems(1) by simp
  moreover have "charged (fs @ [\<lparr>isArray = True, nextIndex = Suc i + length xs, prefixBytes = k\<rparr>]) s'
      (length (below_indices (Suc i) (map leaves xs))) (key_bytes k (below_indices (Suc i) (map leaves xs)))
      (Max (insert 0 (set (map json_depth xs)))) (\<exists>x \<in> set xs. nul_in_key x)
      (run_events limit_event s' (concat (map events_of xs)))"
    if "advanced ?fr s n b s'" for n b s'
    by (rule cons.IH) (use that cons.prems in \<open>simp_all add: advanced_def\<close>)
  ultimately have "charged (fs @ [\<lparr>isArray = True, nextIndex = Suc i + length xs, prefixBytes = k\<rparr>]) s
      (length (leaves x) + length (below_indices (Suc i) (map leaves xs)))
      (key_bytes (k + 1 + length (to_string i)) (leaves x) + key_bytes k (below_indices (Suc i) (map leaves xs)))
      (max (json_depth x) (Max (insert 0 (set (map json_depth xs))))) (nul_in_key x \<or> (\<exists>x \<in> set xs. nul_in_key x))
      (run_events limit_event s (events_of x @ concat (map events_of xs)))"
    by (rule charged_compose)
  then show ?case by (simp only: list.map Max_insert0_Cons) simp
qed

lemma field_charged:
  assumes "tree_charged (snd f)" "limits_ok s"
    and "take (depth s) (frames s) = fs @ [\<lparr>isArray = False, nextIndex = i, prefixBytes = k\<rparr>]"
  shows "charged (fs @ [\<lparr>isArray = False, nextIndex = i, prefixBytes = k\<rparr>]) s
      (length (leaves (snd f))) (key_bytes k (below (fst f) (leaves (snd f))))
      (json_depth (snd f)) (NUL \<in> set (fst f) \<or> nul_in_key (snd f))
      (run_events limit_event s (field_events f))"
proof (cases "NUL \<in> set (fst f)")
  case True
  then show ?thesis
    by (simp add: field_events_def key_event_def Let_def limit_defs charged_def broken_def)
next
  case False
  let ?s = "s\<lparr>previousEventOpenedContainer := False, pendingTokenBytes := length (escape_token (fst f))\<rparr>"
  have s: "limits_ok ?s" "take (depth ?s) (frames ?s) = fs @ [\<lparr>isArray = False, nextIndex = i, prefixBytes = k\<rparr>]"
    using assms(2,3) by (simp_all add: limits_ok_def)
  from tree_chargedD [OF assms(1) s(1) NextKeyBytes_object(2,1) [OF s]]
  have "charged (fs @ [\<lparr>isArray = False, nextIndex = i, prefixBytes = k\<rparr>]) s
      (length (leaves (snd f))) (key_bytes k (below (fst f) (leaves (snd f))))
      (json_depth (snd f)) (nul_in_key (snd f)) (run_events limit_event ?s (events_of (snd f)))"
    using charged_cong [of ?s s] by simp
  then show ?thesis using False
    by (simp add: field_events_def key_event_def Let_def pending_escape)
qed

lemma fields_charged:
  assumes "gs \<noteq> []" "\<forall>f \<in> set gs. tree_charged (snd f)" "limits_ok s"
    and "take (depth s) (frames s) = fs @ [\<lparr>isArray = False, nextIndex = i, prefixBytes = k\<rparr>]"
  shows "charged (fs @ [\<lparr>isArray = False, nextIndex = i, prefixBytes = k\<rparr>]) s
      (length (concat (map (\<lambda>f. below (fst f) (leaves (snd f))) gs)))
      (key_bytes k (concat (map (\<lambda>f. below (fst f) (leaves (snd f))) gs)))
      (Max (insert 0 (set (map (\<lambda>f. json_depth (snd f)) gs)))) (\<exists>f \<in> set gs. NUL \<in> set (fst f) \<or> nul_in_key (snd f))
      (run_events limit_event s (concat (map field_events gs)))"
  using assms
proof (induction gs arbitrary: s rule: list_nonempty_induct)
  case (single f)
  show ?case using field_charged [OF _ single(2,3), of f] single(1) by simp
next
  case (cons f gs)
  let ?fr = "fs @ [\<lparr>isArray = False, nextIndex = i, prefixBytes = k\<rparr>]"
  have "charged ?fr s (length (leaves (snd f))) (key_bytes k (below (fst f) (leaves (snd f))))
      (json_depth (snd f)) (NUL \<in> set (fst f) \<or> nul_in_key (snd f)) (run_events limit_event s (field_events f))"
    by (rule field_charged) (use cons.prems in simp_all)
  moreover have "charged ?fr s' (length (concat (map (\<lambda>f. below (fst f) (leaves (snd f))) gs)))
      (key_bytes k (concat (map (\<lambda>f. below (fst f) (leaves (snd f))) gs)))
      (Max (insert 0 (set (map (\<lambda>f. json_depth (snd f)) gs)))) (\<exists>f \<in> set gs. NUL \<in> set (fst f) \<or> nul_in_key (snd f))
      (run_events limit_event s' (concat (map field_events gs)))"
    if "advanced ?fr s n b s'" for n b s'
    by (rule cons.IH) (use that cons.prems in \<open>simp_all add: advanced_def\<close>)
  ultimately have "charged ?fr s
      (length (leaves (snd f)) + length (concat (map (\<lambda>f. below (fst f) (leaves (snd f))) gs)))
      (key_bytes k (below (fst f) (leaves (snd f))) + key_bytes k (concat (map (\<lambda>f. below (fst f) (leaves (snd f))) gs)))
      (max (json_depth (snd f)) (Max (insert 0 (set (map (\<lambda>f. json_depth (snd f)) gs)))))
      ((NUL \<in> set (fst f) \<or> nul_in_key (snd f)) \<or> (\<exists>f \<in> set gs. NUL \<in> set (fst f) \<or> nul_in_key (snd f)))
      (run_events limit_event s (field_events f @ concat (map field_events gs)))"
    by (rule charged_compose)
  then show ?case by (simp only: list.map Max_insert0_Cons) simp
qed

lemma opened_top:
  assumes "limits_ok s" "Open array s = (True, s2)"
  shows "limits_ok s2" "take (depth s2) (frames s2) =
    frames_after s @ [\<lparr>isArray = array, nextIndex = 0, prefixBytes = fst (NextKeyBytes s)\<rparr>]"
proof -
  obtain k s1 where nk: "NextKeyBytes s = (k, s1)" by force
  note s2 = Open_opened [OF assms(1) nk assms(2)]
  show "limits_ok s2" by (rule s2)
  have "depth s < length (frames s2)" using s2(1,2) by (simp add: limits_ok_def)
  then show "take (depth s2) (frames s2) =
    frames_after s @ [\<lparr>isArray = array, nextIndex = 0, prefixBytes = fst (NextKeyBytes s)\<rparr>]"
    using s2 nk by (simp add: take_Suc_conv_app_nth)
qed

lemma leaf_tree_charged:
  assumes "\<And>s. run_events limit_event s (events_of t) = (case Leaf s of (b, s') \<Rightarrow> if b then (True, s') else (False, s'))"
    and "leaves t = [([], t)]" "json_depth t = 0" "\<not> nul_in_key t"
  shows "tree_charged t"
proof -
  have "run_events limit_event s (events_of t) = Leaf s" for s
    using assms(1) [of s] by (auto split: prod.splits)
  then show ?thesis
    using Leaf_charged [OF _ prod.collapse [symmetric]] assms(2-) by (simp add: tree_charged_def)
qed

lemma tree_charged: "tree_charged t"
proof (induction t)
  case (JArray xs)
  show ?case unfolding tree_charged_def
  proof (intro allI impI)
    fix s assume s: "limits_ok s"
    note key = prod.collapse [of "NextKeyBytes s", symmetric]
    show "charged (frames_after s) s (length (leaves (JArray xs))) (key_bytes (fst (NextKeyBytes s)) (leaves (JArray xs)))
       (json_depth (JArray xs)) (nul_in_key (JArray xs)) (run_events limit_event s (events_of (JArray xs)))"
    proof (cases "xs = []")
      case True
      with empty_container_charged [OF s key, of EvStartArray True EvEndArray] show ?thesis by simp
    next
      case False
      have "charged (frames_after s @ [\<lparr>isArray = True, nextIndex = 0 + length xs, prefixBytes = fst (NextKeyBytes s)\<rparr>]) s2
          (length (below_indices 0 (map leaves xs))) (key_bytes (fst (NextKeyBytes s)) (below_indices 0 (map leaves xs)))
          (Max (insert 0 (set (map json_depth xs)))) (\<exists>x \<in> set xs. nul_in_key x)
          (run_events limit_event s2 (concat (map events_of xs)))" if "Open True s = (True, s2)" for s2
        by (rule elements_charged) (use False JArray opened_top [OF s that] in auto)
      from full_container_charged [OF s key _ _ this, where ev = EvStartArray and ev' = EvEndArray] False
      show ?thesis by simp
    qed
  qed
next
  case (JObject fs)
  have IH: "\<forall>f \<in> set fs. tree_charged (snd f)" using JObject by (auto simp: snds.simps)
  show ?case unfolding tree_charged_def
  proof (intro allI impI)
    fix s assume s: "limits_ok s"
    note key = prod.collapse [of "NextKeyBytes s", symmetric]
    show "charged (frames_after s) s (length (leaves (JObject fs))) (key_bytes (fst (NextKeyBytes s)) (leaves (JObject fs)))
       (json_depth (JObject fs)) (nul_in_key (JObject fs)) (run_events limit_event s (events_of (JObject fs)))"
    proof (cases "fs = []")
      case True
      with empty_container_charged [OF s key, of EvStartObject False EvEndObject] show ?thesis by simp
    next
      case False
      let ?below = "concat (map (\<lambda>f. below (fst f) (leaves (snd f))) fs)"
      have "charged (frames_after s @ [\<lparr>isArray = False, nextIndex = 0, prefixBytes = fst (NextKeyBytes s)\<rparr>]) s2
          (length ?below) (key_bytes (fst (NextKeyBytes s)) ?below)
          (Max (insert 0 (set (map (\<lambda>f. json_depth (snd f)) fs)))) (\<exists>f \<in> set fs. NUL \<in> set (fst f) \<or> nul_in_key (snd f))
          (run_events limit_event s2 (concat (map field_events fs)))" if "Open False s = (True, s2)" for s2
        by (rule fields_charged) (use False IH opened_top [OF s that] in auto)
      from full_container_charged [OF s key _ _ this, where ev = EvStartObject and ev' = EvEndObject] False
      show ?thesis by (simp add: field_events_def [abs_def])
    qed
  qed
qed (simp_all add: leaf_tree_charged split_beta)

text \<open>The limits of a whole text, stated on its tree.\<close>

definition within_limits :: "json \<Rightarrow> bool" where
  "within_limits t \<longleftrightarrow> json_depth t \<le> kMaxJsonDepth \<and> length (leaves t) \<le> kMaxFlatEntries \<and>
     key_bytes 0 (leaves t) \<le> kMaxFlatKeyBytes \<and> \<not> nul_in_key t"

lemma limits_ok_start: "limits_ok LimitCheckingSax"
  by (simp add: limits_ok_def LimitCheckingSax_def)

lemma checker_charged:
  "charged [] LimitCheckingSax (length (leaves t)) (key_bytes 0 (leaves t)) (json_depth t) (nul_in_key t)
     (run_events limit_event LimitCheckingSax (events_of t))"
  by (rule tree_chargedD [OF tree_charged limits_ok_start])
    (simp_all add: frames_after_def NextKeyBytes_def LimitCheckingSax_def)

lemma checker_accepts_iff:
  "fst (run_events limit_event LimitCheckingSax (events_of t)) \<longleftrightarrow> within_limits t"
  using checker_charged [of t]
  by (auto simp: charged_def advanced_def limits_ok_def broken_def within_limits_def LimitCheckingSax_def split: if_splits)

lemma fst_True_iff: "fst r \<longleftrightarrow> (\<exists>s. r = (True, s))"
  by (cases r) simp

theorem limit_sax_accepts_iff:
  "fst (sax_parse limit_sax toks LimitCheckingSax) \<longleftrightarrow>
     (\<exists>t rest. finite_floats t \<and> toks = value_tokens t @ rest \<and> at_end rest \<and> within_limits t)"
proof -
  have "fst (sax_parse limit_sax toks LimitCheckingSax) \<longleftrightarrow> (\<exists>s'. sax_parse limit_sax toks LimitCheckingSax = (True, s'))"
    by (metis fst_conv prod.collapse)
  also have "\<dots> \<longleftrightarrow> (\<exists>t rest. finite_floats t \<and> toks = value_tokens t @ rest \<and> at_end rest \<and>
      fst (run_events limit_event LimitCheckingSax (events_of t)))"
    by (subst sax_parse_True_iff) (simp_all add: limit_sax_def fst_True_iff, blast)
  finally show ?thesis by (simp only: checker_accepts_iff)
qed

text \<open>A rejected tree is rejected for a limit it breaks.\<close>

theorem limit_sax_failure:
  assumes "finite_floats t" "at_end rest" "\<not> within_limits t"
  shows "broken LimitCheckingSax (length (leaves t)) (key_bytes 0 (leaves t)) (json_depth t) (nul_in_key t)
    (failure (snd (sax_parse limit_sax (value_tokens t @ rest) LimitCheckingSax)))"
proof -
  obtain s' where run: "run_events limit_event LimitCheckingSax (events_of t) = (False, s')"
    using checker_accepts_iff [of t] assms(3) by (metis fst_conv prod.collapse)
  with sax_parse_internal_tree [OF assms(1), where sax = limit_sax and s = LimitCheckingSax and rest = rest]
  obtain r where "sax_parse_internal limit_sax (value_tokens t @ rest) LimitCheckingSax = (False, r, s')"
    by (auto simp: limit_sax_def)
  then have "snd (sax_parse limit_sax (value_tokens t @ rest) LimitCheckingSax) = s'"
    by (simp add: sax_parse_def)
  with checker_charged [of t] run show ?thesis by (simp add: charged_def)
qed

text \<open>Any other text is a parse error, whatever limits its beginning keeps.\<close>

definition limit_failures :: "status set" where
  "limit_failures = {ParseError, NestingTooDeep, TooManyEntries, KeyTextTooLarge}"

lemma limit_failures_mem [simp]:
  "ParseError \<in> limit_failures" "NestingTooDeep \<in> limit_failures"
  "TooManyEntries \<in> limit_failures" "KeyTextTooLarge \<in> limit_failures"
  by (simp_all add: limit_failures_def)

definition checker_safe :: "limits \<Rightarrow> bool" where
  "checker_safe s \<longleftrightarrow> limits_ok s \<and> failure s \<in> limit_failures"

lemma NextKeyBytes_safe [simp]:
  "checker_safe (snd (NextKeyBytes s)) = checker_safe s" "depth (snd (NextKeyBytes s)) = depth s"
  by (simp_all add: NextKeyBytes_def Let_def checker_safe_def limits_ok_def)

lemma CountAndAdd_safe: "checker_safe s \<Longrightarrow> checker_safe (snd (CountAndAdd k s))"
  by (auto simp: limit_defs checker_safe_def limits_ok_def)

lemma checker_safe_update [simp]:
  "checker_safe (s\<lparr>previousEventOpenedContainer := b\<rparr>) = checker_safe s"
  "checker_safe (s\<lparr>pendingTokenBytes := n\<rparr>) = checker_safe s"
  "st \<in> limit_failures \<Longrightarrow> checker_safe s \<Longrightarrow> checker_safe (s\<lparr>failure := st\<rparr>)"
  by (simp_all add: checker_safe_def limits_ok_def)

lemma limit_event_safe: "checker_safe s \<Longrightarrow> checker_safe (snd (limit_event s ev))"
proof -
  assume s: "checker_safe s"
  have "checker_safe (snd (Leaf s))"
    using s by (simp add: Leaf_def split_beta CountAndAdd_safe)
  moreover have "checker_safe (snd (Open array s))" for array
  proof (cases "depth s < kMaxJsonDepth")
    case True
    have "checker_safe (snd (NextKeyBytes s))" using s by simp
    with True show ?thesis by (simp add: Open_def split_beta checker_safe_def limits_ok_def)
  qed (use s in \<open>simp add: Open_def Reject_def\<close>)
  moreover have "checker_safe (snd (Close s))"
  proof -
    have "checker_safe (s\<lparr>previousEventOpenedContainer := False, depth := depth s - 1\<rparr>)"
      using s by (auto simp: checker_safe_def limits_ok_def)
    then show ?thesis by (simp add: Close_def Let_def CountAndAdd_safe)
  qed
  moreover have "checker_safe (snd (key_event name s))" for name
    using s by (simp add: key_event_def Let_def Reject_def)
  ultimately show ?thesis by (cases ev) simp_all
qed

fun flow_state :: "'s flow \<Rightarrow> 's" where
  "flow_state (Return b rest s) = s"
| "flow_state (Continue tok rest states s) = s"
| "flow_state (Evaluate rest states s) = s"

lemma emit_state:
  assumes "\<And>s ev. P s \<Longrightarrow> P (snd (on_event sax s ev))" "P s" "\<And>s. P s \<Longrightarrow> P (flow_state (k s))"
  shows "P (flow_state (emit sax ev rest s k))"
proof (cases "on_event sax s ev")
  case (Pair b s')
  then have "P s'" using assms(1) [OF assms(2), of ev] by simp
  with Pair show ?thesis using assms(3) [of s'] by (cases b) (simp_all only: emit_def prod.case if_True if_False flow_state.simps)
qed

lemma flow_invariant:
  assumes ev: "\<And>s ev. P s \<Longrightarrow> P (snd (on_event sax s ev))" and err: "\<And>s. P s \<Longrightarrow> P (snd (on_error sax s))"
    and "P s"
  shows "P (flow_state (parse_value sax tok rest states s))" "P (flow_state (evaluate_state sax rest states s))"
proof -
  have error: "P s \<Longrightarrow> P (flow_state (parse_error sax rest s))" for rest s
    using err [of s] by (cases "on_error sax s") (simp add: parse_error_def)
  note emit = emit_state [of P sax, OF ev]
  have key: "P s \<Longrightarrow> P (flow_state (parse_key sax tok rest states s))" for tok rest states s
    by (auto simp: parse_key_def error intro!: emit split: token.split prod.split)
  show "P (flow_state (parse_value sax tok rest states s))"
    using assms(3) by (auto simp: parse_value_def error key intro!: emit split: token.split prod.split)
  show "P (flow_state (evaluate_state sax rest states s))"
    using assms(3) by (auto simp: evaluate_state_def error key intro!: emit split: list.split bool.split prod.split)
qed

text \<open>What every callback keeps, the parser loop keeps.\<close>

lemma sax_loop_invariant:
  assumes "\<And>s ev. P s \<Longrightarrow> P (snd (on_event sax s ev))" "\<And>s. P s \<Longrightarrow> P (snd (on_error sax s))"
    and "P (flow_state flow)"
  shows "P (snd (snd (sax_loop sax flow)))"
  using assms
proof (induction sax flow rule: sax_loop.induct)
  case (2 sax tok rest states s)
  have "P (flow_state (parse_value sax tok rest states s))"
    by (rule flow_invariant(1)) (use "2.prems" in \<open>simp_all only: flow_state.simps\<close>)
  with "2.IH" "2.prems"(1,2) show ?case by (simp only: sax_loop.simps(2))
next
  case (3 sax rest states s)
  have "P (flow_state (evaluate_state sax rest states s))"
    by (rule flow_invariant(2)) (use "3.prems" in \<open>simp_all only: flow_state.simps\<close>)
  with "3.IH" "3.prems"(1,2) show ?case by (simp only: sax_loop.simps(3))
qed simp

theorem checker_safe_always:
  "checker_safe (snd (sax_parse limit_sax toks LimitCheckingSax))"
proof -
  have start: "checker_safe LimitCheckingSax"
    using limits_ok_start by (simp add: checker_safe_def LimitCheckingSax_def)
  have "checker_safe (snd (snd (sax_parse_internal limit_sax toks LimitCheckingSax)))"
    unfolding sax_parse_internal_def case_prod_unfold
    by (rule sax_loop_invariant [where P = checker_safe]) (simp_all add: limit_sax_def limit_event_safe start)
  then show ?thesis by (auto simp: sax_parse_def limit_sax_def split: prod.splits)
qed

section \<open>Properties\<close>

text \<open>C7: The limit check that runs before any document is built accepts exactly the JSON texts whose
  nesting, number of leaves and total key bytes are within the limits and whose keys hold no
  NUL: its running counters are the contents of the tree.\<close>
theorem limit_check_exact:
  "fst (sax_parse limit_sax toks LimitCheckingSax) \<longleftrightarrow> (\<exists>t. tree_of toks t \<and> within_limits t)"
  by (auto simp: limit_sax_accepts_iff tree_of_def)

text \<open>A JSON text that breaks limits is rejected with the status of a limit it really breaks.\<close>
theorem limit_check_names_limit:
  assumes "tree_of toks t" "\<not> within_limits t"
  shows "broken LimitCheckingSax (length (leaves t)) (key_bytes 0 (leaves t)) (json_depth t) (nul_in_key t)
    (failure (snd (sax_parse limit_sax toks LimitCheckingSax)))"
  using assms limit_sax_failure by (auto simp: tree_of_def)

theorem limit_check_names_limit_witness:
  "failure (snd (sax_parse limit_sax
     [BeginObject, ValueString [NUL], NameSeparator, LiteralNull, EndObject] LimitCheckingSax)) = ParseError"
proof -
  let ?t = "JObject [([NUL], JNull)]"
  have "tree_of [BeginObject, ValueString [NUL], NameSeparator, LiteralNull, EndObject] ?t"
    by (simp add: tree_of_def at_end_def get_token_def)
  moreover have "\<not> within_limits ?t" by (simp add: within_limits_def)
  ultimately have "broken LimitCheckingSax (length (leaves ?t)) (key_bytes 0 (leaves ?t)) (json_depth ?t) (nul_in_key ?t)
      (failure (snd (sax_parse limit_sax
        [BeginObject, ValueString [NUL], NameSeparator, LiteralNull, EndObject] LimitCheckingSax)))"
    by (rule limit_check_names_limit)
  then show ?thesis
    by (auto simp: broken_def LimitCheckingSax_def kMaxJsonDepth_def kMaxFlatEntries_def kMaxFlatKeyBytes_def key_bytes_def)
qed

text \<open>Whatever tokens it reads, the checker stays inside its frame array and its counters stay
  within the limits, and it never reports success as its failure.\<close>
theorem limit_checker_bounds:
  "checker_safe (snd (sax_parse limit_sax toks LimitCheckingSax))"
  by (rule checker_safe_always)

end
