(* ===== verification/Json_Quotes.thy ===== *)
theory Json_Quotes
  imports Status
begin

text \<open>
  \<open>src/mapping/json-quotes.cpp\<close>: the rewriting of apostrophe-quoted JSON strings to
  double-quoted ones. The specification side is a text seen as pieces, plain text and strings,
  which can be written in either notation.
\<close>

section \<open>The scanner\<close>

datatype scan = Outside | DoubleQuoted | Apostrophe

abbreviation (input) quot :: char where "quot \<equiv> CHR 0x22"
abbreviation (input) apos :: char where "apos \<equiv> CHR 0x27"
abbreviation (input) bslash :: char where "bslash \<equiv> CHR 0x5C"

text \<open>The loop over the input from one position on: what it appends to \<open>out\<close>.\<close>

fun convert_from :: "scan \<Rightarrow> string \<Rightarrow> string" where
  "convert_from state [] = []"
| "convert_from Outside (c # cs) =
     (if c = apos then quot # convert_from Apostrophe cs
      else c # convert_from (if c = quot then DoubleQuoted else Outside) cs)"
| "convert_from DoubleQuoted (c # cs) =
     (if c = bslash \<and> cs \<noteq> [] then c # hd cs # convert_from DoubleQuoted (tl cs)
      else c # convert_from (if c = quot then Outside else DoubleQuoted) cs)"
| "convert_from Apostrophe (c # cs) =
     (if c = bslash \<and> cs \<noteq> [] then
        (if hd cs = apos then apos # convert_from Apostrophe (tl cs)
         else c # hd cs # convert_from Apostrophe (tl cs))
      else if c = apos then quot # convert_from Outside cs
      else if c = quot then bslash # quot # convert_from Apostrophe cs
      else c # convert_from Apostrophe cs)"

definition ConvertApostropheStrings :: "string \<Rightarrow> status \<times> string" where
  "ConvertApostropheStrings s = (Ok, convert_from Outside s)"

section \<open>Texts without apostrophe strings\<close>

text \<open>No apostrophe outside double-quoted strings.\<close>

fun standard_from :: "bool \<Rightarrow> string \<Rightarrow> bool" where
  "standard_from inside [] = True"
| "standard_from False (c # cs) = (c \<noteq> apos \<and> standard_from (c = quot) cs)"
| "standard_from True (c # cs) =
     (if c = bslash \<and> cs \<noteq> [] then standard_from True (tl cs) else standard_from (c \<noteq> quot) cs)"

lemma convert_standard:
  "st \<noteq> Apostrophe \<Longrightarrow> standard_from (st = DoubleQuoted) s \<Longrightarrow> convert_from st s = s"
  by (induction st s rule: convert_from.induct) (auto split: if_splits)

lemma no_apostrophe_standard: "apos \<notin> set s \<Longrightarrow> standard_from b s"
  by (induction b s rule: standard_from.induct) (auto dest: in_set_tl)

text \<open>The output is a standard text: converting it again changes nothing.\<close>

lemma standard_convert: "standard_from (st \<noteq> Outside) (convert_from st s)"
  by (induction st s rule: convert_from.induct) auto

lemma convert_idempotent: "convert_from Outside (convert_from Outside s) = convert_from Outside s"
  using convert_standard [of Outside] standard_convert [of Outside s] by simp

lemma length_convert: "length (convert_from st s) \<le> 2 * length s"
  by (induction st s rule: convert_from.induct) auto

lemma set_convert: "x \<in> set (convert_from st s) \<Longrightarrow> x \<in> set s \<or> x = quot \<or> x = bslash"
  by (induction st s rule: convert_from.induct) (auto split: if_splits dest: in_set_tl hd_in_set)

section \<open>Two notations for one text\<close>

text \<open>
  A character of a string: the two quote characters, any other character that stands for
  itself, and an escape that is neither an escaped quote nor (in apostrophe strings) an escaped
  apostrophe.
\<close>

datatype schar = Quote | Apos | Plain char | Escape char

fun schar_ok :: "schar \<Rightarrow> bool" where
  "schar_ok (Plain c) = (c \<noteq> quot \<and> c \<noteq> apos \<and> c \<noteq> bslash)"
| "schar_ok (Escape c) = (c \<noteq> apos)"
| "schar_ok _ = True"

fun dq_char :: "schar \<Rightarrow> string" where
  "dq_char Quote = [bslash, quot]"
| "dq_char Apos = [apos]"
| "dq_char (Plain c) = [c]"
| "dq_char (Escape c) = [bslash, c]"

fun ap_char :: "schar \<Rightarrow> string" where
  "ap_char Quote = [quot]"
| "ap_char Apos = [bslash, apos]"
| "ap_char (Plain c) = [c]"
| "ap_char (Escape c) = [bslash, c]"

text \<open>A text is plain parts and strings, each string in the notation its flag chooses.\<close>

datatype piece = Text string | Str bool "schar list"

fun piece_ok :: "piece \<Rightarrow> bool" where
  "piece_ok (Text s) = (quot \<notin> set s \<and> apos \<notin> set s)"
| "piece_ok (Str b cs) = list_all schar_ok cs"

fun dq_piece :: "piece \<Rightarrow> string" where
  "dq_piece (Text s) = s"
| "dq_piece (Str b cs) = quot # concat (map dq_char cs) @ [quot]"

fun mixed_piece :: "piece \<Rightarrow> string" where
  "mixed_piece (Text s) = s"
| "mixed_piece (Str True cs) = apos # concat (map ap_char cs) @ [apos]"
| "mixed_piece (Str False cs) = quot # concat (map dq_char cs) @ [quot]"

lemma convert_text:
  "quot \<notin> set s \<Longrightarrow> apos \<notin> set s \<Longrightarrow> convert_from Outside (s @ r) = s @ convert_from Outside r"
  by (induction s) auto

lemma convert_ap:
  "list_all schar_ok cs \<Longrightarrow>
     convert_from Apostrophe (concat (map ap_char cs) @ apos # r)
       = concat (map dq_char cs) @ quot # convert_from Outside r"
proof (induction cs)
  case (Cons c cs)
  then show ?case by (cases c) auto
qed simp

lemma convert_dq:
  "list_all schar_ok cs \<Longrightarrow>
     convert_from DoubleQuoted (concat (map dq_char cs) @ quot # r)
       = concat (map dq_char cs) @ quot # convert_from Outside r"
proof (induction cs)
  case (Cons c cs)
  then show ?case by (cases c) auto
qed simp

lemma convert_pieces:
  "list_all piece_ok ps \<Longrightarrow>
     convert_from Outside (concat (map mixed_piece ps) @ r)
       = concat (map dq_piece ps) @ convert_from Outside r"
proof (induction ps)
  case (Cons p ps)
  then show ?case
    by (cases p rule: mixed_piece.cases) (simp_all add: convert_text convert_ap convert_dq)
qed simp

section \<open>Properties\<close>

text \<open>C37: Converting a text that mixes apostrophe strings and double-quoted strings gives the same
  text with every string in double quotes and its characters escaped accordingly.\<close>
theorem apostrophe_strings_convert:
  assumes "list_all piece_ok ps"
  shows "ConvertApostropheStrings (concat (map mixed_piece ps)) = (Ok, concat (map dq_piece ps))"
  using convert_pieces [OF assms, of "[]"] by (simp add: ConvertApostropheStrings_def)

theorem apostrophe_strings_convert_witness:
  "ConvertApostropheStrings (''{'' @ [apos, CHR ''k'', quot, bslash, apos, apos] @ '':1}'')
     = (Ok, ''{'' @ [quot, CHR ''k'', bslash, quot, apos, quot] @ '':1}'')"
  using apostrophe_strings_convert [of "[Text ''{'', Str True [Plain (CHR ''k''), Quote, Apos], Text '':1}'']"]
  by simp

text \<open>A converted text is standard JSON notation: converting it again changes nothing.\<close>
theorem conversion_idempotent:
  "ConvertApostropheStrings (snd (ConvertApostropheStrings s)) = ConvertApostropheStrings s"
  by (simp add: ConvertApostropheStrings_def convert_idempotent)

end
