(* ===== verification/Type_Conversion.thy ===== *)
theory Type_Conversion
  imports Json_Value
begin

text \<open>
  \<open>src/core/type-conversion.cpp\<close>: the strict typed accessors of a JSON value and the leaf
  stringifier. Every function returns its status and the new contents of its out-parameter.
  \<open>dtoa\<close> stands for the shortest round-trip text the JSON library prints for a finite
  \<open>double\<close>; nothing is assumed of it.
\<close>

section \<open>The typed accessors\<close>

definition int32_min :: int where "int32_min = - (2 ^ 31)"
definition int32_max :: int where "int32_max = 2 ^ 31 - 1"

lemmas int32_defs = int32_min_def int32_max_def

fun ToLong :: "json \<Rightarrow> i32 \<Rightarrow> status \<times> i32" where
  "ToLong JNull out = (NullValue, out)"
| "ToLong (JUInt raw) out =
     (if uint raw > int32_max then (NumericOverflow, out) else (Ok, ucast raw))"
| "ToLong (JInt raw) out =
     (if sint raw < int32_min \<or> sint raw > int32_max then (NumericOverflow, out)
      else (Ok, of_int (sint raw)))"
| "ToLong (JFloat bits) out =
     (let raw = decode_f64 bits; truncated = fp_trunc raw
      in if \<not> fp_eq raw truncated then (NotIntegral, out)
         else if fp_less truncated (fp_of_int int32_min) \<or> fp_less (fp_of_int int32_max) truncated
              then (NumericOverflow, out)
         else (Ok, of_int (fp_to_int truncated)))"
| "ToLong _ out = (TypeMismatch, out)"

text \<open>\<open>value.get<double>()\<close> converts an integer, and copies a float.\<close>

fun ToDouble :: "json \<Rightarrow> f64 \<Rightarrow> status \<times> f64" where
  "ToDouble JNull out = (NullValue, out)"
| "ToDouble (JUInt raw) out = (Ok, f64_of_int (uint raw))"
| "ToDouble (JInt raw) out = (Ok, f64_of_int (sint raw))"
| "ToDouble (JFloat bits) out = (Ok, bits)"
| "ToDouble _ out = (TypeMismatch, out)"

fun ToBool :: "json \<Rightarrow> bool \<Rightarrow> status \<times> bool" where
  "ToBool JNull out = (NullValue, out)"
| "ToBool (JBool b) out = (Ok, b)"
| "ToBool _ out = (TypeMismatch, out)"

fun ToText :: "json \<Rightarrow> string \<Rightarrow> status \<times> string" where
  "ToText JNull out = (NullValue, out)"
| "ToText (JString s) out = (Ok, s)"
| "ToText _ out = (TypeMismatch, out)"

text \<open>\<open>value.dump()\<close> of a boolean or a number; a non-finite float is printed as \<open>null\<close>.\<close>

fun dump_scalar :: "(f64 \<Rightarrow> string) \<Rightarrow> json \<Rightarrow> string" where
  "dump_scalar dtoa (JBool b) = (if b then ''true'' else ''false'')"
| "dump_scalar dtoa (JUInt raw) = to_string (unat raw)"
| "dump_scalar dtoa (JInt raw) = int_to_string (sint raw)"
| "dump_scalar dtoa (JFloat bits) = (if is_finite_fp (decode_f64 bits) then dtoa bits else ''null'')"
| "dump_scalar dtoa _ = []"

fun ValueToText :: "(f64 \<Rightarrow> string) \<Rightarrow> json \<Rightarrow> string \<Rightarrow> status \<times> string" where
  "ValueToText dtoa JNull out = (Ok, ''null'')"
| "ValueToText dtoa (JString s) out = (Ok, s)"
| "ValueToText dtoa (JArray xs) out = (TypeMismatch, out)"
| "ValueToText dtoa (JObject fs) out = (TypeMismatch, out)"
| "ValueToText dtoa v out = (Ok, dump_scalar dtoa v)"

section \<open>What the accessors promise\<close>

text \<open>The exact number a JSON value denotes, if it is a finite number.\<close>

fun json_number :: "json \<Rightarrow> real option" where
  "json_number (JInt raw) = Some (of_int (sint raw))"
| "json_number (JUInt raw) = Some (of_int (uint raw))"
| "json_number (JFloat bits) =
     (if is_finite_fp (decode_f64 bits) then Some (fp_val (decode_f64 bits)) else None)"
| "json_number _ = None"

lemma sint_of_int32 [simp]:
  "int32_min \<le> z \<Longrightarrow> z \<le> int32_max \<Longrightarrow> sint (of_int z :: i32) = z"
  by (simp add: int32_defs sint_sbintrunc' signed_take_bit_int_eq_self)

lemma ToLong_float:
  assumes "decode_f64 bits = FpFin s m e"
  defines "r \<equiv> fp_val (FpFin s m e)"
  shows "ToLong (JFloat bits) out =
    (if r \<notin> \<int> then (NotIntegral, out)
     else if of_int int32_min \<le> r \<and> r \<le> of_int int32_max then (Ok, of_int \<lfloor>r\<rfloor>)
     else (NumericOverflow, out))"
proof -
  let ?x = "FpFin s m e"
  obtain s' m' e' where tr: "fp_trunc ?x = FpFin s' m' e'" by (cases "0 \<le> e") auto
  have val: "fp_val (FpFin s' m' e') = of_int (fp_to_int ?x)" using fp_val_trunc [of s m e] tr by simp
  have cmp: "fp_less (fp_trunc ?x) (fp_of_int z) \<longleftrightarrow> fp_to_int ?x < z"
    "fp_less (fp_of_int z) (fp_trunc ?x) \<longleftrightarrow> z < fp_to_int ?x" for z
    using val fp_val_fp_of_int [of z] unfolding tr fp_of_int_def fp_less_iff by simp_all
  have int: "fp_to_int (fp_trunc ?x) = fp_to_int ?x" by simp
  show ?thesis
  proof (cases "r \<in> \<int>")
    case True
    then obtain z where z: "r = of_int z" by (auto elim: Ints_cases)
    then have "fp_to_int ?x = z" unfolding r_def by (rule fp_val_int_imp)
    moreover from this z have "fp_eq ?x (fp_trunc ?x)"
      unfolding fp_integral_iff r_def by (simp only:)
    ultimately show ?thesis using z assms(1) True
      by (simp add: Let_def cmp int del: fp_trunc.simps fp_eq.simps fp_to_int.simps)
  next
    case False
    then have "\<not> fp_eq ?x (fp_trunc ?x)" unfolding fp_integral_iff r_def by (metis Ints_of_int)
    with False assms(1) show ?thesis by (simp add: Let_def del: fp_trunc.simps fp_eq.simps)
  qed
qed

lemma ToLong_spec:
  assumes "json_number v = Some r"
  shows "ToLong v out =
    (if r \<notin> \<int> then (NotIntegral, out)
     else if of_int int32_min \<le> r \<and> r \<le> of_int int32_max then (Ok, of_int \<lfloor>r\<rfloor>)
     else (NumericOverflow, out))"
proof (cases v)
  case (JFloat bits)
  with assms obtain s m e where "decode_f64 bits = FpFin s m e" "r = fp_val (FpFin s m e)"
    by (auto simp: is_finite_fp_def split: if_splits fp.splits)
  with JFloat show ?thesis by (simp only: ToLong_float)
next
  case (JUInt raw)
  obtain z where z: "uint raw = z" "0 \<le> z" by simp
  have "ucast raw = (of_int z :: i32)" using z(1) by (metis of_int_uint)
  then show ?thesis using assms JUInt z
    by (auto simp: int32_defs simp del: of_int_uint)
next
  case (JInt raw)
  obtain z where "sint raw = z" by simp
  then show ?thesis using assms JInt by (auto simp: int32_defs simp del: of_int_sint)
qed (use assms in auto)

lemma accessor_failure_keeps:
  "fst (ToLong v l) \<noteq> Ok \<Longrightarrow> snd (ToLong v l) = l"
  "fst (ToDouble v d) \<noteq> Ok \<Longrightarrow> snd (ToDouble v d) = d"
  "fst (ToBool v b) \<noteq> Ok \<Longrightarrow> snd (ToBool v b) = b"
  "fst (ToText v t) \<noteq> Ok \<Longrightarrow> snd (ToText v t) = t"
  by (cases v; auto simp: Let_def split: if_splits; fail)
    (cases v; auto; fail)+

text \<open>The leaf stringifier fails on containers only.\<close>

lemma ValueToText_Ok_iff:
  "fst (ValueToText dtoa v out) = Ok \<longleftrightarrow> \<not> is_array v \<and> \<not> is_object v"
  by (cases v) (simp_all add: json_kind_defs)

section \<open>Properties\<close>

text \<open>C34: Reading a JSON number as a 32-bit integer is exact: a non-integral number is refused, an
  integral one outside the range overflows, and any other gives its value.\<close>
theorem to_long_exact:
  assumes "json_number v = Some r"
  shows "ToLong v out =
    (if r \<notin> \<int> then (NotIntegral, out)
     else if of_int int32_min \<le> r \<and> r \<le> of_int int32_max then (Ok, of_int \<lfloor>r\<rfloor>)
     else (NumericOverflow, out))"
  using assms by (rule ToLong_spec)

theorem to_long_exact_witness:
  "ToLong (JInt (- 5)) 9 = (Ok, - 5) \<and> ToLong (JUInt 2147483648) 9 = (NumericOverflow, 9)"
  using to_long_exact [of "JInt (- 5)" "- 5" 9] to_long_exact [of "JUInt 2147483648" 2147483648 9]
  by (simp add: int32_defs)

end
