(* ===== verification/Json_Flatten.thy ===== *)
theory Json_Flatten
  imports Json_Limits Json_Quotes Type_Conversion
begin

text \<open>
  \<open>src/mapping/json-flatten.cpp\<close>: the leaf description, the iterative walk over a document and
  \<open>FlattenJson\<close> itself. Two parts of the JSON library are parameters: \<open>lexer\<close>, its lexer (bytes to
  tokens), and \<open>dtoa\<close>, the text it prints for a float; nothing is assumed of them.
  The walk is shown to list exactly the leaves of the specification.
\<close>

section \<open>Entries\<close>

datatype JsonEntryType =
  EntryNone | EntryString | EntryNumber | EntryBool | EntryNull | EntryEmptyObject | EntryEmptyArray

fun entry_type_code :: "JsonEntryType \<Rightarrow> i32" where
  "entry_type_code EntryNone = 0"
| "entry_type_code EntryString = 1"
| "entry_type_code EntryNumber = 2"
| "entry_type_code EntryBool = 3"
| "entry_type_code EntryNull = 4"
| "entry_type_code EntryEmptyObject = 5"
| "entry_type_code EntryEmptyArray = 6"

record FlatEntry =
  entry_key :: string
  entry_value :: string
  entry_type :: JsonEntryType

record FlattenResult =
  document :: json
  entries :: "FlatEntry list"

text \<open>A default-constructed result: a null document without entries.\<close>

definition empty_result :: FlattenResult where
  "empty_result = \<lparr>document = JNull, entries = []\<rparr>"

definition ClassifyScalar :: "json \<Rightarrow> JsonEntryType" where
  "ClassifyScalar node =
     (if is_string node then EntryString
      else if is_number node then EntryNumber
      else if is_boolean node then EntryBool
      else if is_null node then EntryNull
      else EntryNone)"

definition DescribeLeaf ::
  "(f64 \<Rightarrow> string) \<Rightarrow> json \<Rightarrow> string \<Rightarrow> JsonEntryType \<Rightarrow> status \<times> string \<times> JsonEntryType" where
  "DescribeLeaf dtoa node str typ =
     (if is_object node \<or> is_array node then
        if json_size node \<noteq> 0 then (TypeMismatch, str, typ)
        else (Ok, if is_object node then ''{}'' else ''[]'',
                  if is_object node then EntryEmptyObject else EntryEmptyArray)
      else case ValueToText dtoa node str of
        (st, str) \<Rightarrow> if st \<noteq> Ok then (st, str, typ) else (Ok, str, ClassifyScalar node))"

definition AppendLeaf ::
  "(f64 \<Rightarrow> string) \<Rightarrow> string \<Rightarrow> json \<Rightarrow> FlatEntry list \<Rightarrow> status \<times> FlatEntry list" where
  "AppendLeaf dtoa key node es =
     (case DescribeLeaf dtoa node [] EntryNone of
        (st, str, typ) \<Rightarrow>
          if st \<noteq> Ok then (st, es)
          else (Ok, es @ [\<lparr>entry_key = key, entry_value = str, entry_type = typ\<rparr>]))"

section \<open>The walk\<close>

text \<open>
  A frame of the stack. The two iterators are the children still to visit; an array's children
  have no key. \<open>path.resize\<close> beyond the end would pad with NULs, which never happens here.
\<close>

record walk_frame =
  remaining :: "(string \<times> json) list"
  index :: nat
  prefixSize :: nat
  isObject :: bool

definition children :: "json \<Rightarrow> (string \<times> json) list" where
  "children node = (case node of JArray xs \<Rightarrow> map (Pair []) xs | JObject fs \<Rightarrow> fs | _ \<Rightarrow> [])"

definition resize :: "nat \<Rightarrow> string \<Rightarrow> string" where
  "resize n s = take n s @ replicate (n - length s) NUL"

text \<open>Termination: the nodes below the open frames.\<close>

fun weight :: "json \<Rightarrow> nat" where
  "weight (JArray xs) = 2 + sum_list (map weight xs)"
| "weight (JObject fs) = 2 + sum_list (map (\<lambda>f. weight (snd f)) fs)"
| "weight _ = 1"

definition frame_weight :: "walk_frame \<Rightarrow> nat" where
  "frame_weight fr = 1 + sum_list (map (\<lambda>f. weight (snd f)) (remaining fr))"

lemma weight_pos: "0 < weight v"
  by (cases v) simp_all

lemma weight_children:
  "IsNonEmptyContainer v \<Longrightarrow> weight v = 2 + sum_list (map (\<lambda>f. weight (snd f)) (children v))"
  by (cases v) (simp_all add: IsNonEmptyContainer_def json_kind_defs children_def comp_def)

definition child_path :: "walk_frame \<Rightarrow> string \<Rightarrow> string \<Rightarrow> string" where
  "child_path fr k path =
     (let path = resize (prefixSize fr) path @ ''/''
      in if isObject fr then AppendEscapedToken path k else path @ to_string (index fr))"

definition child_frame :: "json \<Rightarrow> string \<Rightarrow> walk_frame" where
  "child_frame node path =
     \<lparr>remaining = children node, index = 0, prefixSize = length path, isObject = is_object node\<rparr>"

function FlattenLoop ::
  "(f64 \<Rightarrow> string) \<Rightarrow> walk_frame list \<Rightarrow> string \<Rightarrow> FlatEntry list \<Rightarrow> status \<times> FlatEntry list" where
  "FlattenLoop dtoa [] path es = (Ok, es)"
| "FlattenLoop dtoa (fr # stack) path es =
     (case remaining fr of
        [] \<Rightarrow> FlattenLoop dtoa stack path es
      | (k, child) # others \<Rightarrow>
          (let path = child_path fr k path;
               fr = fr\<lparr>remaining := others, index := index fr + 1\<rparr>
           in if IsNonEmptyContainer child
              then FlattenLoop dtoa (child_frame child path # fr # stack) path es
              else case AppendLeaf dtoa path child es of
                (st, es) \<Rightarrow> if st \<noteq> Ok then (st, es) else FlattenLoop dtoa (fr # stack) path es))"
  by pat_completeness auto
termination
  by (relation "measure (\<lambda>(dtoa, stack, path, es). sum_list (map frame_weight stack))")
    (auto simp: frame_weight_def child_frame_def weight_children weight_pos)

declare FlattenLoop.simps(2) [simp del]

definition FlattenDocument ::
  "(f64 \<Rightarrow> string) \<Rightarrow> json \<Rightarrow> FlatEntry list \<Rightarrow> status \<times> FlatEntry list" where
  "FlattenDocument dtoa node es =
     (if \<not> IsNonEmptyContainer node then AppendLeaf dtoa [] node es
      else FlattenLoop dtoa [child_frame node []] [] es)"

section \<open>FlattenJson\<close>

text \<open>
  \<open>alloc_fails\<close> says that an allocation of this call fails: the exception leaves the function,
  whose output is assigned only behind the last allocation.
\<close>

definition FlattenJson ::
  "(string \<Rightarrow> token list) \<Rightarrow> (f64 \<Rightarrow> string) \<Rightarrow> bool \<Rightarrow> string \<Rightarrow> FlattenResult \<Rightarrow>
     (status \<times> FlattenResult) outcome" where
  "FlattenJson lexer dtoa alloc_fails str out =
     (if length str > kMaxJsonInputBytes then Returned (DocumentTooLarge, out)
      else if str = [] then Returned (ParseError, out)
      else if NUL \<in> set str then Returned (ParseError, out)
      else if alloc_fails then Threw
      else
        (case (if CHR 0x27 \<in> set str then ConvertApostropheStrings str else (Ok, str)) of
           (quoteStatus, str) \<Rightarrow>
             if quoteStatus \<noteq> Ok then Returned (quoteStatus, out)
             else
               (case sax_parse limit_sax (lexer str) LimitCheckingSax of
                  (accepted, sax) \<Rightarrow>
                    if \<not> accepted then Returned (failure sax, out)
                    else
                      (case dom_parse (lexer str) of
                         None \<Rightarrow> Returned (ParseError, out)
                       | Some doc \<Rightarrow>
                           (case FlattenDocument dtoa doc [] of
                              (st, es) \<Rightarrow>
                                if st \<noteq> Ok then Returned (st, out)
                                else Returned (Ok, \<lparr>document = doc, entries = es\<rparr>))))))"

section \<open>The walk lists the leaves\<close>

fun leaf_text :: "(f64 \<Rightarrow> string) \<Rightarrow> json \<Rightarrow> string" where
  "leaf_text dtoa JNull = ''null''"
| "leaf_text dtoa (JString str) = str"
| "leaf_text dtoa (JArray xs) = ''[]''"
| "leaf_text dtoa (JObject fs) = ''{}''"
| "leaf_text dtoa v = dump_scalar dtoa v"

fun leaf_type :: "json \<Rightarrow> JsonEntryType" where
  "leaf_type JNull = EntryNull"
| "leaf_type (JString str) = EntryString"
| "leaf_type (JArray xs) = EntryEmptyArray"
| "leaf_type (JObject fs) = EntryEmptyObject"
| "leaf_type (JBool b) = EntryBool"
| "leaf_type _ = EntryNumber"

lemma DescribeLeaf_spec:
  "DescribeLeaf dtoa v str typ =
     (if IsNonEmptyContainer v then (TypeMismatch, str, typ) else (Ok, leaf_text dtoa v, leaf_type v))"
  by (cases v) (auto simp: DescribeLeaf_def IsNonEmptyContainer_def ClassifyScalar_def json_kind_defs)

definition entries_at :: "(f64 \<Rightarrow> string) \<Rightarrow> string \<Rightarrow> (PathTokens \<times> json) list \<Rightarrow> FlatEntry list" where
  "entries_at dtoa pre ls = map (\<lambda>l. \<lparr>entry_key = pre @ pointer_of (fst l),
     entry_value = leaf_text dtoa (snd l), entry_type = leaf_type (snd l)\<rparr>) ls"

abbreviation flat_entries :: "(f64 \<Rightarrow> string) \<Rightarrow> json \<Rightarrow> FlatEntry list" where
  "flat_entries dtoa v \<equiv> entries_at dtoa [] (leaves v)"

lemma entries_at_append [simp]: "entries_at dtoa pre (ls @ ms) = entries_at dtoa pre ls @ entries_at dtoa pre ms"
  by (simp add: entries_at_def)

lemma entries_at_below [simp]:
  "entries_at dtoa pre (below t ls) = entries_at dtoa (pre @ CHR ''/'' # escape_token t) ls"
  by (simp add: entries_at_def below_def split_beta)

lemma AppendLeaf_leaf:
  "\<not> IsNonEmptyContainer v \<Longrightarrow> AppendLeaf dtoa path v es = (Ok, es @ entries_at dtoa path (leaves v))"
  by (cases v) (auto simp: AppendLeaf_def DescribeLeaf_spec entries_at_def IsNonEmptyContainer_def json_kind_defs)

definition frame_leaves :: "walk_frame \<Rightarrow> (PathTokens \<times> json) list" where
  "frame_leaves fr =
     (if isObject fr then concat (map (\<lambda>f. below (fst f) (leaves (snd f))) (remaining fr))
      else below_indices (index fr) (map (\<lambda>f. leaves (snd f)) (remaining fr)))"

definition frame_entries :: "(f64 \<Rightarrow> string) \<Rightarrow> string \<Rightarrow> walk_frame \<Rightarrow> FlatEntry list" where
  "frame_entries dtoa path fr = entries_at dtoa (take (prefixSize fr) path) (frame_leaves fr)"

text \<open>The open frames' prefixes are nested in the current path.\<close>

definition nested :: "string \<Rightarrow> walk_frame list \<Rightarrow> bool" where
  "nested path stack \<longleftrightarrow> sorted_wrt (\<ge>) (length path # map prefixSize stack)"

lemma frame_leaves_child:
  "IsNonEmptyContainer v \<Longrightarrow> frame_leaves (child_frame v path) = leaves v"
  by (cases v) (auto simp: frame_leaves_def child_frame_def children_def IsNonEmptyContainer_def json_kind_defs comp_def)

lemma child_path_eq:
  assumes "prefixSize fr \<le> length path"
  shows "child_path fr k path =
    take (prefixSize fr) path @ CHR ''/'' # escape_token (if isObject fr then k else to_string (index fr))"
  using assms by (simp add: child_path_def resize_def AppendEscapedToken_escape)

lemma frame_leaves_step:
  assumes "remaining fr = (k, child) # others"
  shows "frame_leaves fr = below (if isObject fr then k else to_string (index fr)) (leaves child) @
    frame_leaves (fr\<lparr>remaining := others, index := index fr + 1\<rparr>)"
  using assms by (simp add: frame_leaves_def)

lemma frame_entries_prefix:
  "prefixSize fr \<le> n \<Longrightarrow> n \<le> length path \<Longrightarrow> frame_entries dtoa (take n path @ tok) fr = frame_entries dtoa path fr"
  by (simp add: frame_entries_def min_def)

lemma FlattenLoop_entries:
  "nested path stack \<Longrightarrow>
     FlattenLoop dtoa stack path es = (Ok, es @ concat (map (frame_entries dtoa path) stack))"
proof (induction dtoa stack path es rule: FlattenLoop.induct)
  case (2 dtoa fr stack path es)
  show ?case
  proof (cases "remaining fr")
    case Nil
    then have "frame_entries dtoa path fr = []" by (simp add: frame_entries_def frame_leaves_def entries_at_def)
    with 2 Nil show ?thesis by (simp add: FlattenLoop.simps nested_def)
  next
    case (Cons f others)
    obtain k child where f: "f = (k, child)" by (cases f)
    let ?path = "child_path fr k path" and ?fr = "fr\<lparr>remaining := others, index := index fr + 1\<rparr>"
    have le: "prefixSize fr \<le> length path" "\<And>g. g \<in> set stack \<Longrightarrow> prefixSize g \<le> prefixSize fr"
      using "2.prems" by (auto simp: nested_def)
    note path = child_path_eq [OF le(1), of k]
    have same: "map (frame_entries dtoa ?path) stack = map (frame_entries dtoa path) stack"
      unfolding path using le by (simp add: frame_entries_prefix)
    have own: "frame_entries dtoa path fr = entries_at dtoa ?path (leaves child) @ frame_entries dtoa ?path ?fr"
      unfolding path using le
      by (simp add: frame_entries_def frame_leaves_step [OF Cons [unfolded f]] frame_entries_prefix)
    have nest: "nested ?path (?fr # stack)" "nested ?path (child_frame child ?path # ?fr # stack)"
      using "2.prems" le unfolding path by (auto simp: nested_def child_frame_def intro!: le_SucI trans_le_add1)
    show ?thesis
    proof (cases "IsNonEmptyContainer child")
      case True
      have "frame_entries dtoa ?path (child_frame child ?path) = entries_at dtoa ?path (leaves child)"
        using True by (simp add: frame_entries_def frame_leaves_child) (simp add: child_frame_def)
      with 2(2) [OF Cons f [symmetric] refl refl True nest(2)] True Cons f same own show ?thesis
        by (simp add: FlattenLoop.simps(2) [of dtoa fr] Let_def)
    next
      case False
      with 2(3) [OF Cons f [symmetric] refl refl False] nest(1) Cons f same own show ?thesis
        by (simp add: FlattenLoop.simps(2) [of dtoa fr] Let_def AppendLeaf_leaf)
    qed
  qed
qed simp

theorem FlattenDocument_entries: "FlattenDocument dtoa v es = (Ok, es @ flat_entries dtoa v)"
proof (cases "IsNonEmptyContainer v")
  case True
  have "nested [] [child_frame v []]" by (simp add: nested_def child_frame_def)
  from FlattenLoop_entries [OF this, of dtoa es] True show ?thesis
    by (simp add: FlattenDocument_def frame_entries_def frame_leaves_child)
qed (simp add: FlattenDocument_def AppendLeaf_leaf)

section \<open>Repeated keys only remove\<close>

lemma mset_om_assign: "mset (om_assign k v ms) \<subseteq># add_mset (k, v) (mset ms)"
proof (induction k v ms rule: om_assign.induct)
  case (2 k v k' v' fs)
  show ?case
  proof (cases "k' = k")
    case False
    with 2 have "add_mset (k', v') (mset (om_assign k v fs)) \<subseteq># add_mset (k', v') (add_mset (k, v) (mset fs))"
      by simp
    with False show ?thesis by (simp only: om_assign.simps if_False mset.simps add_mset_commute [of "(k, v)"])
  qed simp
qed simp

lemma mset_foldl_assign:
  "mset (foldl (\<lambda>ms (k, v). om_assign k v ms) ms fs) \<subseteq># mset ms + mset fs"
proof (induction fs arbitrary: ms)
  case (Cons f fs)
  obtain k v where f: "f = (k, v)" by (cases f)
  have "mset (foldl (\<lambda>ms (k, v). om_assign k v ms) (om_assign k v ms) fs) \<subseteq># mset (om_assign k v ms) + mset fs"
    by (rule Cons)
  also have "\<dots> \<subseteq># add_mset (k, v) (mset ms) + mset fs"
    by (rule subset_mset.add_right_mono [OF mset_om_assign])
  finally show ?case by (simp add: f)
qed simp

definition collapse_fields :: "(string \<times> json) list \<Rightarrow> (string \<times> json) list" where
  "collapse_fields fs = foldl (\<lambda>ms (k, v). om_assign k v ms) [] (map (\<lambda>f. (fst f, collapse (snd f))) fs)"

lemma collapse_object: "collapse (JObject fs) = JObject (collapse_fields fs)"
  by (simp add: collapse_fields_def)

lemma mset_collapse_fields:
  "mset (collapse_fields fs) \<subseteq># mset (map (\<lambda>f. (fst f, collapse (snd f))) fs)"
  using mset_foldl_assign [of "[]"] by (simp add: collapse_fields_def del: mset_map)

lemma set_collapse_fields: "set (collapse_fields fs) \<subseteq> (\<lambda>f. (fst f, collapse (snd f))) ` set fs"
  using set_mset_mono [OF mset_collapse_fields [of fs]] by simp

lemma collapse_fields_empty: "collapse_fields fs = [] \<longleftrightarrow> fs = []"
proof -
  have nonempty: "om_assign k v ms \<noteq> []" for k v ms by (cases ms) (auto split: if_splits prod.splits)
  then have "ms \<noteq> [] \<Longrightarrow> foldl (\<lambda>ms (k, v). om_assign k v ms) ms gs \<noteq> []" for ms gs
    by (induction gs arbitrary: ms) (auto split: prod.splits)
  with nonempty show ?thesis
    by (cases fs) (auto simp: collapse_fields_def)
qed

lemma mset_below: "mset (below t ls) = image_mset (\<lambda>(p, l). (t # p, l)) (mset ls)"
  by (simp add: below_def)

lemma mset_concat_mono:
  "mset xs \<subseteq># mset ys \<Longrightarrow> mset (concat (map f xs)) \<subseteq># mset (concat (map f ys))"
proof -
  assume "mset xs \<subseteq># mset ys"
  then obtain zs where zs: "mset ys = mset xs + zs" by (auto simp: mset_subset_eq_exists_conv)
  have sum: "mset (concat (map f xs)) = (\<Sum>x \<in># mset xs. mset (f x))" for xs
    by (induction xs) simp_all
  show ?thesis unfolding sum zs by simp
qed

lemma mset_concat_pointwise:
  "(\<And>x. x \<in> set xs \<Longrightarrow> mset (f x) \<subseteq># mset (g x)) \<Longrightarrow> mset (concat (map f xs)) \<subseteq># mset (concat (map g xs))"
  by (induction xs) (simp_all add: subset_mset.add_mono)

lemma mset_below_indices_mono:
  "(\<And>x. x \<in> set xs \<Longrightarrow> mset (f x) \<subseteq># mset (g x)) \<Longrightarrow>
     mset (below_indices i (map f xs)) \<subseteq># mset (below_indices i (map g xs))"
  by (induction xs arbitrary: i) (simp_all add: subset_mset.add_mono mset_below image_mset_subseteq_mono)

lemma leaves_collapse: "mset (leaves (collapse t)) \<subseteq># mset (leaves t)"
proof (induction t)
  case (JArray xs)
  show ?case
  proof (cases "xs = []")
    case False
    have "mset (below_indices 0 (map (\<lambda>x. leaves (collapse x)) xs)) \<subseteq># mset (below_indices 0 (map leaves xs))"
      by (rule mset_below_indices_mono) (rule JArray)
    with False show ?thesis by (simp add: comp_def)
  qed simp
next
  case (JObject fs)
  show ?case
  proof (cases "fs = []")
    case False
    let ?ls = "\<lambda>f. below (fst f) (leaves (snd f))"
    have "mset (concat (map ?ls (collapse_fields fs))) \<subseteq># mset (concat (map ?ls (map (\<lambda>f. (fst f, collapse (snd f))) fs)))"
      by (rule mset_concat_mono [OF mset_collapse_fields])
    also have "\<dots> \<subseteq># mset (concat (map ?ls fs))"
      unfolding map_map comp_def fst_conv snd_conv
      by (rule mset_concat_pointwise) (use JObject in \<open>auto simp: mset_below snds.simps intro!: image_mset_subseteq_mono\<close>)
    finally show ?thesis using False
      by (simp add: collapse_object collapse_fields_empty del: collapse.simps)
  qed simp
qed simp_all

lemma depth_collapse: "json_depth (collapse t) \<le> json_depth t"
proof (induction t)
  case (JArray xs)
  have "json_depth (collapse x) \<le> Max (insert 0 (set (map json_depth xs)))" if "x \<in> set xs" for x
    by (rule order_trans [OF JArray [OF that]]) (use that in simp)
  then have "Max (insert 0 (set (map json_depth (map collapse xs)))) \<le> Max (insert 0 (set (map json_depth xs)))"
    by (auto simp: Max_le_iff)
  then show ?case by (simp only: collapse.simps json_depth.simps Suc_le_mono)
next
  case (JObject fs)
  have "json_depth (snd g) \<le> Max (insert 0 (set (map (\<lambda>f. json_depth (snd f)) fs)))" if g: "g \<in> set (collapse_fields fs)" for g
  proof -
    obtain f where f: "f \<in> set fs" "g = (fst f, collapse (snd f))" using g set_collapse_fields [of fs] by blast
    have "json_depth (collapse (snd f)) \<le> json_depth (snd f)" using JObject f(1) by (auto simp: snds.simps)
    also have "\<dots> \<le> Max (insert 0 (set (map (\<lambda>f. json_depth (snd f)) fs)))" using f(1) by simp
    finally show ?thesis using f(2) by simp
  qed
  then have "Max (insert 0 (set (map (\<lambda>f. json_depth (snd f)) (collapse_fields fs)))) \<le>
      Max (insert 0 (set (map (\<lambda>f. json_depth (snd f)) fs)))"
    by (auto simp: Max_le_iff)
  then show ?case by (simp only: collapse_object json_depth.simps Suc_le_mono)
qed simp_all

lemma nul_collapse: "nul_in_key (collapse t) \<Longrightarrow> nul_in_key t"
proof (induction t)
  case (JObject fs)
  then obtain g where g: "g \<in> set (collapse_fields fs)" "NUL \<in> set (fst g) \<or> nul_in_key (snd g)"
    unfolding collapse_object by auto
  obtain f where f: "f \<in> set fs" "g = (fst f, collapse (snd f))" using g(1) set_collapse_fields [of fs] by blast
  have "nul_in_key (collapse (snd f)) \<Longrightarrow> nul_in_key (snd f)" using JObject.IH [of f] f(1) by (auto simp: snds.simps)
  with f g(2) show ?case by auto
qed auto

lemma key_bytes_mset: "key_bytes k ls = sum_mset (image_mset (\<lambda>l. k + length (pointer_of (fst l))) (mset ls))"
  by (simp add: key_bytes_def flip: sum_mset_sum_list)

lemma within_limits_collapse: "within_limits t \<Longrightarrow> within_limits (collapse t)"
proof -
  obtain N where N: "mset (leaves t) = mset (leaves (collapse t)) + N"
    using leaves_collapse [of t] by (auto simp: mset_subset_eq_exists_conv)
  have "length (leaves (collapse t)) \<le> length (leaves t)"
    using arg_cong [OF N, of size] by simp
  moreover have "key_bytes 0 (leaves (collapse t)) \<le> key_bytes 0 (leaves t)"
    unfolding key_bytes_mset N by simp
  ultimately show "within_limits t \<Longrightarrow> within_limits (collapse t)"
    using depth_collapse [of t] nul_collapse [of t] by (auto simp: within_limits_def)
qed

section \<open>What FlattenJson returns\<close>

definition quoted :: "string \<Rightarrow> string" where
  "quoted str = (if CHR 0x27 \<in> set str then snd (ConvertApostropheStrings str) else str)"

definition acceptable_text :: "string \<Rightarrow> bool" where
  "acceptable_text str \<longleftrightarrow> str \<noteq> [] \<and> length str \<le> kMaxJsonInputBytes \<and> NUL \<notin> set str"

lemma ConvertApostropheStrings_Ok [simp]: "fst (ConvertApostropheStrings str) = Ok"
  by (simp add: ConvertApostropheStrings_def)

lemma FlattenJson_acceptable:
  "acceptable_text str \<Longrightarrow> FlattenJson lexer dtoa False str out =
     (case sax_parse limit_sax (lexer (quoted str)) LimitCheckingSax of
        (accepted, sax) \<Rightarrow>
          if \<not> accepted then Returned (failure sax, out)
          else case dom_parse (lexer (quoted str)) of
              None \<Rightarrow> Returned (ParseError, out)
            | Some doc \<Rightarrow> Returned (Ok, \<lparr>document = doc, entries = flat_entries dtoa doc\<rparr>))"
  by (auto simp: FlattenJson_def acceptable_text_def quoted_def FlattenDocument_entries
      ConvertApostropheStrings_def split: prod.splits option.splits)

lemma FlattenJson_tree:
  assumes "acceptable_text str" "tree_of (lexer (quoted str)) t" "within_limits t"
  shows "FlattenJson lexer dtoa False str out =
    Returned (Ok, \<lparr>document = collapse t, entries = flat_entries dtoa (collapse t)\<rparr>)"
proof -
  obtain rest where t: "finite_floats t" "lexer (quoted str) = value_tokens t @ rest" "at_end rest"
    using assms(2) by (auto simp: tree_of_def)
  then have "fst (sax_parse limit_sax (lexer (quoted str)) LimitCheckingSax)"
    using limit_sax_accepts_iff assms(3) by blast
  with assms(1) dom_parse_tree [OF t(1,3)] t(2) show ?thesis
    by (auto simp: FlattenJson_acceptable split: prod.splits)
qed

lemma FlattenJson_success:
  assumes "FlattenJson lexer dtoa fails str out = Returned (Ok, r)"
  obtains t where "acceptable_text str" "tree_of (lexer (quoted str)) t" "within_limits t" "\<not> fails"
    "r = \<lparr>document = collapse t, entries = flat_entries dtoa (collapse t)\<rparr>"
proof -
  have ok: "acceptable_text str" "\<not> fails"
    using assms by (auto simp: FlattenJson_def acceptable_text_def split: if_splits)
  note run = FlattenJson_acceptable [OF ok(1), of lexer dtoa out]
  have "fst (sax_parse limit_sax (lexer (quoted str)) LimitCheckingSax)"
  proof (rule ccontr)
    assume "\<not> ?thesis"
    with assms ok run have "failure (snd (sax_parse limit_sax (lexer (quoted str)) LimitCheckingSax)) = Ok"
      by (auto split: prod.splits)
    with checker_safe_always [of "lexer (quoted str)"] show False
      by (auto simp: checker_safe_def limit_failures_def)
  qed
  then obtain t rest where t: "finite_floats t" "lexer (quoted str) = value_tokens t @ rest" "at_end rest" "within_limits t"
    using limit_sax_accepts_iff by blast
  then have tree: "tree_of (lexer (quoted str)) t" by (auto simp: tree_of_def)
  from FlattenJson_tree [of str lexer t dtoa out, OF ok(1) tree t(4)] assms ok(2)
  have "r = \<lparr>document = collapse t, entries = flat_entries dtoa (collapse t)\<rparr>" by simp
  with that ok tree t(4) show thesis by blast
qed

theorem FlattenJson_Ok_iff:
  "FlattenJson lexer dtoa False str out = Returned (Ok, r) \<longleftrightarrow>
     acceptable_text str \<and>
     (\<exists>t. tree_of (lexer (quoted str)) t \<and> within_limits t \<and>
        r = \<lparr>document = collapse t, entries = flat_entries dtoa (collapse t)\<rparr>)"
  using FlattenJson_tree [of str lexer _ dtoa out] by (auto elim: FlattenJson_success)

theorem FlattenJson_failure:
  assumes "FlattenJson lexer dtoa fails str out = Returned (st, r)" "st \<noteq> Ok"
  shows "r = out \<and> st \<in> {DocumentTooLarge, ParseError, NestingTooDeep, TooManyEntries, KeyTextTooLarge}"
proof (cases "acceptable_text str")
  case True
  have "failure (snd (sax_parse limit_sax (lexer (quoted str)) LimitCheckingSax)) \<in> limit_failures"
    using checker_safe_always by (simp add: checker_safe_def)
  moreover have "\<not> fails" using assms(1) True by (auto simp: FlattenJson_def acceptable_text_def)
  ultimately show ?thesis using assms FlattenJson_acceptable [OF True, of lexer dtoa out]
    by (auto simp: limit_failures_def split: prod.splits if_splits option.splits)
next
  case False
  with assms show ?thesis by (auto simp: FlattenJson_def acceptable_text_def split: if_splits)
qed

text \<open>The documents the store holds: built by the parser and within the limits.\<close>

definition result_ok :: "(f64 \<Rightarrow> string) \<Rightarrow> FlattenResult \<Rightarrow> bool" where
  "result_ok dtoa r \<longleftrightarrow> wf_json (document r) \<and> within_limits (document r) \<and>
     entries r = flat_entries dtoa (document r)"

theorem FlattenJson_result_ok:
  "FlattenJson lexer dtoa fails str out = Returned (Ok, r) \<Longrightarrow> result_ok dtoa r"
  by (elim FlattenJson_success) (simp add: result_ok_def wf_collapse within_limits_collapse)

lemma result_ok_sizes:
  assumes "result_ok dtoa r"
  shows "length (entries r) \<le> kMaxFlatEntries"
    "sum_list (map (length \<circ> entry_key) (entries r)) \<le> kMaxFlatKeyBytes"
    "distinct (map entry_key (entries r))"
proof -
  show "length (entries r) \<le> kMaxFlatEntries"
    using assms by (simp add: result_ok_def within_limits_def entries_at_def)
  show "sum_list (map (length \<circ> entry_key) (entries r)) \<le> kMaxFlatKeyBytes"
    using assms by (simp add: result_ok_def within_limits_def entries_at_def key_bytes_def comp_def)
  have "inj pointer_of" by (rule injI) (simp add: ptr.render_inject)
  then have "distinct (map pointer_of (map fst (leaves (document r))))"
    using distinct_leaf_paths [of "document r"] assms
    by (metis (no_types) distinct_map inj_on_subset result_ok_def subset_UNIV)
  then show "distinct (map entry_key (entries r))"
    using assms by (simp add: result_ok_def entries_at_def comp_def)
qed

lemma small_counts: "n \<le> kMaxFlatEntries \<Longrightarrow> n < 2 ^ 32"
  by (simp add: kMaxFlatEntries_def)

lemma result_ok_entry:
  assumes "result_ok dtoa r" "e \<in> set (entries r)"
  obtains leaf where "ResolvePath (document r) (Some (entry_key e)) out = (Ok, Some leaf)"
    "DescribeLeaf dtoa leaf str typ = (Ok, entry_value e, entry_type e)"
proof -
  obtain p leaf where l: "(p, leaf) \<in> set (leaves (document r))" "entry_key e = pointer_of p"
    "entry_value e = leaf_text dtoa leaf" "entry_type e = leaf_type leaf"
    using assms by (auto simp: result_ok_def entries_at_def)
  have "reaches (document r) p leaf"
    using leaves_reach [OF _ _ l(1)] assms(1) small_counts by (simp add: result_ok_def within_limits_def)
  then have "ResolvePath (document r) (Some (entry_key e)) out = (Ok, Some leaf)"
    by (simp add: ResolvePath_def l(2) ptr.ParsePath_render ResolveTokens_iff)
  moreover have "DescribeLeaf dtoa leaf str typ = (Ok, entry_value e, entry_type e)"
    using leaves_not_container [OF l(1)] l(3,4) by (simp add: DescribeLeaf_spec)
  ultimately show thesis by (rule that)
qed

lemma result_ok_complete:
  assumes "result_ok dtoa r" "ResolvePath (document r) (Some path) out = (Ok, Some leaf)" "\<not> IsNonEmptyContainer leaf"
  shows "\<exists>e \<in> set (entries r). entry_key e = path \<and> DescribeLeaf dtoa leaf str typ = (Ok, entry_value e, entry_type e)"
proof -
  obtain ts where ts: "ParsePath (Some path) [] = (Ok, ts)" "ResolveTokens (document r) ts out = (Ok, Some leaf)"
    using assms(2) by (auto simp: ResolvePath_def split: prod.splits if_splits)
  have "(ts, leaf) \<in> set (leaves (document r))"
    using reach_leaves ts(2) assms(3) ResolveTokens_iff by blast
  moreover have "pointer_of ts = path" using ts(1) by (simp add: ptr.ParsePath_Ok_iff)
  ultimately show ?thesis using assms(1,3)
    by (force simp: result_ok_def entries_at_def DescribeLeaf_spec)
qed

section \<open>Properties\<close>

text \<open>C17: The iterative walk over a document with its shared path buffer and explicit stack lists
  exactly the leaves of the recursive specification, in document order, and never fails.\<close>
theorem walk_lists_leaves: "FlattenDocument dtoa v es = (Ok, es @ flat_entries dtoa v)"
  by (rule FlattenDocument_entries)

text \<open>\<open>FlattenJson\<close> succeeds exactly on a non-empty text of at most 1 MiB without NUL whose tokens,
  after quote conversion, form a JSON value within the limits, and then returns that value with
  its leaves as entries.\<close>
theorem flatten_json_exact:
  "FlattenJson lexer dtoa False str out = Returned (Ok, r) \<longleftrightarrow>
     acceptable_text str \<and>
     (\<exists>t. tree_of (lexer (quoted str)) t \<and> within_limits t \<and>
        r = \<lparr>document = collapse t, entries = flat_entries dtoa (collapse t)\<rparr>)"
  by (rule FlattenJson_Ok_iff)

text \<open>A failing \<open>FlattenJson\<close> leaves its output alone and reports one of five statuses.\<close>
theorem flatten_json_failure:
  assumes "FlattenJson lexer dtoa fails str out = Returned (st, r)" "st \<noteq> Ok"
  shows "r = out \<and> st \<in> {DocumentTooLarge, ParseError, NestingTooDeep, TooManyEntries, KeyTextTooLarge}"
  using assms by (rule FlattenJson_failure)

theorem flatten_json_failure_witness:
  "FlattenJson (\<lambda>s. []) (\<lambda>d. []) False [] empty_result = Returned (ParseError, empty_result)
   \<and> ParseError \<in> {DocumentTooLarge, ParseError, NestingTooDeep, TooManyEntries, KeyTextTooLarge}"
proof -
  have "FlattenJson (\<lambda>s. []) (\<lambda>d. []) False [] empty_result = Returned (ParseError, empty_result)"
    by (simp add: FlattenJson_def)
  with flatten_json_failure [OF this] show ?thesis by simp
qed

text \<open>A flattened document has at most 10000 entries, at most 4 MiB of keys, and no key twice.\<close>
theorem flatten_json_bounds:
  assumes "FlattenJson lexer dtoa fails str out = Returned (Ok, r)"
  shows "length (entries r) \<le> kMaxFlatEntries \<and>
    sum_list (map (length \<circ> entry_key) (entries r)) \<le> kMaxFlatKeyBytes \<and>
    distinct (map entry_key (entries r))"
  using FlattenJson_result_ok [OF assms] result_ok_sizes by blast

text \<open>An entry's key is a path that resolves to the leaf the entry describes.\<close>
theorem entry_key_resolves:
  assumes "FlattenJson lexer dtoa fails str out = Returned (Ok, r)" "e \<in> set (entries r)"
  shows "\<exists>leaf. ResolvePath (document r) (Some (entry_key e)) None = (Ok, Some leaf) \<and>
    DescribeLeaf dtoa leaf [] EntryNone = (Ok, entry_value e, entry_type e)"
  using result_ok_entry [OF FlattenJson_result_ok [OF assms(1)] assms(2), of None "[]" EntryNone] by blast

text \<open>Every path that resolves to a leaf of the document is the key of an entry describing it.\<close>
theorem every_leaf_has_entry:
  assumes "FlattenJson lexer dtoa fails str out = Returned (Ok, r)"
    and "ResolvePath (document r) (Some path) None = (Ok, Some leaf)" "\<not> IsNonEmptyContainer leaf"
  shows "\<exists>e \<in> set (entries r). entry_key e = path \<and> DescribeLeaf dtoa leaf [] EntryNone = (Ok, entry_value e, entry_type e)"
  using result_ok_complete [OF FlattenJson_result_ok [OF assms(1)] assms(2,3)] .

text \<open>A concrete run for the witnesses: the tokens of a one-field object with an array.\<close>

definition sample_tokens :: "string \<Rightarrow> token list" where
  "sample_tokens s = [BeginObject, ValueString ''a/b'', NameSeparator, BeginArray, LiteralTrue, EndArray, EndObject]"

definition sample_result :: FlattenResult where
  "sample_result = \<lparr>document = JObject [(''a/b'', JArray [JBool True])],
     entries = [\<lparr>entry_key = ''/a~1b/0'', entry_value = ''true'', entry_type = EntryBool\<rparr>]\<rparr>"

lemma sample_run:
  "FlattenJson sample_tokens (\<lambda>d. []) False ''{}'' empty_result = Returned (Ok, sample_result)"
proof -
  let ?t = "JObject [(''a/b'', JArray [JBool True])]"
  have leaves: "leaves ?t = [([''a/b'', ''0''], JBool True)]" by simp
  have "tree_of (sample_tokens s) ?t" for s
    by (simp add: tree_of_def sample_tokens_def at_end_def get_token_def)
  moreover have "within_limits ?t"
    unfolding within_limits_def leaves
    by (simp add: key_bytes_def kMaxJsonDepth_def kMaxFlatEntries_def kMaxFlatKeyBytes_def)
  moreover have "acceptable_text ''{}''" by (simp add: acceptable_text_def kMaxJsonInputBytes_def)
  ultimately have "FlattenJson sample_tokens (\<lambda>d. []) False ''{}'' empty_result =
      Returned (Ok, \<lparr>document = collapse ?t, entries = flat_entries (\<lambda>d. []) (collapse ?t)\<rparr>)"
    by (intro FlattenJson_tree)
  moreover have "flat_entries (\<lambda>d. []) ?t = entries sample_result"
    unfolding leaves by (simp add: entries_at_def sample_result_def)
  ultimately show ?thesis by (simp add: sample_result_def)
qed

theorem flatten_json_bounds_witness:
  "length (entries sample_result) \<le> kMaxFlatEntries \<and> distinct (map entry_key (entries sample_result))"
  using flatten_json_bounds [OF sample_run] by blast

theorem entry_key_resolves_witness:
  "\<exists>leaf. ResolvePath (document sample_result) (Some ''/a~1b/0'') None = (Ok, Some leaf) \<and>
    DescribeLeaf (\<lambda>d. []) leaf [] EntryNone = (Ok, ''true'', EntryBool)"
  using entry_key_resolves [OF sample_run, of "entries sample_result ! 0"] by (simp add: sample_result_def)

theorem every_leaf_has_entry_witness:
  "\<exists>e \<in> set (entries sample_result). entry_key e = ''/a~1b/0''"
proof -
  have "pointer_of [''a/b'', ''0''] = ''/a~1b/0''" by simp
  moreover have "reaches (document sample_result) [''a/b'', ''0''] (JBool True)"
    using leaves_reach [of "document sample_result" "[''a/b'', ''0'']" "JBool True"] by (simp add: sample_result_def)
  ultimately have "ResolvePath (document sample_result) (Some ''/a~1b/0'') None = (Ok, Some (JBool True))"
    using ptr.ParsePath_render [of "[''a/b'', ''0'']" "[]"] by (simp add: ResolvePath_def ResolveTokens_iff del: ResolveTokens.simps)
  from every_leaf_has_entry [OF sample_run this] show ?thesis
    by (auto simp: IsNonEmptyContainer_def json_kind_defs)
qed

end
