(* ===== verification/Json_Accessors.thy ===== *)
theory Json_Accessors
  imports Type_Conversion Json_Path
begin

text \<open>
  \<open>src/mapping/json-accessors.cpp\<close>: typed reads at a path of a document. Every accessor takes
  the old contents of its out-parameter and returns the status with the new contents.
\<close>

section \<open>The accessors\<close>

definition ResolveAndConvert ::
  "json \<Rightarrow> PathTokens \<Rightarrow> (json \<Rightarrow> status \<times> 'o) \<Rightarrow> 'o \<Rightarrow> status \<times> 'o" where
  "ResolveAndConvert document tokens convert out =
     (case ResolveTokens document tokens None of
        (st, node) \<Rightarrow> if st \<noteq> Ok then (st, out) else convert (the node))"

definition ReadAtPath ::
  "json \<Rightarrow> string_view \<Rightarrow> 'o \<Rightarrow> (json \<Rightarrow> PathTokens \<Rightarrow> 'o \<Rightarrow> status \<times> 'o) \<Rightarrow> status \<times> 'o" where
  "ReadAtPath document path out read =
     (case ParsePath path [] of
        (st, tokens) \<Rightarrow> if st \<noteq> Ok then (st, out) else read document tokens out)"

definition ReadLongAt :: "json \<Rightarrow> PathTokens \<Rightarrow> i32 \<Rightarrow> status \<times> i32" where
  "ReadLongAt document tokens out =
     ResolveAndConvert document tokens (\<lambda>node.
       (case ToLong node 0 of (st, v) \<Rightarrow> if st = Ok then (st, v) else (st, out))) out"

definition ReadDoubleAt :: "json \<Rightarrow> PathTokens \<Rightarrow> f64 \<Rightarrow> status \<times> f64" where
  "ReadDoubleAt document tokens out =
     ResolveAndConvert document tokens (\<lambda>node.
       (case ToDouble node 0 of (st, v) \<Rightarrow> if st = Ok then (st, v) else (st, out))) out"

definition ReadBoolAt :: "json \<Rightarrow> PathTokens \<Rightarrow> bool \<Rightarrow> status \<times> bool" where
  "ReadBoolAt document tokens out =
     ResolveAndConvert document tokens (\<lambda>node.
       (case ToBool node False of (st, v) \<Rightarrow> if st = Ok then (st, v) else (st, out))) out"

definition CountElementsAt :: "json \<Rightarrow> PathTokens \<Rightarrow> u32 \<Rightarrow> status \<times> u32" where
  "CountElementsAt document tokens out =
     ResolveAndConvert document tokens (\<lambda>node.
       if is_null node then (NullValue, out)
       else if \<not> is_array node then (TypeMismatch, out)
       else (Ok, of_nat (json_size node))) out"

definition ReadLongAtPath :: "json \<Rightarrow> string_view \<Rightarrow> i32 \<Rightarrow> status \<times> i32" where
  "ReadLongAtPath document path out = ReadAtPath document path out ReadLongAt"

definition ReadDoubleAtPath :: "json \<Rightarrow> string_view \<Rightarrow> f64 \<Rightarrow> status \<times> f64" where
  "ReadDoubleAtPath document path out = ReadAtPath document path out ReadDoubleAt"

definition ReadBoolAtPath :: "json \<Rightarrow> string_view \<Rightarrow> bool \<Rightarrow> status \<times> bool" where
  "ReadBoolAtPath document path out = ReadAtPath document path out ReadBoolAt"

definition CountElementsAtPath :: "json \<Rightarrow> string_view \<Rightarrow> u32 \<Rightarrow> status \<times> u32" where
  "CountElementsAtPath document path out = ReadAtPath document path out CountElementsAt"

lemmas accessor_defs =
  ResolveAndConvert_def ReadLongAt_def ReadDoubleAt_def ReadBoolAt_def CountElementsAt_def

section \<open>Their contract\<close>

text \<open>
  A typed read at a path: it succeeds exactly where the path leads to a value of the right
  kind, and a failure leaves the caller's variable alone.
\<close>

locale typed_read =
  fixes read :: "json \<Rightarrow> PathTokens \<Rightarrow> 'o \<Rightarrow> status \<times> 'o"
    and convert :: "json \<Rightarrow> 'o option"
  assumes read_found: "ResolveTokens d ts None = (Ok, Some node) \<Longrightarrow> convert node = Some v \<Longrightarrow> read d ts out = (Ok, v)"
    and read_wrong: "ResolveTokens d ts None = (Ok, Some node) \<Longrightarrow> convert node = None \<Longrightarrow>
      \<exists>st. read d ts out = (st, out) \<and> st \<noteq> Ok"
    and read_missing: "ResolveTokens d ts None = (st, found) \<Longrightarrow> st \<noteq> Ok \<Longrightarrow> read d ts out = (st, out)"
begin

lemma read_cases:
  obtains (Found) node v where "reaches d ts node" "convert node = Some v" "read d ts out = (Ok, v)"
  | (Failed) st where "read d ts out = (st, out)" "st \<noteq> Ok"
      "\<not> (\<exists>node v. reaches d ts node \<and> convert node = Some v)"
proof (cases "ResolveTokens d ts None")
  case (Pair st node)
  show thesis
  proof (cases "st = Ok")
    case True
    with Pair ResolveTokens_Ok_Some obtain n where n: "node = Some n" by blast
    with Pair True have reach: "reaches d ts n" by (simp flip: ResolveTokens_iff [where out = None])
    have only: "reaches d ts m \<Longrightarrow> m = n" for m
      using Pair True n ResolveTokens_iff [of d ts None m] by simp
    show thesis
    proof (cases "convert n")
      case None
      with Pair True n read_wrong [of d ts n out] only show thesis by (auto intro: Failed)
    next
      case (Some v)
      with Pair True n read_found [of d ts n v out] reach show thesis by (auto intro: Found)
    qed
  next
    case False
    then have "\<not> reaches d ts m" for m
      using Pair ResolveTokens_iff [of d ts None m] by simp
    with False Pair read_missing show thesis by (blast intro: Failed)
  qed
qed

lemma read_Ok_iff: "read d ts out = (Ok, v) \<longleftrightarrow> (\<exists>node. reaches d ts node \<and> convert node = Some v)"
proof (cases rule: read_cases [of d ts out])
  case (Found node w)
  have only: "m = node" if "reaches d ts m" for m
    using that Found(1) by (simp flip: ResolveTokens_iff [where out = None])
  have "(\<exists>node. reaches d ts node \<and> convert node = Some v) \<longleftrightarrow> w = v"
    using Found(1,2) only by (metis option.inject)
  with Found(3) show ?thesis by simp
next
  case (Failed st)
  then show ?thesis by simp
qed

lemma read_failure_keeps: "read d ts out = (st, out') \<Longrightarrow> st \<noteq> Ok \<Longrightarrow> out' = out"
  by (cases rule: read_cases [of d ts out]) auto

end

text \<open>What each accessor accepts at the node.\<close>

fun long_of :: "json \<Rightarrow> i32 option" where
  "long_of v = (case ToLong v 0 of (st, n) \<Rightarrow> if st = Ok then Some n else None)"

lemma long_of_Some: "long_of v = Some n \<longleftrightarrow> ToLong v 0 = (Ok, n)"
  by (cases "ToLong v 0") auto

fun double_of :: "json \<Rightarrow> f64 option" where
  "double_of (JUInt n) = Some (f64_of_int (uint n))"
| "double_of (JInt n) = Some (f64_of_int (sint n))"
| "double_of (JFloat d) = Some d"
| "double_of _ = None"

fun bool_of :: "json \<Rightarrow> bool option" where
  "bool_of (JBool b) = Some b"
| "bool_of _ = None"

fun count_of :: "json \<Rightarrow> u32 option" where
  "count_of (JArray xs) = Some (of_nat (length xs))"
| "count_of _ = None"

interpretation long_read: typed_read ReadLongAt long_of
  by unfold_locales (auto simp: accessor_defs split: prod.splits if_splits)

interpretation double_read: typed_read ReadDoubleAt double_of
proof
  show "\<exists>st. ReadDoubleAt d ts out = (st, out) \<and> st \<noteq> Ok"
    if "ResolveTokens d ts None = (Ok, Some node)" "double_of node = None" for d ts node out
    using that by (cases node) (simp_all add: accessor_defs)
  show "ReadDoubleAt d ts out = (Ok, v)"
    if "ResolveTokens d ts None = (Ok, Some node)" "double_of node = Some v" for d ts node v out
    using that by (cases node) (simp_all add: accessor_defs)
qed (simp add: accessor_defs)

interpretation bool_read: typed_read ReadBoolAt bool_of
proof
  show "\<exists>st. ReadBoolAt d ts out = (st, out) \<and> st \<noteq> Ok"
    if "ResolveTokens d ts None = (Ok, Some node)" "bool_of node = None" for d ts node out
    using that by (cases node) (simp_all add: accessor_defs)
  show "ReadBoolAt d ts out = (Ok, v)"
    if "ResolveTokens d ts None = (Ok, Some node)" "bool_of node = Some v" for d ts node v out
    using that by (cases node) (simp_all add: accessor_defs)
qed (simp add: accessor_defs)

interpretation count_read: typed_read CountElementsAt count_of
proof
  show "\<exists>st. CountElementsAt d ts out = (st, out) \<and> st \<noteq> Ok"
    if "ResolveTokens d ts None = (Ok, Some node)" "count_of node = None" for d ts node out
    using that by (cases node) (simp_all add: accessor_defs json_kind_defs)
  show "CountElementsAt d ts out = (Ok, v)"
    if "ResolveTokens d ts None = (Ok, Some node)" "count_of node = Some v" for d ts node v out
    using that by (cases node) (simp_all add: accessor_defs json_kind_defs)
qed (simp add: accessor_defs)

end
