(* ===== verification/Slot_Ids.thy ===== *)
theory Slot_Ids
  imports Prelude
begin

text \<open>
  How the document store and the request engine mint ids: a 32-bit counter that skips 0 and
  every id in use. Both loops have no exit but a free id, so they are partial functions here;
  that they return is a theorem. Their common contract is the locale \<open>id_minting\<close>.
\<close>

section \<open>The two loops\<close>

text \<open>The loop of \<open>JsonDocumentStore::MintIdLocked\<close>: the candidate and the new \<open>nextId_\<close>.\<close>

partial_function (option) mint_document_id :: "(u32 \<Rightarrow> bool) \<Rightarrow> u32 \<Rightarrow> (u32 \<times> u32) option" where
  "mint_document_id live nextId =
     (let candidate = nextId; nextId = nextId + 1
      in if candidate \<noteq> 0 \<and> \<not> live candidate then Some (candidate, nextId)
         else mint_document_id live nextId)"

text \<open>The loop of \<open>AsyncEngine::MintIdLocked\<close>.\<close>

partial_function (option) mint_request_id :: "(u32 \<Rightarrow> bool) \<Rightarrow> u32 \<Rightarrow> (u32 \<times> u32) option" where
  "mint_request_id live nextId =
     (if nextId = 0 then mint_request_id live (nextId + 1)
      else if \<not> live nextId then Some (nextId, nextId + 1)
      else mint_request_id live (nextId + 1))"

section \<open>The contract\<close>

locale id_minting =
  fixes mint :: "(u32 \<Rightarrow> bool) \<Rightarrow> u32 \<Rightarrow> (u32 \<times> u32) option"
  assumes mint_hit: "c \<noteq> 0 \<Longrightarrow> \<not> live c \<Longrightarrow> mint live c = Some (c, c + 1)"
    and mint_skip: "c = 0 \<or> live c \<Longrightarrow> mint live c = mint live (c + 1)"
begin

lemma mint_skips:
  assumes "\<forall>j < k. c + of_nat j = 0 \<or> live (c + of_nat j)"
  shows "mint live c = mint live (c + of_nat k)"
  using assms
proof (induction k)
  case (Suc k)
  then have "mint live (c + of_nat k) = mint live (c + of_nat k + 1)"
    by (intro mint_skip) simp
  with Suc show ?case by (simp add: add_ac)
qed simp

text \<open>The loop returns as soon as one nonzero id is not in use, with the first such id.\<close>

lemma mint_first:
  assumes "free \<noteq> 0" "\<not> live free"
  obtains k where "mint live c = Some (c + of_nat k, c + of_nat k + 1)"
    "c + of_nat k \<noteq> 0" "\<not> live (c + of_nat k)" "\<forall>j < k. c + of_nat j = 0 \<or> live (c + of_nat j)"
    "k < 2 ^ 32"
proof -
  let ?P = "\<lambda>k. c + of_nat k \<noteq> 0 \<and> \<not> live (c + of_nat k)"
  let ?k = "LEAST k. ?P k"
  have hit: "?P (unat (free - c))" using assms by simp
  then have found: "?P ?k" by (rule LeastI)
  have below: "\<forall>j < ?k. c + of_nat j = 0 \<or> live (c + of_nat j)"
    using not_less_Least by blast
  have "unat (free - c) < 2 ^ LENGTH(32)" by (rule unsigned_less)
  then have small: "?k < 2 ^ 32" using Least_le [of ?P, OF hit] by simp
  have "mint live c = mint live (c + of_nat ?k)" by (rule mint_skips [OF below])
  also have "\<dots> = Some (c + of_nat ?k, c + of_nat ?k + 1)" using found by (intro mint_hit) simp_all
  finally show thesis using found below small by (intro that [of ?k]) simp_all
qed

lemma mint_fresh: "mint live c = Some (i, n) \<Longrightarrow> free \<noteq> 0 \<Longrightarrow> \<not> live free \<Longrightarrow> i \<noteq> 0 \<and> \<not> live i \<and> n = i + 1"
  by (elim mint_first [of free live c]) auto

lemma mint_returns: "free \<noteq> 0 \<Longrightarrow> \<not> live free \<Longrightarrow> \<exists>i. mint live c = Some (i, i + 1) \<and> i \<noteq> 0 \<and> \<not> live i"
  by (elim mint_first [of free live c]) auto

end

interpretation doc: id_minting mint_document_id
proof
  show "c \<noteq> 0 \<Longrightarrow> \<not> live c \<Longrightarrow> mint_document_id live c = Some (c, c + 1)" for c live
    by (subst mint_document_id.simps) simp
  show "c = 0 \<or> live c \<Longrightarrow> mint_document_id live c = mint_document_id live (c + 1)" for c live
    using mint_document_id.simps [of live c] by (auto simp: Let_def)
qed

interpretation req: id_minting mint_request_id
proof
  show "c \<noteq> 0 \<Longrightarrow> \<not> live c \<Longrightarrow> mint_request_id live c = Some (c, c + 1)" for c live
    by (subst mint_request_id.simps) simp
  show "c = 0 \<or> live c \<Longrightarrow> mint_request_id live c = mint_request_id live (c + 1)" for c live
    using mint_request_id.simps [of live c] by (auto split: if_splits)
qed

section \<open>A free id exists\<close>

text \<open>Fewer than \<open>2 ^ 32 - 1\<close> ids can be in use: a table of eight slots always leaves one.\<close>

lemma free_id_exists:
  assumes "\<And>i. live i \<Longrightarrow> i \<in> set used" "length used < 2 ^ 32 - 1"
  obtains free :: u32 where "free \<noteq> 0" "\<not> live free"
proof -
  have "card (insert 0 (set used)) \<le> Suc (length used)"
    using card_insert_le_m1 card_length [of used] by (metis Suc_le_mono card_insert_if finite_set le_SucI)
  also have "\<dots> < card (UNIV :: u32 set)" using assms(2) by (simp add: card_word)
  finally have "insert 0 (set used) \<noteq> UNIV" by auto
  then obtain free where "free \<notin> insert 0 (set used)" by blast
  with that assms(1) show thesis by auto
qed

end
