(* ===== verification/Buffers.thy ===== *)
theory Buffers
  imports Status
begin

text \<open>
  \<open>src/core/buffer-copy.cpp\<close> and \<open>src/core/input-text.cpp\<close>: the only two places where
  raw caller memory is written and read. Both results are \<open>mem\<close> values: \<open>None\<close> would be
  an access outside the caller's array.
\<close>

section \<open>CopyToBuffer\<close>

definition CopyToBuffer :: "string \<Rightarrow> cbuf \<Rightarrow> u32 \<Rightarrow> (status \<times> cbuf) mem" where
  "CopyToBuffer text buffer bufferSize =
     (case buffer of
        NullPtr \<Rightarrow> Some (InvalidArgument, NullPtr)
      | Buf b \<Rightarrow>
          if bufferSize = 0 then Some (InvalidArgument, Buf b)
          else do {
            b0 \<leftarrow> mem_write b 0 [NUL];
            if length text \<ge> unat bufferSize then Some (BufferTooSmall, Buf b0)
            else do {
              b1 \<leftarrow> mem_write b0 0 text;
              b2 \<leftarrow> mem_write b1 (length text) [NUL];
              Some (Ok, Buf b2)
            }
          })"

text \<open>What a caller finds in its array afterwards: one equation per branch.\<close>

lemma CopyToBuffer_null [mem_simps]:
  "CopyToBuffer text NullPtr n = Some (InvalidArgument, NullPtr)"
  by (simp add: CopyToBuffer_def)

lemma CopyToBuffer_zero [mem_simps]:
  "CopyToBuffer text (Buf b) 0 = Some (InvalidArgument, Buf b)"
  by (simp add: CopyToBuffer_def)

lemma CopyToBuffer_small [mem_simps]:
  assumes "unat n \<le> length b" "n \<noteq> 0" "unat n \<le> length text"
  shows "CopyToBuffer text (Buf b) n = Some (BufferTooSmall, Buf (NUL # drop 1 b))"
proof -
  have "0 < unat n" using assms(2) by (simp add: unat_gt_0)
  with assms show ?thesis by (simp add: CopyToBuffer_def mem_simps)
qed

lemma CopyToBuffer_fits [mem_simps]:
  assumes "unat n \<le> length b" "length text < unat n"
  shows "CopyToBuffer text (Buf b) n = Some (Ok, Buf (text @ NUL # drop (Suc (length text)) b))"
proof -
  have n: "n \<noteq> 0" using assms(2) by auto
  from assms obtain c cs where b: "b = c # cs" by (cases b) auto
  let ?b1 = "text @ drop (length text) (NUL # cs)"
  have "mem_write ?b1 (length text) [NUL] = Some (text @ NUL # drop (length text) cs)"
    using assms b by (simp add: mem_simps)
  with assms n b show ?thesis
    by (simp add: CopyToBuffer_def mem_simps)
qed

lemma CopyToBuffer_cases:
  assumes "buf_ok buffer n"
  obtains (Null) "buffer = NullPtr" "CopyToBuffer text buffer n = Some (InvalidArgument, NullPtr)"
  | (Zero) b where "buffer = Buf b" "n = 0"
      "CopyToBuffer text buffer n = Some (InvalidArgument, Buf b)"
  | (Small) b where "buffer = Buf b" "n \<noteq> 0" "unat n \<le> length text"
      "CopyToBuffer text buffer n = Some (BufferTooSmall, Buf (NUL # drop 1 b))"
  | (Fits) b where "buffer = Buf b" "length text < unat n"
      "CopyToBuffer text buffer n = Some (Ok, Buf (text @ NUL # drop (Suc (length text)) b))"
proof (cases buffer)
  case NullPtr
  then show thesis by (intro Null) (simp_all add: mem_simps)
next
  case (Buf b)
  with assms have len: "unat n \<le> length b" by simp
  consider "n = 0" | "n \<noteq> 0" "unat n \<le> length text" | "length text < unat n" by linarith
  then show thesis
  proof cases
    case 1
    with Buf show thesis by (intro Zero) (simp_all add: mem_simps)
  next
    case 2
    with Buf len show thesis by (intro Small) (simp_all add: mem_simps)
  next
    case 3
    with Buf len show thesis by (intro Fits) (simp_all add: mem_simps)
  qed
qed

text \<open>
  The shape of a written array: its length and everything past the written text and its NUL
  are unchanged, and what a C reader sees is the text or the empty text.
\<close>

definition frame_from :: "nat \<Rightarrow> cbuf \<Rightarrow> cbuf \<Rightarrow> bool" where
  "frame_from k p q =
     (case (p, q) of
        (Buf b, Buf b') \<Rightarrow> length b' = length b \<and> drop k b' = drop k b
      | (NullPtr, NullPtr) \<Rightarrow> True
      | _ \<Rightarrow> False)"

lemma CopyToBuffer_frame:
  assumes "buf_ok buffer n"
  shows "\<exists>st buf'. CopyToBuffer s buffer n = Some (st, buf') \<and> frame_from (unat n) buffer buf'"
  using assms
proof (cases rule: CopyToBuffer_cases [of _ _ s])
  case (Small b)
  moreover from Small(2) have "0 < unat n" by (simp add: unat_gt_0)
  ultimately show ?thesis using assms
    by (cases b) (auto simp: frame_from_def drop_Cons')
next
  case (Fits b)
  then have "drop (unat n) (s @ NUL # drop (Suc (length s)) b) = drop (unat n) b"
    by (simp add: drop_Cons' Suc_diff_Suc)
  with Fits assms show ?thesis by (auto simp: frame_from_def)
qed (auto simp: frame_from_def)

section \<open>BoundedText\<close>

definition BoundedText :: "cbuf \<Rightarrow> u32 \<Rightarrow> string_view \<Rightarrow> (status \<times> string_view) mem" where
  "BoundedText p sz out =
     (case p of
        NullPtr \<Rightarrow> Some (InvalidArgument, out)
      | Buf b \<Rightarrow>
          if sz = 0 then Some (InvalidArgument, out)
          else do {
            nul \<leftarrow> mem_chr b NUL (unat sz);
            (case nul of
               None \<Rightarrow> Some (UnterminatedInputText, out)
             | Some len \<Rightarrow> Some (Ok, Some (take len b)))
          })"

lemma BoundedText_defined:
  assumes "buf_ok p n"
  shows "\<exists>st v. BoundedText p n out = Some (st, v)"
proof (cases p)
  case (Buf b)
  with assms obtain r where "mem_chr b NUL (unat n) = Some r"
    using mem_chr_in_bounds [of "unat n" b NUL] by auto
  with Buf show ?thesis by (simp add: BoundedText_def split: option.splits)
qed (simp add: BoundedText_def)

lemma BoundedText_Ok_iff:
  "BoundedText p n out = Some (Ok, v) \<longleftrightarrow>
     (\<exists>b. p = Buf b \<and> NUL \<in> set (take (unat n) b) \<and> v = Some (c_string b))"
proof (cases p)
  case (Buf b)
  show ?thesis
  proof (cases "n = 0")
    case False
    have "BoundedText p n out = Some (Ok, v) \<longleftrightarrow>
        (\<exists>k. mem_chr b NUL (unat n) = Some (Some k) \<and> v = Some (take k b))"
      using Buf False by (auto simp: BoundedText_def split: option.splits Option.bind_splits)
    also have "\<dots> \<longleftrightarrow> (\<exists>k. mem_chr b NUL (unat n) = Some (Some k)) \<and> v = Some (c_string b)"
      using take_c_string by fastforce
    also have "\<dots> \<longleftrightarrow> NUL \<in> set (take (unat n) b) \<and> v = Some (c_string b)"
      by (simp add: mem_chr_finds)
    finally show ?thesis using Buf by simp
  qed (simp add: Buf BoundedText_def)
qed (simp add: BoundedText_def)

lemma BoundedText_text [mem_simps]:
  "NUL \<in> set (take (unat n) b) \<Longrightarrow> BoundedText (Buf b) n out = Some (Ok, Some (c_string b))"
  by (simp add: BoundedText_Ok_iff)

lemma BoundedText_not_Ok:
  "BoundedText p n out = Some (st, v) \<Longrightarrow> st \<noteq> Ok \<Longrightarrow>
     v = out \<and> (st = InvalidArgument \<longleftrightarrow> p = NullPtr \<or> n = 0) \<and> st \<in> {InvalidArgument, UnterminatedInputText}"
  by (auto simp: BoundedText_def split: cbuf.splits if_splits option.splits Option.bind_splits)

text \<open>A text terminated inside the stated size is read back.\<close>

lemma BoundedText_terminated [mem_simps]:
  "NUL \<notin> set s \<Longrightarrow> length s < unat n \<Longrightarrow> BoundedText (Buf (s @ NUL # rest)) n out = Some (Ok, Some s)"
  by (auto simp: BoundedText_def mem_simps)

text \<open>The same as a value: the text, or why it is refused.\<close>

definition bounded :: "cbuf \<Rightarrow> u32 \<Rightarrow> status + string" where
  "bounded p n =
     (case p of
        NullPtr \<Rightarrow> Inl InvalidArgument
      | Buf b \<Rightarrow> if n = 0 then Inl InvalidArgument
                 else if NUL \<in> set (take (unat n) b) then Inr (c_string b) else Inl UnterminatedInputText)"

lemma BoundedText_bounded:
  assumes "buf_ok p n"
  shows "BoundedText p n None =
    Some (case bounded p n of Inl st \<Rightarrow> (st, None) | Inr s \<Rightarrow> (Ok, Some s))"
proof -
  obtain st v where b: "BoundedText p n None = Some (st, v)" using BoundedText_defined [OF assms] by blast
  show ?thesis
  proof (cases "st = Ok")
    case True
    then obtain buf where buf: "p = Buf buf" "NUL \<in> set (take (unat n) buf)" "v = Some (c_string buf)"
      using b BoundedText_Ok_iff by blast
    then have "n \<noteq> 0" by auto
    with True b buf show ?thesis by (simp add: bounded_def)
  next
    case False
    from BoundedText_not_Ok [OF b False] BoundedText_Ok_iff [of p n None] b False
    show ?thesis by (auto simp: bounded_def split: cbuf.split)
  qed
qed

lemma bounded_not_Ok: "bounded p n = Inl st \<Longrightarrow> st \<noteq> Ok"
  by (auto simp: bounded_def split: cbuf.splits if_splits)

section \<open>Properties\<close>

text \<open>What \<open>CopyToBuffer\<close> does to a caller's array of at least the stated size, on every branch: it
  stays inside the array, writes the text and its NUL when both fit, only a NUL when they do
  not, and nothing when the arguments are invalid.\<close>
theorem copy_to_buffer_contract:
  assumes "buf_ok buffer n"
  shows "CopyToBuffer s buffer n =
    (case buffer of
       NullPtr \<Rightarrow> Some (InvalidArgument, NullPtr)
     | Buf b \<Rightarrow>
         if n = 0 then Some (InvalidArgument, Buf b)
         else if unat n \<le> length s then Some (BufferTooSmall, Buf (NUL # drop 1 b))
         else Some (Ok, Buf (s @ NUL # drop (Suc (length s)) b)))"
  using assms by (cases rule: CopyToBuffer_cases [of _ _ s]) auto

theorem copy_to_buffer_contract_witness:
  "CopyToBuffer ''ab'' (Buf ''wxyz'') 3 = Some (Ok, Buf (''ab'' @ [NUL] @ ''z''))
   \<and> CopyToBuffer ''abc'' (Buf ''wxyz'') 3 = Some (BufferTooSmall, Buf (NUL # ''xyz''))"
  using copy_to_buffer_contract [of "Buf ''wxyz''" 3 "''ab''"] copy_to_buffer_contract [of "Buf ''wxyz''" 3 "''abc''"]
  by simp

text \<open>A text without NUL copied into a buffer is read back from it unchanged.\<close>
theorem copied_text_reads_back:
  assumes "buf_ok p n" "NUL \<notin> set s" "CopyToBuffer s p n = Some (Ok, q)"
  shows "BoundedText q n out = Some (Ok, Some s)"
  using assms(1)
proof (cases rule: CopyToBuffer_cases [of _ _ s])
  case (Fits b)
  then show ?thesis using assms by (auto simp: BoundedText_terminated)
qed (use assms in auto)

theorem copied_text_reads_back_witness:
  "BoundedText (Buf (''ab'' @ [NUL] @ ''z'')) 3 None = Some (Ok, Some ''ab'')"
  by (rule copied_text_reads_back [of "Buf ''wxyz''"]) (simp_all add: CopyToBuffer_def mem_write_def)

end
