(* ===== verification/Json_Store.thy ===== *)
theory Json_Store
  imports Json_Flatten Json_Accessors Slot_Ids Buffers
begin

text \<open>
  \<open>src/mapping/json-document-store.cpp\<close>: eight slots of flattened documents. Every method runs
  under the store's mutex, so a method is one state transformer. A method that writes caller
  memory returns a \<open>mem\<close> value; one that mints an id may in principle not return (\<open>None\<close>).
\<close>

section \<open>State\<close>

definition kJsonDocumentSlotCount :: nat where "kJsonDocumentSlotCount = 8"

record json_slot =
  occupied :: bool
  slot_id :: u32
  slot_result :: FlattenResult

record json_store =
  doc_slots :: "json_slot list"
  doc_idSeeded :: bool
  doc_nextId :: u32

definition free_slot :: json_slot where
  "free_slot = \<lparr>occupied = False, slot_id = 0, slot_result = empty_result\<rparr>"

definition JsonDocumentStore :: json_store where
  "JsonDocumentStore =
     \<lparr>doc_slots = replicate kJsonDocumentSlotCount free_slot, doc_idSeeded = False, doc_nextId = 0\<rparr>"

text \<open>The constructor that fixes where id minting starts.\<close>

definition JsonDocumentStore_from :: "u32 \<Rightarrow> json_store" where
  "JsonDocumentStore_from firstId = JsonDocumentStore\<lparr>doc_idSeeded := True, doc_nextId := firstId\<rparr>"

section \<open>Operations\<close>

definition CopyEntryTexts ::
  "FlatEntry \<Rightarrow> cbuf \<Rightarrow> u32 \<Rightarrow> cbuf \<Rightarrow> u32 \<Rightarrow> (status \<times> cbuf \<times> cbuf) mem" where
  "CopyEntryTexts entry key keySize val valSize =
     (if key = NullPtr \<or> keySize = 0 \<or> val = NullPtr \<or> valSize = 0 then Some (InvalidArgument, key, val)
      else do {
        (keyStatus, key) \<leftarrow> CopyToBuffer (entry_key entry) key keySize;
        (valStatus, val) \<leftarrow> CopyToBuffer (entry_value entry) val valSize;
        if keyStatus = Ok \<and> valStatus = Ok then Some (Ok, key, val)
        else (case (key, val) of
                (Buf k, Buf v) \<Rightarrow> do {
                  k \<leftarrow> mem_write k 0 [NUL];
                  v \<leftarrow> mem_write v 0 [NUL];
                  Some (BufferTooSmall, Buf k, Buf v)
                }
              | _ \<Rightarrow> None)
      })"

definition FindFreeSlotLocked :: "json_store \<Rightarrow> nat option" where
  "FindFreeSlotLocked s = first_index (\<lambda>slot. \<not> occupied slot) (doc_slots s)"

definition FindLiveDocumentLocked :: "u32 \<Rightarrow> json_store \<Rightarrow> nat option" where
  "FindLiveDocumentLocked documentId s =
     (if documentId = 0 then None
      else first_index (\<lambda>slot. occupied slot \<and> slot_id slot = documentId) (doc_slots s))"

definition IsDocumentIdLiveLocked :: "json_store \<Rightarrow> u32 \<Rightarrow> bool" where
  "IsDocumentIdLiveLocked s i \<longleftrightarrow> (\<exists>slot \<in> set (doc_slots s). occupied slot \<and> slot_id slot = i)"

text \<open>\<open>ticks\<close> is the steady clock's count, read only before the first id.\<close>

definition MintDocumentIdLocked :: "u64 \<Rightarrow> json_store \<Rightarrow> (u32 \<times> json_store) option" where
  "MintDocumentIdLocked ticks s =
     (let s = (if \<not> doc_idSeeded s
               then s\<lparr>doc_nextId := ucast (and ticks 0xFFFFFFFF), doc_idSeeded := True\<rparr> else s)
      in case mint_document_id (IsDocumentIdLiveLocked s) (doc_nextId s) of
           None \<Rightarrow> None
         | Some (i, next') \<Rightarrow> Some (i, s\<lparr>doc_nextId := next'\<rparr>))"

definition InsertDocument ::
  "u64 \<Rightarrow> FlattenResult \<Rightarrow> u32 \<Rightarrow> json_store \<Rightarrow> (status \<times> u32 \<times> json_store) option" where
  "InsertDocument ticks result documentId s =
     (case FindFreeSlotLocked s of
        None \<Rightarrow> Some (NoFreeDocumentSlot, documentId, s)
      | Some slot \<Rightarrow>
          (case MintDocumentIdLocked ticks s of
             None \<Rightarrow> None
           | Some (i, s) \<Rightarrow>
               Some (Ok, i, s\<lparr>doc_slots := (doc_slots s)[slot :=
                 \<lparr>occupied = True, slot_id = i, slot_result = result\<rparr>]\<rparr>)))"

definition CountEntries :: "u32 \<Rightarrow> u32 \<Rightarrow> json_store \<Rightarrow> status \<times> u32" where
  "CountEntries documentId counted s =
     (case FindLiveDocumentLocked documentId s of
        None \<Rightarrow> (UnknownDocumentId, counted)
      | Some slot \<Rightarrow> (Ok, of_nat (length (entries (slot_result (doc_slots s ! slot))))))"

definition ReadEntry ::
  "u32 \<Rightarrow> u32 \<Rightarrow> cbuf \<Rightarrow> u32 \<Rightarrow> cbuf \<Rightarrow> u32 \<Rightarrow> JsonEntryType \<Rightarrow> json_store \<Rightarrow>
     (status \<times> cbuf \<times> cbuf \<times> JsonEntryType) mem" where
  "ReadEntry documentId entryIndex key keySize val valSize valType s =
     (case FindLiveDocumentLocked documentId s of
        None \<Rightarrow> Some (UnknownDocumentId, key, val, valType)
      | Some slot \<Rightarrow>
          (let es = entries (slot_result (doc_slots s ! slot))
           in if unat entryIndex \<ge> length es then Some (IndexOutOfRange, key, val, valType)
              else do {
                (copyStatus, key, val) \<leftarrow> CopyEntryTexts (es ! unat entryIndex) key keySize val valSize;
                Some (copyStatus, key, val,
                      if copyStatus = Ok then entry_type (es ! unat entryIndex) else valType)
              }))"

definition ReadValue ::
  "(f64 \<Rightarrow> string) \<Rightarrow> u32 \<Rightarrow> string_view \<Rightarrow> cbuf \<Rightarrow> u32 \<Rightarrow> JsonEntryType \<Rightarrow> json_store \<Rightarrow>
     (status \<times> cbuf \<times> JsonEntryType) mem" where
  "ReadValue dtoa documentId path val valSize valType s =
     (case FindLiveDocumentLocked documentId s of
        None \<Rightarrow> Some (UnknownDocumentId, val, valType)
      | Some slot \<Rightarrow>
          (case ResolvePath (document (slot_result (doc_slots s ! slot))) path None of
             (st, node) \<Rightarrow>
               if st \<noteq> Ok then Some (st, val, valType)
               else (case DescribeLeaf dtoa (the node) [] EntryNone of
                  (st, str, typ) \<Rightarrow>
                    if st \<noteq> Ok then Some (st, val, valType)
                    else do {
                      (st, val) \<leftarrow> CopyToBuffer str val valSize;
                      Some (st, val, if st = Ok then typ else valType)
                    })))"

text \<open>\<open>read\<close> is the caller's function object; \<open>out\<close> is what it captures by reference.\<close>

definition ReadWithTokens ::
  "u32 \<Rightarrow> string_view \<Rightarrow> (json \<Rightarrow> PathTokens \<Rightarrow> 'o \<Rightarrow> status \<times> 'o) \<Rightarrow> 'o \<Rightarrow> json_store \<Rightarrow> status \<times> 'o" where
  "ReadWithTokens documentId path read out s =
     (case ParsePath path [] of
        (pathStatus, tokens) \<Rightarrow>
          if pathStatus \<noteq> Ok then (pathStatus, out)
          else (case FindLiveDocumentLocked documentId s of
                  None \<Rightarrow> (UnknownDocumentId, out)
                | Some slot \<Rightarrow> read (document (slot_result (doc_slots s ! slot))) tokens out))"

definition ReadWith ::
  "u32 \<Rightarrow> string_view \<Rightarrow> (json \<Rightarrow> 'o \<Rightarrow> status \<times> 'o) \<Rightarrow> 'o \<Rightarrow> json_store \<Rightarrow> status \<times> 'o" where
  "ReadWith documentId path read out s = ReadWithTokens documentId path (\<lambda>document tokens. read document) out s"

definition DiscardDocument :: "u32 \<Rightarrow> json_store \<Rightarrow> status \<times> json_store" where
  "DiscardDocument documentId s =
     (case FindLiveDocumentLocked documentId s of
        None \<Rightarrow> (UnknownDocumentId, s)
      | Some slot \<Rightarrow> (Ok, s\<lparr>doc_slots := (doc_slots s)[slot := free_slot]\<rparr>))"

text \<open>The loop of \<open>DiscardAll\<close> over the slots, with its count.\<close>

fun discard_slots :: "json_slot list \<Rightarrow> u32 \<Rightarrow> json_slot list \<times> u32" where
  "discard_slots [] counted = ([], counted)"
| "discard_slots (slot # slots) counted =
     (if \<not> occupied slot
      then (case discard_slots slots counted of (slots, counted) \<Rightarrow> (slot # slots, counted))
      else (case discard_slots slots (counted + 1) of (slots, counted) \<Rightarrow> (free_slot # slots, counted)))"

definition DiscardAllDocuments :: "json_store \<Rightarrow> status \<times> u32 \<times> json_store" where
  "DiscardAllDocuments s =
     (case discard_slots (doc_slots s) 0 of (slots, counted) \<Rightarrow> (Ok, counted, s\<lparr>doc_slots := slots\<rparr>))"

section \<open>The contract\<close>

text \<open>
  What a client may rely on: a map from nonzero ids to results, in which an insertion uses an
  unused id and every other id keeps its document.
\<close>

locale document_map =
  fixes invar :: "'s \<Rightarrow> bool" and good :: "'r \<Rightarrow> bool"
    and lookup :: "'s \<Rightarrow> u32 \<Rightarrow> 'r option"
    and insert_doc :: "u64 \<Rightarrow> 'r \<Rightarrow> u32 \<Rightarrow> 's \<Rightarrow> (status \<times> u32 \<times> 's) option"
    and discard_doc :: "u32 \<Rightarrow> 's \<Rightarrow> status \<times> 's"
    and discard_docs :: "'s \<Rightarrow> status \<times> u32 \<times> 's"
  assumes lookup_zero: "lookup s 0 = None"
    and lookup_good: "invar s \<Longrightarrow> lookup s i = Some r \<Longrightarrow> good r"
    and insert_total: "invar s \<Longrightarrow> insert_doc t r old s \<noteq> None"
    and insert_Ok: "invar s \<Longrightarrow> good r \<Longrightarrow> insert_doc t r old s = Some (Ok, i, s') \<Longrightarrow>
      invar s' \<and> i \<noteq> 0 \<and> lookup s i = None \<and> lookup s' = (lookup s)(i \<mapsto> r)"
    and insert_fails: "insert_doc t r old s = Some (st, i, s') \<Longrightarrow> st \<noteq> Ok \<Longrightarrow>
      st = NoFreeDocumentSlot \<and> i = old \<and> s' = s"
    and discard_known: "invar s \<Longrightarrow> lookup s i \<noteq> None \<Longrightarrow>
      \<exists>s'. discard_doc i s = (Ok, s') \<and> invar s' \<and> lookup s' = (lookup s)(i := None)"
    and discard_unknown: "lookup s i = None \<Longrightarrow> discard_doc i s = (UnknownDocumentId, s)"
    and discard_everything: "invar s \<Longrightarrow> \<exists>s'. discard_docs s = (Ok, of_nat (card (dom (lookup s))), s') \<and>
      invar s' \<and> lookup s' = (\<lambda>i. None)"
begin

text \<open>Sessions: any sequence of insertions and discards.\<close>

inductive session :: "'s \<Rightarrow> 's \<Rightarrow> bool" where
  start: "session s s"
| insert: "session s0 s \<Longrightarrow> good r \<Longrightarrow> insert_doc t r old s = Some (st, i, s') \<Longrightarrow> session s0 s'"
| discard: "session s0 s \<Longrightarrow> discard_doc i s = (st, s') \<Longrightarrow> session s0 s'"
| discard_all: "session s0 s \<Longrightarrow> discard_docs s = (st, n, s') \<Longrightarrow> session s0 s'"

lemma session_invar: "session s0 s \<Longrightarrow> invar s0 \<Longrightarrow> invar s"
proof (induction rule: session.induct)
  case (insert s0 s r t old st i s')
  then show ?case using insert_Ok insert_fails by (cases "st = Ok") blast+
next
  case (discard s0 s i st s')
  then show ?case using discard_known discard_unknown by (cases "lookup s i") fastforce+
next
  case (discard_all s0 s st n s')
  then show ?case using discard_everything by fastforce
qed

lemma inserted_until_discarded:
  assumes "invar s" "good r" "insert_doc t r old s = Some (Ok, i, s')" "discard_doc i s' = (st, s'')"
  shows "lookup s' i = Some r" "st = Ok" "lookup s'' = lookup s" "invar s''"
proof -
  note ok = insert_Ok [OF assms(1-3)]
  then show found: "lookup s' i = Some r" by simp
  with discard_known [of s' i] ok assms(4) show "st = Ok" "lookup s'' = lookup s" "invar s''" by (auto simp: fun_upd_idem)
qed

lemma discarded_is_unknown:
  "invar s \<Longrightarrow> discard_doc i s = (st, s') \<Longrightarrow> lookup s' i = None \<and> discard_doc i s' = (UnknownDocumentId, s')"
  using discard_known [of s i] discard_unknown [of s i] discard_unknown [of s' i]
  by (cases "lookup s i") auto

end

section \<open>The slot table provides it\<close>

definition lookup_document :: "json_store \<Rightarrow> u32 \<Rightarrow> FlattenResult option" where
  "lookup_document s i = map_option (\<lambda>slot. slot_result (doc_slots s ! slot)) (FindLiveDocumentLocked i s)"

text \<open>The store's invariant: eight slots, live ids distinct and nonzero, checked results.\<close>

definition live_ids :: "json_slot list \<Rightarrow> u32 list" where
  "live_ids slots = map slot_id (filter occupied slots)"

definition store_ok :: "(f64 \<Rightarrow> string) \<Rightarrow> json_store \<Rightarrow> bool" where
  "store_ok dtoa s \<longleftrightarrow> length (doc_slots s) = kJsonDocumentSlotCount \<and> distinct (live_ids (doc_slots s)) \<and>
     0 \<notin> set (live_ids (doc_slots s)) \<and> (\<forall>slot \<in> set (doc_slots s). occupied slot \<longrightarrow> result_ok dtoa (slot_result slot))"

fun find_slot :: "u32 \<Rightarrow> json_slot list \<Rightarrow> json_slot option" where
  "find_slot i [] = None"
| "find_slot i (slot # slots) = (if occupied slot \<and> slot_id slot = i then Some slot else find_slot i slots)"

lemma find_slot_index:
  "map_option (\<lambda>k. slots ! k) (first_index (\<lambda>slot. occupied slot \<and> slot_id slot = i) slots) = find_slot i slots"
  by (induction slots) (auto simp: option.map_comp comp_def)

lemma lookup_document_find:
  "lookup_document s i = (if i = 0 then None else map_option slot_result (find_slot i (doc_slots s)))"
  by (simp add: lookup_document_def FindLiveDocumentLocked_def option.map_comp comp_def flip: find_slot_index)

lemma find_slot_None: "find_slot i slots = None \<longleftrightarrow> i \<notin> set (live_ids slots)"
  by (induction slots) (auto simp: live_ids_def)

lemma find_slot_SomeD: "find_slot i slots = Some slot \<Longrightarrow> slot \<in> set slots \<and> occupied slot \<and> slot_id slot = i"
  by (induction slots) (auto split: if_splits)

lemma live_ids_live: "IsDocumentIdLiveLocked s i \<longleftrightarrow> i \<in> set (live_ids (doc_slots s))"
  by (auto simp: IsDocumentIdLiveLocked_def live_ids_def)

lemma find_slot_fill:
  "k < length slots \<Longrightarrow> \<not> occupied (slots ! k) \<Longrightarrow> i \<notin> set (live_ids slots) \<Longrightarrow> occupied new \<Longrightarrow> slot_id new = i \<Longrightarrow>
     find_slot j (slots[k := new]) = (if j = i then Some new else find_slot j slots)"
proof (induction slots arbitrary: k)
  case (Cons slot slots)
  then show ?case by (cases k) (auto simp: live_ids_def split: if_splits)
qed simp

lemma live_ids_fill:
  "k < length slots \<Longrightarrow> \<not> occupied (slots ! k) \<Longrightarrow> occupied new \<Longrightarrow>
     mset (live_ids (slots[k := new])) = add_mset (slot_id new) (mset (live_ids slots))"
proof (induction slots arbitrary: k)
  case (Cons slot slots)
  then show ?case by (cases k) (auto simp: live_ids_def split: if_splits)
qed simp

lemma find_slot_clear:
  "k < length slots \<Longrightarrow> occupied (slots ! k) \<Longrightarrow> slot_id (slots ! k) = i \<Longrightarrow> distinct (live_ids slots) \<Longrightarrow>
     find_slot j (slots[k := free_slot]) = (if j = i then None else find_slot j slots)"
proof (induction slots arbitrary: k)
  case (Cons slot slots)
  show ?case
  proof (cases k)
    case 0
    with Cons.prems have "find_slot i slots = None" by (auto simp: find_slot_None live_ids_def)
    with 0 Cons.prems show ?thesis by (auto simp: free_slot_def)
  next
    case (Suc m)
    with Cons.prems have "slots ! m \<in> set slots" by simp
    with Suc Cons.prems have "occupied slot \<Longrightarrow> slot_id slot \<noteq> i" by (auto simp: live_ids_def)
    with Suc Cons show ?thesis by (auto simp: live_ids_def split: if_splits)
  qed
qed simp

lemma live_ids_clear:
  "k < length slots \<Longrightarrow> occupied (slots ! k) \<Longrightarrow>
     add_mset (slot_id (slots ! k)) (mset (live_ids (slots[k := free_slot]))) = mset (live_ids slots)"
proof (induction slots arbitrary: k)
  case (Cons slot slots)
  then show ?case by (cases k) (auto simp: live_ids_def free_slot_def split: if_splits)
qed simp

lemma discard_slots_spec:
  "discard_slots slots n =
     (map (\<lambda>slot. if occupied slot then free_slot else slot) slots, n + of_nat (length (live_ids slots)))"
  by (induction slots arbitrary: n) (simp_all add: live_ids_def)

lemma live_ids_cleared: "live_ids (map (\<lambda>slot. if occupied slot then free_slot else slot) slots) = []"
  by (induction slots) (simp_all add: live_ids_def free_slot_def)

lemma mint_document_returns:
  assumes "store_ok dtoa s"
  shows "\<exists>i s1. MintDocumentIdLocked ticks s = Some (i, s1) \<and> i \<noteq> 0 \<and> i \<notin> set (live_ids (doc_slots s)) \<and>
    doc_slots s1 = doc_slots s"
proof -
  define s0 where "s0 = (if \<not> doc_idSeeded s
    then s\<lparr>doc_nextId := ucast (and ticks 0xFFFFFFFF), doc_idSeeded := True\<rparr> else s)"
  have slots: "doc_slots s0 = doc_slots s" by (simp add: s0_def)
  have "length (live_ids (doc_slots s)) \<le> 8"
    using assms length_filter_le [of occupied "doc_slots s"]
    by (simp add: store_ok_def live_ids_def kJsonDocumentSlotCount_def)
  then have "length (live_ids (doc_slots s)) < 2 ^ 32 - 1" by (rule le_less_trans) simp
  then obtain free where free: "free \<noteq> 0" "\<not> IsDocumentIdLiveLocked s0 free"
    using free_id_exists [of "IsDocumentIdLiveLocked s0" "live_ids (doc_slots s)"] by (auto simp: live_ids_live slots)
  then obtain i where "mint_document_id (IsDocumentIdLiveLocked s0) (doc_nextId s0) = Some (i, i + 1)"
    "i \<noteq> 0" "\<not> IsDocumentIdLiveLocked s0 i"
    using doc.mint_returns by blast
  then show ?thesis
    unfolding MintDocumentIdLocked_def Let_def s0_def [symmetric] by (simp add: live_ids_live slots)
qed

lemma FindFree_SomeD:
  "FindFreeSlotLocked s = Some k \<Longrightarrow> k < length (doc_slots s) \<and> \<not> occupied (doc_slots s ! k)"
  by (auto simp: FindFreeSlotLocked_def dest: first_indexD)

lemma FindLive_SomeD:
  "FindLiveDocumentLocked i s = Some k \<Longrightarrow>
     k < length (doc_slots s) \<and> occupied (doc_slots s ! k) \<and> slot_id (doc_slots s ! k) = i \<and> i \<noteq> 0"
  by (auto simp: FindLiveDocumentLocked_def dest: first_indexD split: if_splits)

lemma set_update: "x \<in> set (xs[k := y]) \<Longrightarrow> x = y \<or> x \<in> set xs"
  using set_update_subset_insert by fastforce

lemma InsertDocument_Ok:
  assumes "store_ok dtoa s" "result_ok dtoa r" "InsertDocument ticks r old s = Some (Ok, i, s')"
  shows "store_ok dtoa s' \<and> i \<noteq> 0 \<and> lookup_document s i = None \<and> lookup_document s' = (lookup_document s)(i \<mapsto> r)"
proof -
  obtain k s1 where k: "FindFreeSlotLocked s = Some k" and mint: "MintDocumentIdLocked ticks s = Some (i, s1)"
    and s': "s' = s1\<lparr>doc_slots := (doc_slots s1)[k := \<lparr>occupied = True, slot_id = i, slot_result = r\<rparr>]\<rparr>"
    using assms(3) by (auto simp: InsertDocument_def split: option.splits)
  from mint mint_document_returns [OF assms(1), of ticks]
  have i: "i \<noteq> 0" "i \<notin> set (live_ids (doc_slots s))" "doc_slots s1 = doc_slots s" by auto
  note k = FindFree_SomeD [OF k]
  let ?new = "\<lparr>occupied = True, slot_id = i, slot_result = r\<rparr>"
  have ids: "mset (live_ids (doc_slots s')) = add_mset i (mset (live_ids (doc_slots s)))"
    using live_ids_fill [of k "doc_slots s" ?new] k by (simp add: s' i)
  have "distinct (live_ids (doc_slots s'))"
    using ids i(2) assms(1) by (metis distinct.simps(2) mset.simps(2) mset_eq_imp_distinct_iff store_ok_def)
  moreover have "set (live_ids (doc_slots s')) = insert i (set (live_ids (doc_slots s)))"
    using ids by (metis set_mset_add_mset_insert set_mset_mset)
  moreover have "\<forall>slot \<in> set (doc_slots s'). occupied slot \<longrightarrow> result_ok dtoa (slot_result slot)"
    using assms(1,2) by (auto simp: s' i store_ok_def dest!: set_update)
  ultimately have "store_ok dtoa s'" using assms(1) i by (auto simp: store_ok_def s')
  moreover have "lookup_document s' j = ((lookup_document s)(i \<mapsto> r)) j" for j
    using k i by (simp add: lookup_document_find s' find_slot_fill)
  moreover have "lookup_document s i = None" using i by (simp add: lookup_document_find find_slot_None)
  ultimately show ?thesis using i by auto
qed

lemma DiscardDocument_Ok:
  assumes "store_ok dtoa s" "lookup_document s i \<noteq> None"
  shows "\<exists>s'. DiscardDocument i s = (Ok, s') \<and> store_ok dtoa s' \<and> lookup_document s' = (lookup_document s)(i := None)"
proof -
  obtain k where k: "FindLiveDocumentLocked i s = Some k" using assms(2) by (auto simp: lookup_document_def)
  note kD = FindLive_SomeD [OF k]
  let ?s' = "s\<lparr>doc_slots := (doc_slots s)[k := free_slot]\<rparr>"
  have dist: "distinct (live_ids (doc_slots s))" using assms(1) by (simp add: store_ok_def)
  have ids: "add_mset i (mset (live_ids (doc_slots ?s'))) = mset (live_ids (doc_slots s))"
    using live_ids_clear [of k "doc_slots s"] kD by simp
  then have sub: "set (live_ids (doc_slots ?s')) \<subseteq> set (live_ids (doc_slots s))"
    by (metis set_mset_add_mset_insert set_mset_mset subset_insertI)
  have "distinct (live_ids (doc_slots ?s'))"
    using ids dist by (metis distinct.simps(2) mset.simps(2) mset_eq_imp_distinct_iff)
  moreover have "\<forall>slot \<in> set (doc_slots ?s'). occupied slot \<longrightarrow> result_ok dtoa (slot_result slot)"
    using assms(1) by (auto simp: store_ok_def free_slot_def dest!: set_update)
  ultimately have "store_ok dtoa ?s'" using assms(1) sub by (auto simp: store_ok_def)
  moreover have "lookup_document ?s' j = ((lookup_document s)(i := None)) j" for j
    using kD find_slot_clear [of k "doc_slots s" i j] dist by (auto simp: lookup_document_find)
  moreover have "DiscardDocument i s = (Ok, ?s')" using k by (simp add: DiscardDocument_def)
  ultimately show ?thesis by blast
qed

lemma dom_lookup_document:
  "store_ok dtoa s \<Longrightarrow> dom (lookup_document s) = set (live_ids (doc_slots s))"
proof (rule set_eqI)
  fix i assume s: "store_ok dtoa s"
  have "i \<in> dom (lookup_document s) \<longleftrightarrow> i \<noteq> 0 \<and> find_slot i (doc_slots s) \<noteq> None"
    by (simp add: lookup_document_find domIff)
  with s show "i \<in> dom (lookup_document s) \<longleftrightarrow> i \<in> set (live_ids (doc_slots s))"
    by (auto simp: find_slot_None store_ok_def)
qed

lemma DiscardAllDocuments_Ok:
  assumes "store_ok dtoa s"
  shows "\<exists>s'. DiscardAllDocuments s = (Ok, of_nat (card (dom (lookup_document s))), s') \<and>
    store_ok dtoa s' \<and> lookup_document s' = (\<lambda>i. None)"
proof -
  let ?slots = "map (\<lambda>slot. if occupied slot then free_slot else slot) (doc_slots s)"
  have "card (dom (lookup_document s)) = length (live_ids (doc_slots s))"
    using assms unfolding dom_lookup_document [OF assms] by (simp add: distinct_card store_ok_def)
  then have "DiscardAllDocuments s = (Ok, of_nat (card (dom (lookup_document s))), s\<lparr>doc_slots := ?slots\<rparr>)"
    by (simp add: DiscardAllDocuments_def discard_slots_spec)
  moreover have "store_ok dtoa (s\<lparr>doc_slots := ?slots\<rparr>)"
    using assms by (auto simp: store_ok_def live_ids_cleared free_slot_def)
  moreover have "lookup_document (s\<lparr>doc_slots := ?slots\<rparr>) = (\<lambda>i. None)"
    by (rule ext) (simp add: lookup_document_find find_slot_None live_ids_cleared)
  ultimately show ?thesis by blast
qed

interpretation store: document_map "store_ok dtoa" "result_ok dtoa" lookup_document
  InsertDocument DiscardDocument DiscardAllDocuments
proof
  show "lookup_document s 0 = None" for s by (simp add: lookup_document_find)
  show "store_ok dtoa s \<Longrightarrow> lookup_document s i = Some r \<Longrightarrow> result_ok dtoa r" for s i r
    by (auto simp: lookup_document_find store_ok_def dest!: find_slot_SomeD split: if_splits)
  show "store_ok dtoa s \<Longrightarrow> InsertDocument t r old s \<noteq> None" for s t r old
    using mint_document_returns [of dtoa s t] by (auto simp: InsertDocument_def split: option.splits)
  show "InsertDocument t r old s = Some (st, i, s') \<Longrightarrow> st \<noteq> Ok \<Longrightarrow> st = NoFreeDocumentSlot \<and> i = old \<and> s' = s"
    for t r old s st i s'
    by (auto simp: InsertDocument_def split: option.splits)
  show "lookup_document s i = None \<Longrightarrow> DiscardDocument i s = (UnknownDocumentId, s)" for s i
    by (simp add: lookup_document_def DiscardDocument_def)
qed (use InsertDocument_Ok DiscardDocument_Ok DiscardAllDocuments_Ok in blast)+

lemma store_ok_start: "store_ok dtoa JsonDocumentStore" "store_ok dtoa (JsonDocumentStore_from n)"
  by (simp_all add: store_ok_def JsonDocumentStore_def JsonDocumentStore_from_def live_ids_def free_slot_def)

text \<open>An insertion fails only when all eight slots hold documents.\<close>

lemma InsertDocument_full:
  assumes "store_ok dtoa s"
  shows "InsertDocument t r old s = Some (NoFreeDocumentSlot, i, s') \<longleftrightarrow>
    card (dom (lookup_document s)) = kJsonDocumentSlotCount \<and> i = old \<and> s' = s"
proof -
  have "card (dom (lookup_document s)) = count_slots occupied (doc_slots s)"
    using assms unfolding dom_lookup_document [OF assms]
    by (simp add: distinct_card store_ok_def) (simp add: live_ids_def count_slots_def)
  moreover have "count_slots occupied (doc_slots s) = kJsonDocumentSlotCount \<longleftrightarrow> (\<forall>slot \<in> set (doc_slots s). occupied slot)"
    using assms by (auto simp: store_ok_def count_slots_def) (metis filter_True length_filter_less nat_less_le)
  moreover have "FindFreeSlotLocked s = None \<longleftrightarrow> (\<forall>slot \<in> set (doc_slots s). occupied slot)"
    by (simp add: FindFreeSlotLocked_def table_simps)
  moreover have "InsertDocument t r old s = Some (NoFreeDocumentSlot, i, s') \<longleftrightarrow>
      FindFreeSlotLocked s = None \<and> i = old \<and> s' = s"
    by (auto simp: InsertDocument_def split: option.splits)
  ultimately show ?thesis by simp
qed

section \<open>Properties\<close>

text \<open>Minting always returns, within at most 2^32 turns of its loop, the first candidate from the
  counter on that is neither zero nor the id of a stored document.\<close>
theorem mint_document_id_first:
  assumes "free \<noteq> 0" "\<not> live free"
  shows "\<exists>k < 2 ^ 32. mint_document_id live c = Some (c + of_nat k, c + of_nat k + 1) \<and>
    c + of_nat k \<noteq> 0 \<and> \<not> live (c + of_nat k) \<and> (\<forall>j < k. c + of_nat j = 0 \<or> live (c + of_nat j))"
  by (rule doc.mint_first [of free live c, OF assms]) metis

theorem mint_document_id_first_witness:
  "\<exists>k < 2 ^ 32. mint_document_id (\<lambda>i. i = 1) (- 1) = Some (- 1 + of_nat k, of_nat k)"
  using mint_document_id_first [of 2 "\<lambda>i. i = 1" "- 1"] by auto

text \<open>C33: Inserting a checked document into a well-formed store always returns; it fails exactly when
  all eight slots are taken, and otherwise stores the document under a fresh nonzero id and
  keeps every other document.\<close>
theorem insert_document:
  assumes "store_ok dtoa s" "result_ok dtoa r"
  shows "\<exists>st i s'. InsertDocument ticks r old s = Some (st, i, s') \<and> store_ok dtoa s' \<and>
    (if card (dom (lookup_document s)) = kJsonDocumentSlotCount
     then st = NoFreeDocumentSlot \<and> i = old \<and> s' = s
     else st = Ok \<and> i \<noteq> 0 \<and> lookup_document s i = None \<and>
       lookup_document s' = (lookup_document s)(i \<mapsto> r))"
proof -
  obtain st i s' where ins: "InsertDocument ticks r old s = Some (st, i, s')"
    using store.insert_total [OF assms(1)] by (metis option.exhaust prod.exhaust)
  show ?thesis
  proof (cases "st = Ok")
    case True
    with ins InsertDocument_full [OF assms(1), of ticks r old old s]
      store.insert_Ok [OF assms, of ticks old i s'] show ?thesis by auto
  next
    case False
    with store.insert_fails [OF ins] ins InsertDocument_full [OF assms(1), of ticks r old i s'] assms(1)
    show ?thesis by auto
  qed
qed

theorem insert_document_witness:
  "\<exists>st i s'. InsertDocument 0 sample_result 0 JsonDocumentStore = Some (st, i, s') \<and> st = Ok \<and> i \<noteq> 0 \<and>
     lookup_document s' i = Some sample_result"
proof -
  have empty: "lookup_document JsonDocumentStore = (\<lambda>i. None)"
    by (rule ext) (simp add: lookup_document_find find_slot_None JsonDocumentStore_def live_ids_def free_slot_def)
  from insert_document [OF store_ok_start(1) FlattenJson_result_ok [OF sample_run], of 0 0]
  show ?thesis by (auto simp: empty kJsonDocumentSlotCount_def)
qed

text \<open>Discarding a document removes exactly it; the id is unknown from then on, and an unknown id
  changes nothing.\<close>
theorem discard_document:
  assumes "store_ok dtoa s"
  shows "case DiscardDocument i s of (st, s') \<Rightarrow>
    store_ok dtoa s' \<and> lookup_document s' = (lookup_document s)(i := None) \<and>
    st = (if lookup_document s i = None then UnknownDocumentId else Ok) \<and>
    DiscardDocument i s' = (UnknownDocumentId, s')"
proof (cases "lookup_document s i = None")
  case True
  with assms store.discard_unknown show ?thesis by (simp add: fun_upd_idem)
next
  case False
  obtain s' where s': "DiscardDocument i s = (Ok, s')" "store_ok dtoa s'"
    "lookup_document s' = (lookup_document s)(i := None)"
    using store.discard_known [OF assms False] by blast
  then show ?thesis using False store.discard_unknown [of s' i] by simp
qed

theorem discard_document_witness:
  "fst (DiscardDocument 7 JsonDocumentStore) = UnknownDocumentId"
proof -
  have "lookup_document JsonDocumentStore i = None" for i
    by (simp add: lookup_document_find find_slot_None JsonDocumentStore_def live_ids_def free_slot_def)
  then show ?thesis
    using discard_document [OF store_ok_start(1) [of "\<lambda>d. []"], of 7] by (auto split: prod.splits)
qed

end
