(* ===== verification/Json_Text_Api.thy ===== *)
theory Json_Text_Api
  imports Json_Store
begin

text \<open>
  \<open>src/mapping/json-text-api.cpp\<close>: the JSON operations as CAPL calls them, with texts in caller
  memory and every exception turned into a status. \<open>throws\<close> says that the guarded body of the
  call throws (an allocation, or locking the mutex); in every function all such points come
  before its first effect on the store and on the caller's output buffers. The outermost
  \<open>option\<close> is \<open>None\<close> for an access outside caller memory or a call that never returns.
\<close>

section \<open>Operations\<close>

definition ParseJsonDocument ::
  "(string \<Rightarrow> token list) \<Rightarrow> (f64 \<Rightarrow> string) \<Rightarrow> bool \<Rightarrow> bool \<Rightarrow> u64 \<Rightarrow> cbuf \<Rightarrow> u32 \<Rightarrow> json_store \<Rightarrow>
     (status \<times> u32 \<times> json_store) option" where
  "ParseJsonDocument lexer dtoa flatten_throws insert_throws ticks jsonText jsonSize s =
     (let documentId = 0 in do {
        (st, textView) \<leftarrow> BoundedText jsonText jsonSize None;
        if st \<noteq> Ok then Some (st, documentId, s)
        else (case FlattenJson lexer dtoa flatten_throws (sv_text textView) empty_result of
                Threw \<Rightarrow> Some (InternalError, documentId, s)
              | Returned (st, flattened) \<Rightarrow>
                  if st \<noteq> Ok then Some (st, documentId, s)
                  else if insert_throws then Some (InternalError, documentId, s)
                  else do {
                    (st, newId, s) \<leftarrow> InsertDocument ticks flattened 0 s;
                    Some (st, if st = Ok then newId else documentId, s)
                  })
      })"

definition CountJsonEntries :: "bool \<Rightarrow> u32 \<Rightarrow> json_store \<Rightarrow> status \<times> u32" where
  "CountJsonEntries throws documentId s =
     (if throws then (InternalError, 0) else CountEntries documentId 0 s)"

definition ReadJsonEntry ::
  "bool \<Rightarrow> u32 \<Rightarrow> u32 \<Rightarrow> cbuf \<Rightarrow> u32 \<Rightarrow> cbuf \<Rightarrow> u32 \<Rightarrow> json_store \<Rightarrow> (status \<times> cbuf \<times> cbuf \<times> i32) mem" where
  "ReadJsonEntry throws documentId entryIndex key keySize val valSize s =
     (if throws then Some (InternalError, key, val, 0)
      else do {
        (st, key, val, typ) \<leftarrow> ReadEntry documentId entryIndex key keySize val valSize EntryNone s;
        Some (st, key, val, if st = Ok then entry_type_code typ else 0)
      })"

definition ReadJsonValue ::
  "(f64 \<Rightarrow> string) \<Rightarrow> bool \<Rightarrow> u32 \<Rightarrow> cbuf \<Rightarrow> u32 \<Rightarrow> cbuf \<Rightarrow> u32 \<Rightarrow> json_store \<Rightarrow> (status \<times> cbuf \<times> i32) mem" where
  "ReadJsonValue dtoa throws documentId pathText pathSize val valSize s =
     do {
       (st, pathView) \<leftarrow> BoundedText pathText pathSize None;
       if st \<noteq> Ok then Some (st, val, 0)
       else if throws then Some (InternalError, val, 0)
       else do {
         (st, val, typ) \<leftarrow> ReadValue dtoa documentId pathView val valSize EntryNone s;
         Some (st, val, if st = Ok then entry_type_code typ else 0)
       }
     }"

text \<open>\<open>ReadTypedAt\<close>: \<open>zero\<close> is \<open>Out{}\<close>.\<close>

definition ReadTypedAt ::
  "bool \<Rightarrow> u32 \<Rightarrow> cbuf \<Rightarrow> u32 \<Rightarrow> 'o \<Rightarrow> (json \<Rightarrow> PathTokens \<Rightarrow> 'o \<Rightarrow> status \<times> 'o) \<Rightarrow> json_store \<Rightarrow>
     (status \<times> 'o) mem" where
  "ReadTypedAt throws documentId pathText pathSize zero read s =
     (let out = zero in do {
        (st, pathView) \<leftarrow> BoundedText pathText pathSize None;
        if st \<noteq> Ok then Some (st, out)
        else if throws then Some (InternalError, zero)
        else Some (ReadWithTokens documentId pathView read out s)
      })"

definition ReadJsonLong :: "bool \<Rightarrow> u32 \<Rightarrow> cbuf \<Rightarrow> u32 \<Rightarrow> json_store \<Rightarrow> (status \<times> i32) mem" where
  "ReadJsonLong throws documentId pathText pathSize s =
     ReadTypedAt throws documentId pathText pathSize 0 ReadLongAt s"

definition ReadJsonDouble :: "bool \<Rightarrow> u32 \<Rightarrow> cbuf \<Rightarrow> u32 \<Rightarrow> json_store \<Rightarrow> (status \<times> f64) mem" where
  "ReadJsonDouble throws documentId pathText pathSize s =
     ReadTypedAt throws documentId pathText pathSize 0 ReadDoubleAt s"

definition ReadJsonBool :: "bool \<Rightarrow> u32 \<Rightarrow> cbuf \<Rightarrow> u32 \<Rightarrow> json_store \<Rightarrow> (status \<times> i32) mem" where
  "ReadJsonBool throws documentId pathText pathSize s =
     do {
       (st, flag) \<leftarrow> ReadTypedAt throws documentId pathText pathSize False ReadBoolAt s;
       Some (st, if st = Ok \<and> flag then 1 else 0)
     }"

definition CountJsonElements :: "bool \<Rightarrow> u32 \<Rightarrow> cbuf \<Rightarrow> u32 \<Rightarrow> json_store \<Rightarrow> (status \<times> u32) mem" where
  "CountJsonElements throws documentId pathText pathSize s =
     ReadTypedAt throws documentId pathText pathSize 0 CountElementsAt s"

definition DiscardJsonDocument :: "bool \<Rightarrow> u32 \<Rightarrow> json_store \<Rightarrow> status \<times> json_store" where
  "DiscardJsonDocument throws documentId s =
     (if throws then (InternalError, s) else DiscardDocument documentId s)"

definition DiscardAllJsonDocuments :: "bool \<Rightarrow> json_store \<Rightarrow> status \<times> u32 \<times> json_store" where
  "DiscardAllJsonDocuments throws s =
     (if throws then (InternalError, 0, s) else DiscardAllDocuments s)"

text \<open>\<open>normalized[0] = '\0'\<close>.\<close>

definition put_nul :: "cbuf \<Rightarrow> cbuf mem" where
  "put_nul p = (case p of NullPtr \<Rightarrow> None | Buf b \<Rightarrow> map_option Buf (mem_write b 0 [NUL]))"

text \<open>
  Here the exception can only come from the conversion, the parse check or the copies they make,
  with the output already emptied. The input and output buffers are different arrays.
\<close>

definition NormalizeJsonText ::
  "(string \<Rightarrow> token list) \<Rightarrow> bool \<Rightarrow> cbuf \<Rightarrow> u32 \<Rightarrow> cbuf \<Rightarrow> u32 \<Rightarrow> (status \<times> cbuf) mem" where
  "NormalizeJsonText lexer throws jsonText jsonSize normalized normalizedSize =
     do {
       (st, textView) \<leftarrow> BoundedText jsonText jsonSize None;
       normalized \<leftarrow> (if st = UnterminatedInputText \<and> normalized \<noteq> NullPtr \<and> normalizedSize \<noteq> 0
                     then put_nul normalized else Some normalized);
       if st \<noteq> Ok then Some (st, normalized)
       else if normalized = NullPtr \<or> normalizedSize = 0 then Some (InvalidArgument, normalized)
       else do {
         normalized \<leftarrow> put_nul normalized;
         if length (sv_text textView) > kMaxJsonInputBytes then Some (DocumentTooLarge, normalized)
         else if sv_text textView = [] then Some (ParseError, normalized)
         else if throws then do { normalized \<leftarrow> put_nul normalized; Some (InternalError, normalized) }
         else (case ConvertApostropheStrings (sv_text textView) of
                 (st, converted) \<Rightarrow>
                   if st \<noteq> Ok then Some (st, normalized)
                   else if \<not> json_accept (lexer converted) then Some (ParseError, normalized)
                   else CopyToBuffer converted normalized normalizedSize)
       }
     }"

section \<open>The operations over the map of documents\<close>

lemma CountEntries_lookup:
  "CountEntries i n s = (case lookup_document s i of
     None \<Rightarrow> (UnknownDocumentId, n) | Some r \<Rightarrow> (Ok, of_nat (length (entries r))))"
  by (simp add: CountEntries_def lookup_document_def split: option.split)

lemma ReadEntry_lookup:
  "ReadEntry i k key keySize val valSize typ s =
     (case lookup_document s i of
        None \<Rightarrow> Some (UnknownDocumentId, key, val, typ)
      | Some r \<Rightarrow>
          if unat k \<ge> length (entries r) then Some (IndexOutOfRange, key, val, typ)
          else do {
            (st, key, val) \<leftarrow> CopyEntryTexts (entries r ! unat k) key keySize val valSize;
            Some (st, key, val, if st = Ok then entry_type (entries r ! unat k) else typ)
          })"
  by (simp add: ReadEntry_def lookup_document_def Let_def split: option.split)

lemma ReadValue_lookup:
  "ReadValue dtoa i path val valSize typ s =
     (case lookup_document s i of
        None \<Rightarrow> Some (UnknownDocumentId, val, typ)
      | Some r \<Rightarrow>
          (case ResolvePath (document r) path None of
             (st, node) \<Rightarrow>
               if st \<noteq> Ok then Some (st, val, typ)
               else (case DescribeLeaf dtoa (the node) [] EntryNone of
                  (st, str, leaftyp) \<Rightarrow>
                    if st \<noteq> Ok then Some (st, val, typ)
                    else do {
                      (st, val) \<leftarrow> CopyToBuffer str val valSize;
                      Some (st, val, if st = Ok then leaftyp else typ)
                    })))"
  by (simp add: ReadValue_def lookup_document_def split: option.split)

lemma ReadWithTokens_lookup:
  "ReadWithTokens i path read out s =
     (case ParsePath path [] of
        (st, ts) \<Rightarrow>
          if st \<noteq> Ok then (st, out)
          else (case lookup_document s i of
                  None \<Rightarrow> (UnknownDocumentId, out)
                | Some r \<Rightarrow> read (document r) ts out))"
  by (simp add: ReadWithTokens_def lookup_document_def split: option.split prod.split)

lemmas lookup_simps = CountEntries_lookup ReadEntry_lookup ReadValue_lookup ReadWithTokens_lookup

section \<open>Parsing into the store\<close>

lemma ParseJsonDocument_Ok:
  assumes "store_ok dtoa s" "ParseJsonDocument lexer dtoa ft it ticks p n s = Some (Ok, i, s')"
  obtains b t where "p = Buf b" "NUL \<in> set (take (unat n) b)" "acceptable_text (c_string b)"
    "tree_of (lexer (quoted (c_string b))) t" "within_limits t"
    "i \<noteq> 0" "lookup_document s i = None" "store_ok dtoa s'"
    "lookup_document s' = (lookup_document s)(i \<mapsto> \<lparr>document = collapse t, entries = flat_entries dtoa (collapse t)\<rparr>)"
proof -
  obtain view r where view: "BoundedText p n None = Some (Ok, view)"
    and flat: "FlattenJson lexer dtoa ft (sv_text view) empty_result = Returned (Ok, r)"
    and ins: "InsertDocument ticks r 0 s = Some (Ok, i, s')"
    using assms(2) by (auto simp: ParseJsonDocument_def Let_def split: Option.bind_splits if_splits outcome.splits prod.splits)
  obtain b where b: "p = Buf b" "NUL \<in> set (take (unat n) b)" "view = Some (c_string b)"
    using view by (auto simp: BoundedText_Ok_iff)
  obtain t where t: "acceptable_text (c_string b)" "tree_of (lexer (quoted (c_string b))) t" "within_limits t"
    "r = \<lparr>document = collapse t, entries = flat_entries dtoa (collapse t)\<rparr>"
    using FlattenJson_success [OF flat] b(3) by auto
  from store.insert_Ok [OF assms(1) FlattenJson_result_ok [OF flat] ins]
  show thesis using that [OF b(1,2) t(1-3)] t(4) by blast
qed

lemma ParseJsonDocument_failure:
  "ParseJsonDocument lexer dtoa ft it ticks p n s = Some (st, i, s') \<Longrightarrow> st \<noteq> Ok \<Longrightarrow> i = 0 \<and> s' = s"
  using store.insert_fails [of ticks _ 0 s st]
  by (auto simp: ParseJsonDocument_def Let_def split: Option.bind_splits if_splits outcome.splits prod.splits)

lemma ParseJsonDocument_defined:
  assumes "store_ok dtoa s" "buf_ok p n"
  shows "\<exists>st i s'. ParseJsonDocument lexer dtoa ft it ticks p n s = Some (st, i, s') \<and> store_ok dtoa s'"
proof -
  obtain st view where view: "BoundedText p n None = Some (st, view)"
    using BoundedText_defined [OF assms(2)] by blast
  show ?thesis
  proof (cases "FlattenJson lexer dtoa ft (sv_text view) empty_result")
    case (Returned x)
    obtain fst r where x: "x = (fst, r)" by (cases x)
    show ?thesis
    proof (cases "st = Ok \<and> fst = Ok \<and> \<not> it")
      case True
      obtain st' i s' where ins: "InsertDocument ticks r 0 s = Some (st', i, s')"
        using store.insert_total [OF assms(1)] by (metis option.exhaust prod.exhaust)
      have "result_ok dtoa r" using Returned x True FlattenJson_result_ok by blast
      then have "store_ok dtoa s'"
        using store.insert_Ok [OF assms(1) _ , of r ticks 0 i s'] store.insert_fails [OF ins] ins assms(1)
        by (cases "st' = Ok") auto
      then show ?thesis using view Returned x True ins by (simp add: ParseJsonDocument_def)
    qed (use view Returned x assms(1) in \<open>auto simp: ParseJsonDocument_def\<close>)
  qed (use view assms(1) in \<open>auto simp: ParseJsonDocument_def\<close>)
qed

section \<open>Typed reads\<close>

lemma ReadWithTokens_Ok_iff:
  "ReadWithTokens i path read out s = (Ok, v) \<longleftrightarrow>
     (\<exists>ts r. ParsePath path [] = (Ok, ts) \<and> lookup_document s i = Some r \<and> read (document r) ts out = (Ok, v))"
  by (cases "ParsePath path []"; cases "lookup_document s i") (auto simp: ReadWithTokens_lookup)

context typed_read
begin

lemma ReadTypedAt_Ok_iff:
  "ReadTypedAt False i p n zero read s = Some (Ok, v) \<longleftrightarrow>
     (\<exists>b ts r node. p = Buf b \<and> NUL \<in> set (take (unat n) b) \<and> pointer_of ts = c_string b \<and>
        lookup_document s i = Some r \<and> reaches (document r) ts node \<and> convert node = Some v)"
proof -
  have "ReadTypedAt False i p n zero read s = Some (Ok, v) \<longleftrightarrow>
      (\<exists>b. p = Buf b \<and> NUL \<in> set (take (unat n) b) \<and> ReadWithTokens i (Some (c_string b)) read zero s = (Ok, v))"
  proof (cases "\<exists>b. p = Buf b \<and> NUL \<in> set (take (unat n) b)")
    case True
    then show ?thesis by (auto simp: ReadTypedAt_def mem_simps)
  next
    case False
    then have "BoundedText p n None \<noteq> Some (Ok, w)" for w using BoundedText_Ok_iff by blast
    with False show ?thesis by (auto simp: ReadTypedAt_def split: Option.bind_splits if_splits)
  qed
  also have "\<dots> \<longleftrightarrow> (\<exists>b ts r. p = Buf b \<and> NUL \<in> set (take (unat n) b) \<and> ParsePath (Some (c_string b)) [] = (Ok, ts) \<and>
      lookup_document s i = Some r \<and> read (document r) ts zero = (Ok, v))"
    by (simp only: ReadWithTokens_Ok_iff) blast
  finally show ?thesis by (simp add: ptr.ParsePath_Ok_iff read_Ok_iff)
qed

lemma ReadTypedAt_failure:
  "ReadTypedAt throws i p n zero read s = Some (st, v) \<Longrightarrow> st \<noteq> Ok \<Longrightarrow> v = zero"
  by (auto simp: ReadTypedAt_def ReadWithTokens_lookup dest: read_failure_keeps ParsePath_failure
      split: Option.bind_splits if_splits prod.splits option.splits)

end

lemma ReadTypedAt_defined: "buf_ok p n \<Longrightarrow> ReadTypedAt throws i p n zero read s \<noteq> None"
  using BoundedText_defined [of p n None] by (auto simp: ReadTypedAt_def)

section \<open>Entries and values\<close>

lemma nul_free_pointer:
  "(p, l) \<in> set (leaves v) \<Longrightarrow> \<not> nul_in_key v \<Longrightarrow> NUL \<notin> set (pointer_of p)"
proof (induction v arbitrary: p)
  case (JArray xs)
  have digits: "NUL \<notin> set (to_string n)" for n
    using to_string_digits [of NUL n] by (auto simp: IsDigit_def)
  show ?case
  proof (cases "xs = []")
    case False
    then obtain j q where j: "j < length xs" "p = to_string j # q" "(q, l) \<in> set (leaves (xs ! j))"
      using JArray.prems(1) by (auto simp: mem_below_indices mem_below)
    with JArray.IH [of "xs ! j" q] JArray.prems(2) digits show ?thesis by auto
  qed (use JArray.prems in auto)
next
  case (JObject fs)
  have escape: "NUL \<notin> set t \<Longrightarrow> NUL \<notin> set (escape_token t)" for t
    by (induction t) auto
  show ?case
  proof (cases "fs = []")
    case False
    then obtain f q where f: "f \<in> set fs" "p = fst f # q" "(q, l) \<in> set (leaves (snd f))"
      using JObject.prems(1) by (auto simp: mem_below)
    with JObject.IH [of f "snd f" q] JObject.prems(2) escape show ?thesis by (auto simp: snds.simps)
  qed (use JObject.prems in auto)
qed auto

lemma entry_key_nul_free:
  assumes "result_ok dtoa r" "e \<in> set (entries r)"
  shows "NUL \<notin> set (entry_key e)"
  using assms nul_free_pointer [of _ _ "document r"]
  by (auto simp: result_ok_def entries_at_def within_limits_def)

lemma CopyToBuffer_Ok:
  "buf_ok p n \<Longrightarrow> CopyToBuffer str p n = Some (Ok, p') \<longleftrightarrow>
     (\<exists>b. p = Buf b \<and> length str < unat n \<and> p' = Buf (str @ NUL # drop (Suc (length str)) b))"
  by (erule CopyToBuffer_cases [of p n str]) auto

lemma CopyEntryTexts_Ok:
  assumes "buf_ok key n" "buf_ok val m" "CopyEntryTexts e key n val m = Some (Ok, key', val')"
  obtains kb vb where "key = Buf kb" "val = Buf vb" "length (entry_key e) < unat n" "length (entry_value e) < unat m"
    "key' = Buf (entry_key e @ NUL # drop (Suc (length (entry_key e))) kb)"
    "val' = Buf (entry_value e @ NUL # drop (Suc (length (entry_value e))) vb)"
proof -
  have "CopyToBuffer (entry_key e) key n = Some (Ok, key')" "CopyToBuffer (entry_value e) val m = Some (Ok, val')"
    using assms(3)
    by (auto simp: CopyEntryTexts_def split: if_splits Option.bind_splits cbuf.splits prod.splits)
  then show thesis using that assms(1,2) by (auto simp: CopyToBuffer_Ok)
qed

lemma CopyEntryTexts_defined:
  assumes "buf_ok key n" "buf_ok val m"
  shows "\<exists>st key' val'. CopyEntryTexts e key n val m = Some (st, key', val') \<and>
    (st \<noteq> Ok \<longrightarrow> st = InvalidArgument \<and> key' = key \<and> val' = val \<or>
      st = BufferTooSmall \<and> (\<exists>kb vb. key' = Buf (NUL # kb) \<and> val' = Buf (NUL # vb)))"
proof (cases "key = NullPtr \<or> n = 0 \<or> val = NullPtr \<or> m = 0")
  case False
  then obtain kb vb where bufs: "key = Buf kb" "val = Buf vb" by (cases key; cases val) auto
  have pos: "0 < unat n" "0 < unat m" using False by (simp_all add: unat_gt_0)
  with assms bufs obtain k ks v vs where cons: "kb = k # ks" "vb = v # vs"
    by (cases kb; cases vb) auto
  show ?thesis
  proof (cases rule: CopyToBuffer_cases [OF assms(1), of "entry_key e", case_names Null Zero Small Fits])
    case (Small b)
    then show ?thesis using False bufs cons
      by (cases rule: CopyToBuffer_cases [OF assms(2), of "entry_value e"])
        (auto simp: CopyEntryTexts_def mem_write_def)
  next
    case (Fits b)
    then show ?thesis using False bufs cons
      by (cases rule: CopyToBuffer_cases [OF assms(2), of "entry_value e"])
        (auto simp: CopyEntryTexts_def mem_write_def)
  qed (use False bufs in auto)
qed (simp add: CopyEntryTexts_def)

lemma ReadJsonEntry_Ok:
  assumes "store_ok dtoa s" "buf_ok key n" "buf_ok val m"
    and "ReadJsonEntry throws i k key n val m s = Some (Ok, key', val', typ)"
  obtains r e kb vb where "lookup_document s i = Some r" "unat k < length (entries r)" "e = entries r ! unat k"
    "key = Buf kb" "val = Buf vb" "length (entry_key e) < unat n" "length (entry_value e) < unat m"
    "key' = Buf (entry_key e @ NUL # drop (Suc (length (entry_key e))) kb)"
    "val' = Buf (entry_value e @ NUL # drop (Suc (length (entry_value e))) vb)" "typ = entry_type_code (entry_type e)"
proof -
  obtain r where r: "lookup_document s i = Some r" "unat k < length (entries r)"
    and copy: "CopyEntryTexts (entries r ! unat k) key n val m = Some (Ok, key', val')"
    and ty: "typ = entry_type_code (entry_type (entries r ! unat k))"
    using assms(4) by (auto simp: ReadJsonEntry_def ReadEntry_lookup split: if_splits option.splits Option.bind_splits)
  from CopyEntryTexts_Ok [OF assms(2,3) copy] show thesis using that [OF r refl] ty by blast
qed

text \<open>
  The key an entry reports, handed back as a path from the very buffer it was written to,
  reads the same value and type.
\<close>

lemma entry_key_reads_back:
  assumes "store_ok dtoa s" "buf_ok key n" "buf_ok val m"
    and "ReadJsonEntry throws i k key n val m s = Some (Ok, key', val', typ)"
  shows "ReadJsonValue dtoa False i key' n val m s = Some (Ok, val', typ)"
proof -
  obtain r e kb vb where r: "lookup_document s i = Some r" "unat k < length (entries r)" "e = entries r ! unat k"
    and val: "val = Buf vb" "length (entry_value e) < unat m"
      "val' = Buf (entry_value e @ NUL # drop (Suc (length (entry_value e))) vb)"
    and key: "length (entry_key e) < unat n"
      "key' = Buf (entry_key e @ NUL # drop (Suc (length (entry_key e))) kb)"
    and ty: "typ = entry_type_code (entry_type e)"
    using ReadJsonEntry_Ok [OF assms] by metis
  have ok: "result_ok dtoa r" by (rule store.lookup_good [OF assms(1) r(1)])
  have e: "e \<in> set (entries r)" using r by simp
  obtain leaf where leaf: "ResolvePath (document r) (Some (entry_key e)) None = (Ok, Some leaf)"
    "DescribeLeaf dtoa leaf [] EntryNone = (Ok, entry_value e, entry_type e)"
    using result_ok_entry [OF ok e, of None "[]" EntryNone] by blast
  have "BoundedText key' n None = Some (Ok, Some (entry_key e))"
    using entry_key_nul_free [OF ok e] key by (simp add: BoundedText_terminated)
  moreover have "CopyToBuffer (entry_value e) val m = Some (Ok, val')"
    using assms(3) val by (simp add: CopyToBuffer_Ok)
  ultimately show ?thesis using r leaf ty by (simp add: ReadJsonValue_def ReadValue_lookup)
qed

section \<open>Normalizing\<close>

lemma put_nul_simps [simp]:
  "b \<noteq> [] \<Longrightarrow> put_nul (Buf b) = Some (Buf (NUL # tl b))"
  by (cases b) (simp_all add: put_nul_def mem_write_def)

definition empty_text :: "cbuf \<Rightarrow> bool" where
  "empty_text p \<longleftrightarrow> (case p of NullPtr \<Rightarrow> False | Buf b \<Rightarrow> b \<noteq> [] \<and> hd b = NUL)"

text \<open>Success, for a terminated text and a real output buffer.\<close>

definition normal_form :: "string \<Rightarrow> string" where
  "normal_form str = snd (ConvertApostropheStrings str)"

lemma NormalizeJsonText_text:
  assumes "NUL \<in> set (take (unat n) b)" "m \<noteq> 0" "unat m \<le> length c"
  shows "NormalizeJsonText lexer throws (Buf b) n (Buf c) m =
    (if length (c_string b) > kMaxJsonInputBytes then Some (DocumentTooLarge, Buf (NUL # tl c))
     else if c_string b = [] then Some (ParseError, Buf (NUL # tl c))
     else if throws then Some (InternalError, Buf (NUL # tl c))
     else if \<not> json_accept (lexer (normal_form (c_string b))) then Some (ParseError, Buf (NUL # tl c))
     else CopyToBuffer (normal_form (c_string b)) (Buf (NUL # tl c)) m)"
proof -
  have "c \<noteq> []" using assms(2,3) by (auto simp: unat_eq_0)
  then show ?thesis using assms
    by (simp add: NormalizeJsonText_def mem_simps normal_form_def ConvertApostropheStrings_def)
qed

lemma NormalizeJsonText_Ok_iff:
  assumes "buf_ok p n" "buf_ok q m"
  shows "NormalizeJsonText lexer False p n q m = Some (Ok, q') \<longleftrightarrow>
    (\<exists>b c. p = Buf b \<and> q = Buf c \<and> NUL \<in> set (take (unat n) b) \<and>
       c_string b \<noteq> [] \<and> length (c_string b) \<le> kMaxJsonInputBytes \<and>
       json_accept (lexer (normal_form (c_string b))) \<and> length (normal_form (c_string b)) < unat m \<and>
       q' = Buf (normal_form (c_string b) @ NUL # drop (Suc (length (normal_form (c_string b)))) c))"
proof (cases "\<exists>b c. p = Buf b \<and> q = Buf c \<and> NUL \<in> set (take (unat n) b) \<and> m \<noteq> 0")
  case True
  then obtain b c where bc: "p = Buf b" "q = Buf c" "NUL \<in> set (take (unat n) b)" "m \<noteq> 0" by blast
  then have m: "unat m \<le> length c" using assms by simp
  have "0 < unat m" using bc(4) by (simp add: unat_gt_0)
  with m have "length (NUL # tl c) = length c" by (cases c) simp_all
  with m have ok: "buf_ok (Buf (NUL # tl c)) m" by simp
  have "drop (Suc k) (NUL # tl c) = drop (Suc k) c" for k by (simp add: drop_Suc)
  with bc m show ?thesis
    by (auto simp: NormalizeJsonText_text CopyToBuffer_Ok [OF ok] not_less)
next
  case False
  show ?thesis
  proof (cases "\<exists>b. p = Buf b \<and> NUL \<in> set (take (unat n) b)")
    case True
    with False have "q = NullPtr \<or> m = 0" by (cases q) auto
    with True show ?thesis by (auto simp: NormalizeJsonText_def mem_simps)
  next
    case no: False
    then have "BoundedText p n None \<noteq> Some (Ok, w)" for w using BoundedText_Ok_iff by blast
    with no show ?thesis
      by (auto simp: NormalizeJsonText_def split: Option.bind_splits if_splits)
  qed
qed

text \<open>Every failure but \<open>InvalidArgument\<close> leaves an empty text, and the call stays in its buffers.\<close>

lemma NormalizeJsonText_failure:
  assumes "buf_ok p n" "buf_ok q m"
  shows "\<exists>st q'. NormalizeJsonText lexer throws p n q m = Some (st, q') \<and>
    (st = InvalidArgument \<longrightarrow> q' = q) \<and>
    (st \<notin> {Ok, InvalidArgument} \<longrightarrow> q' = q \<and> (q = NullPtr \<or> m = 0) \<or> empty_text q')"
proof (cases "q = NullPtr \<or> m = 0")
  case True
  obtain st view where "BoundedText p n None = Some (st, view)" using BoundedText_defined [OF assms(1)] by blast
  with True show ?thesis by (auto simp: NormalizeJsonText_def)
next
  case False
  then obtain c where c0: "q = Buf c" "m \<noteq> 0" by (cases q) auto
  have "0 < unat m" using c0(2) by (simp add: unat_gt_0)
  then have c: "q = Buf c" "m \<noteq> 0" "c \<noteq> []" using c0 assms(2) by auto
  have m: "unat m \<le> length c" using assms(2) c by simp
  show ?thesis
  proof (cases "\<exists>b. p = Buf b \<and> NUL \<in> set (take (unat n) b)")
    case True
    then obtain b where b: "p = Buf b" "NUL \<in> set (take (unat n) b)" by blast
    have "buf_ok (Buf (NUL # tl c)) m" using m c(3) by (cases c) simp_all
    then show ?thesis
      by (cases rule: CopyToBuffer_cases [of _ _ "normal_form (c_string b)"])
        (use b c m in \<open>auto simp: NormalizeJsonText_text empty_text_def\<close>)
  next
    case False
    obtain st view where view: "BoundedText p n None = Some (st, view)" using BoundedText_defined [OF assms(1)] by blast
    with False have "st \<noteq> Ok" using BoundedText_Ok_iff by blast
    with BoundedText_not_Ok [OF view] view c show ?thesis
      by (auto simp: NormalizeJsonText_def empty_text_def)
  qed
qed

section \<open>Sessions\<close>

text \<open>The states of the store after any sequence of CAPL calls that change it, failing ones included.\<close>

inductive json_session ::
  "(string \<Rightarrow> token list) \<Rightarrow> (f64 \<Rightarrow> string) \<Rightarrow> json_store \<Rightarrow> bool" for lexer dtoa where
  session_start: "json_session lexer dtoa JsonDocumentStore"
| session_parse: "json_session lexer dtoa s \<Longrightarrow>
    ParseJsonDocument lexer dtoa ft it ticks p n s = Some (st, i, s') \<Longrightarrow> json_session lexer dtoa s'"
| session_discard: "json_session lexer dtoa s \<Longrightarrow>
    DiscardJsonDocument throws i s = (st, s') \<Longrightarrow> json_session lexer dtoa s'"
| session_discard_all: "json_session lexer dtoa s \<Longrightarrow>
    DiscardAllJsonDocuments throws s = (st, n, s') \<Longrightarrow> json_session lexer dtoa s'"

lemma json_session_ok: "json_session lexer dtoa s \<Longrightarrow> store_ok dtoa s"
proof (induction rule: json_session.induct)
  case (session_parse s ft it ticks p n st i s')
  then show ?case
    by (cases "st = Ok") (blast elim: ParseJsonDocument_Ok, use ParseJsonDocument_failure in blast)
next
  case (session_discard s throws i st s')
  then show ?case using store.discard_known [of dtoa s i] store.discard_unknown [of s i]
    by (cases "lookup_document s i") (auto simp: DiscardJsonDocument_def split: if_splits)
next
  case (session_discard_all s throws st n s')
  then show ?case using store.discard_everything [of dtoa s]
    by (auto simp: DiscardAllJsonDocuments_def split: if_splits)
qed (rule store_ok_start)

section \<open>Properties\<close>

text \<open>C20: However CAPL calls the parsing and discarding operations, the store keeps at most eight
  documents under distinct nonzero ids, and every stored document is within the limits, has no
  repeated keys and lists exactly its leaves.\<close>
theorem json_store_invariant:
  assumes "json_session lexer dtoa s"
  shows "store_ok dtoa s \<and> card (dom (lookup_document s)) \<le> kJsonDocumentSlotCount \<and>
    (\<forall>r \<in> ran (lookup_document s). result_ok dtoa r)"
proof -
  have ok: "store_ok dtoa s" by (rule json_session_ok [OF assms])
  have "card (dom (lookup_document s)) \<le> length (live_ids (doc_slots s))"
    unfolding dom_lookup_document [OF ok] by (rule card_length)
  also have "\<dots> \<le> kJsonDocumentSlotCount"
    using ok length_filter_le [of occupied "doc_slots s"] by (simp add: store_ok_def live_ids_def)
  finally show ?thesis using ok store.lookup_good [OF ok] by (auto simp: ran_def)
qed

theorem json_store_invariant_witness:
  "card (dom (lookup_document JsonDocumentStore)) \<le> kJsonDocumentSlotCount"
  using json_store_invariant [OF session_start [of sample_tokens "\<lambda>d. []"]] by blast

text \<open>C1: A successful parse returns a fresh nonzero id under which the store then holds the document
  of the text, with its leaves as entries, and changes nothing else; a failing one returns id
  0 and changes nothing.\<close>
theorem parse_json_document:
  assumes "store_ok dtoa s"
    and "ParseJsonDocument lexer dtoa ft it ticks p n s = Some (st, i, s')"
  shows "if st = Ok
    then i \<noteq> 0 \<and> lookup_document s i = None \<and> store_ok dtoa s' \<and>
      (\<exists>b t. p = Buf b \<and> NUL \<in> set (take (unat n) b) \<and> acceptable_text (c_string b) \<and>
         tree_of (lexer (quoted (c_string b))) t \<and> within_limits t \<and>
         lookup_document s' = (lookup_document s)(i \<mapsto>
           \<lparr>document = collapse t, entries = flat_entries dtoa (collapse t)\<rparr>))
    else i = 0 \<and> s' = s"
proof (cases "st = Ok")
  case True
  show ?thesis unfolding if_P [OF True]
    by (rule ParseJsonDocument_Ok [OF assms(1) assms(2) [unfolded True]]) blast
next
  case False
  with ParseJsonDocument_failure [OF assms(2)] show ?thesis by simp
qed

theorem parse_json_document_witness:
  "ParseJsonDocument sample_tokens (\<lambda>d. []) False False 0 (Buf [CHR ''x'']) 1 JsonDocumentStore
     = Some (UnterminatedInputText, 0, JsonDocumentStore)"
proof -
  have "ParseJsonDocument sample_tokens (\<lambda>d. []) False False 0 (Buf [CHR ''x'']) 1 JsonDocumentStore
      = Some (UnterminatedInputText, 0, JsonDocumentStore)"
    by (simp add: ParseJsonDocument_def BoundedText_def)
  with parse_json_document [OF store_ok_start(1) this] show ?thesis by simp
qed

text \<open>Parsing stays inside the caller's text, always returns, and keeps the store well-formed.\<close>
theorem parse_json_document_returns:
  assumes "store_ok dtoa s" "buf_ok p n"
  shows "\<exists>st i s'. ParseJsonDocument lexer dtoa ft it ticks p n s = Some (st, i, s') \<and> store_ok dtoa s'"
  using assms by (rule ParseJsonDocument_defined)

theorem parse_json_document_returns_witness:
  "\<exists>st i s'. ParseJsonDocument sample_tokens (\<lambda>d. []) False False 5 (Buf (''{}'' @ [NUL])) 3 JsonDocumentStore
     = Some (st, i, s') \<and> store_ok (\<lambda>d. []) s'"
  by (rule parse_json_document_returns) (simp_all add: store_ok_start)

text \<open>Reading a 32-bit integer at a path succeeds exactly when the terminated path text is the
  pointer of tokens that lead, in the stored document, to a value that converts to it.\<close>
theorem read_json_long_iff:
  "ReadJsonLong False i p n s = Some (Ok, v) \<longleftrightarrow>
     (\<exists>b ts r node. p = Buf b \<and> NUL \<in> set (take (unat n) b) \<and> pointer_of ts = c_string b \<and>
        lookup_document s i = Some r \<and> reaches (document r) ts node \<and> ToLong node 0 = (Ok, v))"
  unfolding ReadJsonLong_def long_read.ReadTypedAt_Ok_iff long_of_Some ..

text \<open>A failing typed read reports zero in its output, whatever was there before.\<close>
theorem typed_reads_zero_on_failure:
  assumes "ReadJsonLong throws i p n s = Some (st1, l)" "ReadJsonDouble throws i p n s = Some (st2, d)"
    and "ReadJsonBool throws i p n s = Some (st3, b)" "CountJsonElements throws i p n s = Some (st4, c)"
  shows "(st1 \<noteq> Ok \<longrightarrow> l = 0) \<and> (st2 \<noteq> Ok \<longrightarrow> d = 0) \<and> (st3 \<noteq> Ok \<longrightarrow> b = 0) \<and> (st4 \<noteq> Ok \<longrightarrow> c = 0)"
  using assms long_read.ReadTypedAt_failure [of throws i p n 0 s st1 l] double_read.ReadTypedAt_failure [of throws i p n 0 s st2 d]
    count_read.ReadTypedAt_failure [of throws i p n 0 s st4 c]
  by (auto simp: ReadJsonLong_def ReadJsonDouble_def CountJsonElements_def ReadJsonBool_def split: Option.bind_splits)

theorem typed_reads_zero_on_failure_witness:
  "ReadJsonLong False 1 NullPtr 0 JsonDocumentStore = Some (InvalidArgument, 0)"
proof -
  let ?s = JsonDocumentStore
  have "ReadJsonLong False 1 NullPtr 0 ?s = Some (InvalidArgument, 0)" "ReadJsonDouble False 1 NullPtr 0 ?s = Some (InvalidArgument, 0)"
    "ReadJsonBool False 1 NullPtr 0 ?s = Some (InvalidArgument, 0)" "CountJsonElements False 1 NullPtr 0 ?s = Some (InvalidArgument, 0)"
    by (simp_all add: ReadJsonLong_def ReadJsonDouble_def CountJsonElements_def ReadJsonBool_def ReadTypedAt_def BoundedText_def)
  with typed_reads_zero_on_failure [OF this] show ?thesis by simp
qed

text \<open>C24: The key an entry reports, handed back as a path from the very buffer it was written to, reads
  the same value text and type.\<close>
theorem entry_key_round_trip:
  assumes "store_ok dtoa s" "buf_ok key n" "buf_ok val m"
    and "ReadJsonEntry throws i k key n val m s = Some (Ok, key', val', entryType)"
  shows "ReadJsonValue dtoa False i key' n val m s = Some (Ok, val', entryType)"
  using assms by (rule entry_key_reads_back)

definition sample_store :: json_store where
  "sample_store = JsonDocumentStore\<lparr>doc_slots :=
     \<lparr>occupied = True, slot_id = 1, slot_result = sample_result\<rparr> # replicate 7 free_slot\<rparr>"

lemma sample_store_ok: "store_ok (\<lambda>d. []) sample_store"
  using FlattenJson_result_ok [OF sample_run]
  by (simp add: store_ok_def sample_store_def JsonDocumentStore_def live_ids_def free_slot_def kJsonDocumentSlotCount_def)

lemma sample_lookup: "lookup_document sample_store 1 = Some sample_result"
  by (simp add: lookup_document_find sample_store_def)

theorem entry_key_round_trip_witness:
  "ReadJsonValue (\<lambda>d. []) False 1 (Buf (''/a~1b/0'' @ [NUL])) 8 (Buf ''54321'') 5 sample_store
     = Some (Ok, Buf (''true'' @ [NUL]), 3)"
proof (rule entry_key_round_trip [OF sample_store_ok])
  show "ReadJsonEntry False 1 0 (Buf ''87654321'') 8 (Buf ''54321'') 5 sample_store =
      Some (Ok, Buf (''/a~1b/0'' @ [NUL]), Buf (''true'' @ [NUL]), 3)"
    by (simp add: ReadJsonEntry_def ReadEntry_lookup sample_lookup CopyEntryTexts_def CopyToBuffer_def mem_write_def)
      (simp add: sample_result_def)
qed simp_all

text \<open>Normalizing succeeds exactly on a non-empty terminated text of at most 1 MiB whose converted
  form is JSON and fits the output, and writes that form.\<close>
theorem normalize_json_text_exact:
  assumes "buf_ok p n" "buf_ok q m"
  shows "NormalizeJsonText lexer False p n q m = Some (Ok, q') \<longleftrightarrow>
    (\<exists>b c. p = Buf b \<and> q = Buf c \<and> NUL \<in> set (take (unat n) b) \<and>
       c_string b \<noteq> [] \<and> length (c_string b) \<le> kMaxJsonInputBytes \<and>
       (\<exists>t. tree_of (lexer (normal_form (c_string b))) t) \<and> length (normal_form (c_string b)) < unat m \<and>
       q' = Buf (normal_form (c_string b) @ NUL # drop (Suc (length (normal_form (c_string b)))) c))"
  unfolding NormalizeJsonText_Ok_iff [OF assms] json_accept_iff tree_of_def by blast

theorem normalize_json_text_exact_witness:
  "NormalizeJsonText (\<lambda>s. [LiteralTrue]) False (Buf (''true'' @ [NUL])) 5 (Buf ''123456'') 6
     = Some (Ok, Buf (''true'' @ [NUL] @ ''6''))"
proof -
  have "normal_form ''true'' = ''true''" by (simp add: normal_form_def ConvertApostropheStrings_def)
  moreover have "tree_of [LiteralTrue] (JBool True)" by (simp add: tree_of_def at_end_def get_token_def)
  ultimately show ?thesis
    by (subst normalize_json_text_exact) (auto simp: c_string_def kMaxJsonInputBytes_def)
qed

end
