(* ===== verification/Http_Client.thy ===== *)
theory Http_Client
  imports Status
begin

text \<open>
  \<open>src/http/http-client.cpp\<close>: the request and response types, the libcurl transport and the
  client in front of it. libcurl itself is a parameter, an environment that says what each of
  its calls returns and which callbacks a transfer runs; every call the transport makes is
  logged, so that options and resource handling are visible in the result.
\<close>

section \<open>Types\<close>

datatype HttpMethod = Get | Post | Put | Patch | Delete | Head

definition MethodForbidsBody :: "HttpMethod \<Rightarrow> bool" where
  "MethodForbidsBody m \<longleftrightarrow> m = Get \<or> m = Head \<or> m = Delete"

record HttpHeader =
  header_name :: string
  header_value :: string

definition kDefaultMaxResponseBytes :: u32 where "kDefaultMaxResponseBytes = 8 * 1024 * 1024"
definition kDefaultConnectTimeoutMs :: u32 where "kDefaultConnectTimeoutMs = 5000"
definition kDefaultTotalTimeoutMs :: u32 where "kDefaultTotalTimeoutMs = 30000"

record RequestOptions =
  connectTimeoutMs :: u32
  totalTimeoutMs :: u32
  maxResponseBytes :: u32
  skipTlsVerification :: bool

definition RequestOptions_default :: RequestOptions where
  "RequestOptions_default =
     \<lparr>connectTimeoutMs = 0, totalTimeoutMs = 0, maxResponseBytes = 0, skipTlsVerification = False\<rparr>"

definition MakeRequestOptions :: "u32 \<Rightarrow> u32 \<Rightarrow> u32 \<Rightarrow> RequestOptions" where
  "MakeRequestOptions connectMs totalMs maxBytes =
     RequestOptions_default\<lparr>connectTimeoutMs := connectMs, totalTimeoutMs := totalMs,
       maxResponseBytes := maxBytes, skipTlsVerification := False\<rparr>"

text \<open>\<open>cancelFlag\<close> is a pointer to a flag somebody else may set: the flag's number, or null.\<close>

record HttpRequest =
  request_method :: HttpMethod
  request_url :: string
  request_headers :: "HttpHeader list"
  request_body :: string
  request_options :: RequestOptions
  cancelFlag :: "nat option"

definition HttpRequest_default :: HttpRequest where
  "HttpRequest_default =
     \<lparr>request_method = Get, request_url = [], request_headers = [], request_body = [],
      request_options = RequestOptions_default, cancelFlag = None\<rparr>"

record HttpResponse =
  statusCode :: i32
  response_body :: string
  response_headers :: "HttpHeader list"

definition HttpResponse_default :: HttpResponse where
  "HttpResponse_default = \<lparr>statusCode = 0, response_body = [], response_headers = []\<rparr>"

section \<open>Helpers without libcurl\<close>

text \<open>\<open>size_t\<close> has the width of the build target, 32 or 64 bits: any width here.\<close>

definition WouldExceedResponseCap :: "'s::len word \<Rightarrow> 's word \<Rightarrow> u32 \<Rightarrow> bool" where
  "WouldExceedResponseCap currentSize incoming capBytes =
     (let cap = ucast capBytes in incoming > cap \<or> currentSize > cap - incoming)"

definition ResolveTransferResult :: "bool \<Rightarrow> status \<Rightarrow> status" where
  "ResolveTransferResult capExceeded mappedStatus = (if capExceeded then ResponseTooLarge else mappedStatus)"

definition ShouldCancelTransfer :: "(nat \<Rightarrow> bool) \<Rightarrow> nat option \<Rightarrow> bool" where
  "ShouldCancelTransfer flags flag = (case flag of None \<Rightarrow> False | Some i \<Rightarrow> flags i)"

text \<open>\<open>long\<close> has 32 bits on the target; \<open>LONG_MAX\<close> is \<open>2 ^ 31 - 1\<close>.\<close>

definition ClampToLong :: "u32 \<Rightarrow> i32" where
  "ClampToLong milliseconds = (let kLongMax = 2147483647 in if milliseconds > kLongMax then kLongMax else milliseconds)"

section \<open>libcurl's codes\<close>

datatype CURLcode =
    CURLE_OK | CURLE_OPERATION_TIMEDOUT | CURLE_URL_MALFORMAT | CURLE_UNSUPPORTED_PROTOCOL
  | CURLE_SSL_CONNECT_ERROR | CURLE_PEER_FAILED_VERIFICATION | CURLE_SSL_ENGINE_NOTFOUND
  | CURLE_SSL_ENGINE_SETFAILED | CURLE_SSL_CERTPROBLEM | CURLE_SSL_CIPHER | CURLE_USE_SSL_FAILED
  | CURLE_SSL_ENGINE_INITFAILED | CURLE_SSL_CACERT_BADFILE | CURLE_SSL_SHUTDOWN_FAILED
  | CURLE_SSL_CRL_BADFILE | CURLE_SSL_ISSUER_ERROR | CURLE_SSL_PINNEDPUBKEYNOTMATCH
  | CURLE_SSL_INVALIDCERTSTATUS | CURLE_SSL_CLIENTCERT
  | CURLE_COULDNT_RESOLVE_HOST | CURLE_COULDNT_RESOLVE_PROXY | CURLE_COULDNT_CONNECT
  | CURLE_SEND_ERROR | CURLE_RECV_ERROR | CURLE_GOT_NOTHING | CURLE_PARTIAL_FILE
  | CURLE_TOO_MANY_REDIRECTS | CURLE_ABORTED_BY_CALLBACK | CURLE_WRITE_ERROR
  | CURLE_other nat

definition tls_codes :: "CURLcode list" where
  "tls_codes =
     [CURLE_SSL_CONNECT_ERROR, CURLE_PEER_FAILED_VERIFICATION, CURLE_SSL_ENGINE_NOTFOUND,
      CURLE_SSL_ENGINE_SETFAILED, CURLE_SSL_CERTPROBLEM, CURLE_SSL_CIPHER, CURLE_USE_SSL_FAILED,
      CURLE_SSL_ENGINE_INITFAILED, CURLE_SSL_CACERT_BADFILE, CURLE_SSL_SHUTDOWN_FAILED,
      CURLE_SSL_CRL_BADFILE, CURLE_SSL_ISSUER_ERROR, CURLE_SSL_PINNEDPUBKEYNOTMATCH,
      CURLE_SSL_INVALIDCERTSTATUS, CURLE_SSL_CLIENTCERT]"

definition network_codes :: "CURLcode list" where
  "network_codes =
     [CURLE_COULDNT_RESOLVE_HOST, CURLE_COULDNT_RESOLVE_PROXY, CURLE_COULDNT_CONNECT,
      CURLE_SEND_ERROR, CURLE_RECV_ERROR, CURLE_GOT_NOTHING, CURLE_PARTIAL_FILE, CURLE_TOO_MANY_REDIRECTS]"

definition MapCurlCode :: "CURLcode \<Rightarrow> status" where
  "MapCurlCode code =
     (if code = CURLE_OK then Ok
      else if code = CURLE_OPERATION_TIMEDOUT then Timeout
      else if code \<in> {CURLE_URL_MALFORMAT, CURLE_UNSUPPORTED_PROTOCOL} then InvalidUrl
      else if code \<in> set tls_codes then TlsError
      else if code \<in> set network_codes then NetworkError
      else if code = CURLE_ABORTED_BY_CALLBACK then RequestCancelled
      else NetworkError)"

section \<open>Callbacks\<close>

record WriteContext =
  ctx_body :: string
  capBytes :: u32
  capExceeded :: bool

type_synonym size_t = "64 word"

text \<open>The returned count; \<open>alloc_ok\<close> says whether the append finds memory.\<close>

definition WriteCallback :: "string \<Rightarrow> bool \<Rightarrow> WriteContext \<Rightarrow> size_t \<times> WriteContext" where
  "WriteCallback chunk alloc_ok ctx =
     (let incoming = of_nat (length chunk)
      in if WouldExceedResponseCap (of_nat (length (ctx_body ctx))) incoming (capBytes ctx)
         then (0, ctx\<lparr>capExceeded := True\<rparr>)
         else if \<not> alloc_ok then (0, ctx)
         else (incoming, ctx\<lparr>ctx_body := ctx_body ctx @ chunk\<rparr>))"

definition strip_line_end :: "string \<Rightarrow> string" where
  "strip_line_end line = rev (dropWhile (\<lambda>c. c = CHR 0x0D \<or> c = CHR 0x0A) (rev line))"

definition HeaderCallback :: "string \<Rightarrow> bool \<Rightarrow> HttpHeader list \<Rightarrow> HttpHeader list" where
  "HeaderCallback buffer alloc_ok headers =
     (let line = strip_line_end buffer
      in if CHR '':'' \<notin> set line then headers
         else let value = dropWhile (\<lambda>c. c = CHR '' '') (tl (dropWhile (\<lambda>c. c \<noteq> CHR '':'') line));
                  name = takeWhile (\<lambda>c. c \<noteq> CHR '':'') line
              in if alloc_ok then headers @ [\<lparr>header_name = name, header_value = value\<rparr>] else headers)"

definition XferInfoCallback :: "(nat \<Rightarrow> bool) \<Rightarrow> nat option \<Rightarrow> int" where
  "XferInfoCallback flags userdata = (if ShouldCancelTransfer flags userdata then 1 else 0)"

section \<open>libcurl as an environment\<close>

datatype curl_option =
    URL string | HTTPHEADER "string list" | HTTPGET | NOBODY | CUSTOMREQUEST string | POST
  | POSTFIELDS string | POSTFIELDSIZE_LARGE nat | NOSIGNAL | NOPROGRESS bool
  | XFERINFOFUNCTION | XFERINFODATA "nat option" | SSL_VERIFYPEER int | SSL_VERIFYHOST int
  | CONNECTTIMEOUT_MS i32 | TIMEOUT_MS i32 | FOLLOWLOCATION | MAXREDIRS nat | ACCEPT_ENCODING string
  | USERAGENT string | WRITEFUNCTION | WRITEDATA | HEADERFUNCTION | HEADERDATA

datatype curl_call = EasyInit | SlistAppend string | SetOpt curl_option | EasyPerform | GetInfo | SlistFree | EasyCleanup

text \<open>
  What a transfer does from the program's view: callbacks in some order. \<open>Progress\<close> carries the
  cancel flags at that moment; the two data callbacks say whether they find memory.
\<close>

datatype curl_event = HeaderLine string bool | BodyChunk string bool | Progress "nat \<Rightarrow> bool"

datatype abort = ShortWrite | CallbackAbort

record curl_env =
  easy_ok :: bool
  line_throws :: "nat \<Rightarrow> bool"
  slist_ok :: "nat \<Rightarrow> bool"
  transfer :: "curl_option list \<Rightarrow> curl_event list"
  final_code :: "abort option \<Rightarrow> CURLcode"
  http_code :: i32

text \<open>\<open>curl_easy_perform\<close>: the callbacks run in order until one of them makes libcurl stop.\<close>

fun run_transfer ::
  "nat option \<Rightarrow> curl_event list \<Rightarrow> WriteContext \<Rightarrow> HttpHeader list \<Rightarrow> WriteContext \<times> HttpHeader list \<times> abort option" where
  "run_transfer flag [] ctx headers = (ctx, headers, None)"
| "run_transfer flag (HeaderLine line alloc_ok # events) ctx headers =
     run_transfer flag events ctx (HeaderCallback line alloc_ok headers)"
| "run_transfer flag (BodyChunk chunk alloc_ok # events) ctx headers =
     (case WriteCallback chunk alloc_ok ctx of
        (n, ctx) \<Rightarrow>
          if n \<noteq> of_nat (length chunk) then (ctx, headers, Some ShortWrite)
          else run_transfer flag events ctx headers)"
| "run_transfer flag (Progress flags # events) ctx headers =
     (if XferInfoCallback flags flag \<noteq> 0 then (ctx, headers, Some CallbackAbort)
      else run_transfer flag events ctx headers)"

section \<open>The transport\<close>

text \<open>
  \<open>EnsureCurlInitialized\<close>: the process-wide once flag with its result. \<open>init_ok\<close> is what
  \<open>curl_global_init\<close> would return now.
\<close>

definition EnsureCurlInitialized :: "bool \<Rightarrow> bool option \<Rightarrow> bool" where
  "EnsureCurlInitialized init_ok once = (case once of None \<Rightarrow> init_ok | Some ok \<Rightarrow> ok)"

text \<open>
  The header loop from header \<open>i\<close> on: \<open>None\<close> when building a line throws, with the calls made
  so far. A failed append returns a null list and the loop goes on with it.
\<close>

fun append_headers ::
  "curl_env \<Rightarrow> nat \<Rightarrow> HttpHeader list \<Rightarrow> string list \<Rightarrow> string list option \<times> curl_call list" where
  "append_headers env i [] slist = (Some slist, [])"
| "append_headers env i (h # hs) slist =
     (if line_throws env i then (None, [])
      else let line = c_string (header_name h @ '': '' @ header_value h);
               slist = (if slist_ok env i then slist @ [line] else [])
           in case append_headers env (i + 1) hs slist of (r, calls) \<Rightarrow> (r, SlistAppend line # calls))"

definition method_options :: "HttpRequest \<Rightarrow> curl_option list" where
  "method_options request =
     (case request_method request of
        Get \<Rightarrow> [HTTPGET]
      | Head \<Rightarrow> [NOBODY]
      | Delete \<Rightarrow> [CUSTOMREQUEST ''DELETE'']
      | Post \<Rightarrow> [POST, POSTFIELDS (request_body request), POSTFIELDSIZE_LARGE (length (request_body request))]
      | Put \<Rightarrow> [CUSTOMREQUEST ''PUT'', POSTFIELDS (request_body request),
                POSTFIELDSIZE_LARGE (length (request_body request))]
      | Patch \<Rightarrow> [CUSTOMREQUEST ''PATCH'', POSTFIELDS (request_body request),
                POSTFIELDSIZE_LARGE (length (request_body request))])"

definition tls_options :: "RequestOptions \<Rightarrow> curl_option list" where
  "tls_options options =
     (if skipTlsVerification options then [SSL_VERIFYPEER 0, SSL_VERIFYHOST 0]
      else [SSL_VERIFYPEER 1, SSL_VERIFYHOST 2])"

definition effective :: "u32 \<Rightarrow> u32 \<Rightarrow> u32" where
  "effective value fallback = (if value = 0 then fallback else value)"

definition transfer_options :: "HttpRequest \<Rightarrow> string list \<Rightarrow> curl_option list" where
  "transfer_options request slist =
     [URL (c_string (request_url request)), HTTPHEADER slist]
     @ method_options request
     @ [NOSIGNAL, NOPROGRESS False, XFERINFOFUNCTION, XFERINFODATA (cancelFlag request)]
     @ tls_options (request_options request)
     @ (let connectMs = effective (connectTimeoutMs (request_options request)) kDefaultConnectTimeoutMs;
            totalMs = effective (totalTimeoutMs (request_options request)) kDefaultTotalTimeoutMs
        in [CONNECTTIMEOUT_MS (ClampToLong connectMs), TIMEOUT_MS (ClampToLong totalMs)])
     @ [FOLLOWLOCATION, MAXREDIRS 5, ACCEPT_ENCODING [], USERAGENT ''restifycapl'']
     @ [WRITEFUNCTION, WRITEDATA, HEADERFUNCTION, HEADERDATA]"

text \<open>What the destructors of the two guards call, given what the guard holds.\<close>

definition CurlHandleGuard :: "bool \<Rightarrow> curl_call list" where
  "CurlHandleGuard handle = (if handle then [EasyCleanup] else [])"

definition SlistGuard :: "string list \<Rightarrow> curl_call list" where
  "SlistGuard slist = (if slist \<noteq> [] then [SlistFree] else [])"

lemma guard_simps [simp]:
  "CurlHandleGuard True = [EasyCleanup]" "CurlHandleGuard False = []"
  "SlistGuard slist = (if slist = [] then [] else [SlistFree])"
  by (simp_all add: CurlHandleGuard_def SlistGuard_def)

text \<open>
  \<open>CurlTransport::Perform\<close>. The guards' destructors run on every way out of the block, the
  header list's before the handle's; the list guard exists only behind the header loop.
\<close>

definition CurlTransport_Perform ::
  "bool \<Rightarrow> curl_env \<Rightarrow> HttpRequest \<Rightarrow> HttpResponse \<Rightarrow> status \<times> HttpResponse \<times> curl_call list" where
  "CurlTransport_Perform curl_init_ok env request response =
     (if \<not> curl_init_ok then (TransportInitFailed, response, [])
      else
        let response = \<lparr>statusCode = 0, response_body = [], response_headers = []\<rparr>
        in if \<not> easy_ok env then (TransportInitFailed, response, [EasyInit])
        else (case append_headers env 0 (request_headers request) [] of
          (None, calls) \<Rightarrow> (NetworkError, response, EasyInit # calls @ CurlHandleGuard True)
        | (Some slist, calls) \<Rightarrow>
            (let options = transfer_options request slist;
                 cap = effective (maxResponseBytes (request_options request)) kDefaultMaxResponseBytes;
                 ctx = \<lparr>ctx_body = [], capBytes = cap, capExceeded = False\<rparr>
             in case run_transfer (cancelFlag request) (transfer env options) ctx [] of
                  (ctx, headers, stopped) \<Rightarrow>
                    (let response = response\<lparr>response_body := ctx_body ctx, response_headers := headers\<rparr>;
                         transferResult = ResolveTransferResult (capExceeded ctx) (MapCurlCode (final_code env stopped));
                         before = EasyInit # calls @ map SetOpt options @ [EasyPerform];
                         after = SlistGuard slist @ CurlHandleGuard True
                     in if transferResult \<noteq> Ok then (transferResult, response, before @ after)
                        else (Ok, response\<lparr>statusCode := http_code env\<rparr>, before @ [GetInfo] @ after)))))"

section \<open>The client\<close>

text \<open>
  A transport is injected: it gets the request and the response object to fill, which keeps what
  was written to it also when the transport throws.
\<close>

type_synonym transport = "HttpRequest \<Rightarrow> HttpResponse \<Rightarrow> status outcome \<times> HttpResponse"

definition DefaultTransport :: "bool \<Rightarrow> curl_env \<Rightarrow> transport" where
  "DefaultTransport curl_init_ok env request response =
     (case CurlTransport_Perform curl_init_ok env request response of (st, response, _) \<Rightarrow> (Returned st, response))"

definition HttpClient_Perform :: "transport \<Rightarrow> transport" where
  "HttpClient_Perform transport request response =
     (if request_url request = [] then (Returned InvalidArgument, response) else transport request response)"

section \<open>The response cap\<close>

lemma unat_ucast_wide: "32 \<le> LENGTH('s::len) \<Longrightarrow> unat (ucast (c :: u32) :: 's word) = unat c"
proof -
  assume w: "32 \<le> LENGTH('s)"
  have "unat c < 2 ^ LENGTH(32)" by (rule unsigned_less)
  also have "(2::nat) ^ LENGTH(32) \<le> 2 ^ LENGTH('s)" using w by (intro power_increasing) simp_all
  finally show ?thesis by (simp add: unsigned_ucast_eq take_bit_nat_eq_self)
qed

lemma WouldExceed_iff:
  assumes "32 \<le> LENGTH('s::len)"
  shows "WouldExceedResponseCap (a :: 's word) b c \<longleftrightarrow> unat c < unat a + unat b"
proof (cases "unat b \<le> unat c")
  case True
  let ?cap = "ucast c :: 's word"
  note cap = unat_ucast_wide [OF assms, of c]
  have "b \<le> ?cap" using True cap by (simp add: word_le_nat_alt)
  then have "unat (?cap - b) = unat c - unat b" using cap by (simp add: unat_sub)
  with True cap show ?thesis
    by (auto simp: WouldExceedResponseCap_def Let_def word_less_nat_alt)
next
  case False
  with unat_ucast_wide [OF assms, of c] show ?thesis
    by (auto simp: WouldExceedResponseCap_def Let_def word_less_nat_alt)
qed

lemma unat_of_nat64: "n < 2 ^ 64 \<Longrightarrow> unat (of_nat n :: size_t) = n"
  by (simp add: unsigned_of_nat take_bit_nat_eq_self)

lemma zero_of_nat64: "n < 2 ^ 64 \<Longrightarrow> (0 :: size_t) = of_nat n \<longleftrightarrow> n = 0"
proof
  assume n: "n < 2 ^ 64" and e: "(0 :: size_t) = of_nat n"
  have "n = unat (of_nat n :: size_t)" by (rule unat_of_nat64 [OF n, symmetric])
  also have "\<dots> = 0" unfolding e [symmetric] by (rule unsigned_0)
  finally show "n = 0" .
qed simp

text \<open>A chunk's length is a \<open>size_t\<close> in the code.\<close>

definition chunk_sizes_ok :: "curl_event list \<Rightarrow> bool" where
  "chunk_sizes_ok events \<longleftrightarrow> (\<forall>chunk ok. BodyChunk chunk ok \<in> set events \<longrightarrow> length chunk < 2 ^ 64)"

definition ctx_ok :: "WriteContext \<Rightarrow> bool" where
  "ctx_ok ctx \<longleftrightarrow> length (ctx_body ctx) \<le> unat (capBytes ctx)"

lemma WriteCallback_spec:
  assumes "ctx_ok ctx" "length chunk < 2 ^ 64"
  shows "WriteCallback chunk alloc_ok ctx =
    (if length (ctx_body ctx) + length chunk > unat (capBytes ctx) then (0, ctx\<lparr>capExceeded := True\<rparr>)
     else if \<not> alloc_ok then (0, ctx)
     else (of_nat (length chunk), ctx\<lparr>ctx_body := ctx_body ctx @ chunk\<rparr>))"
proof -
  have "unat (capBytes ctx) < 2 ^ LENGTH(32)" by (rule unsigned_less)
  then have "length (ctx_body ctx) < 2 ^ 64" using assms(1) by (simp add: ctx_ok_def)
  then have len: "unat (of_nat (length (ctx_body ctx)) :: size_t) = length (ctx_body ctx)"
    "unat (of_nat (length chunk) :: size_t) = length chunk"
    using assms(2) by (simp_all add: unat_of_nat64)
  have "WouldExceedResponseCap (of_nat (length (ctx_body ctx)) :: size_t) (of_nat (length chunk)) (capBytes ctx)
      \<longleftrightarrow> length (ctx_body ctx) + length chunk > unat (capBytes ctx)"
    using WouldExceed_iff [where 's = 64, of "of_nat (length (ctx_body ctx))" "of_nat (length chunk)" "capBytes ctx"]
    unfolding len by simp
  then show ?thesis by (simp add: WriteCallback_def Let_def)
qed

lemma WriteCallback_keeps:
  assumes "ctx_ok ctx" "length chunk < 2 ^ 64" "WriteCallback chunk alloc_ok ctx = (n, ctx')"
  shows "ctx_ok ctx' \<and> capBytes ctx' = capBytes ctx \<and>
    (\<not> capExceeded ctx' \<or> capExceeded ctx \<or> n = 0 \<and> chunk \<noteq> [])"
  using assms(1,3) unfolding WriteCallback_spec [OF assms(1,2)]
  by (auto simp: ctx_ok_def split: if_splits)

lemma run_transfer_body:
  assumes "ctx_ok ctx" "chunk_sizes_ok events" "run_transfer flag events ctx hs = (ctx', hs', stopped)"
  shows "ctx_ok ctx' \<and> capBytes ctx' = capBytes ctx"
  using assms
proof (induction flag events ctx hs rule: run_transfer.induct)
  case (3 flag chunk alloc_ok events ctx hs)
  obtain n c where w: "WriteCallback chunk alloc_ok ctx = (n, c)" by force
  have "length chunk < 2 ^ 64" "chunk_sizes_ok events"
    using 3(3) by (auto simp: chunk_sizes_ok_def)
  with WriteCallback_keeps [OF 3(2) _ w] 3 w show ?case by (auto split: if_splits)
next
  case (2 flag line alloc_ok events ctx hs)
  then show ?case by (simp add: chunk_sizes_ok_def)
next
  case (4 flag flags events ctx hs)
  then show ?case by (auto simp: chunk_sizes_ok_def split: if_splits)
qed auto

text \<open>The body of a transfer that was not stopped is everything the server sent.\<close>

fun sent_body :: "curl_event list \<Rightarrow> string" where
  "sent_body [] = []"
| "sent_body (BodyChunk chunk ok # events) = chunk @ sent_body events"
| "sent_body (_ # events) = sent_body events"

lemma run_transfer_complete:
  assumes "ctx_ok ctx" "chunk_sizes_ok events" "run_transfer flag events ctx hs = (ctx', hs', None)"
  shows "ctx_body ctx' = ctx_body ctx @ sent_body events \<and> capExceeded ctx' = capExceeded ctx"
  using assms
proof (induction flag events ctx hs rule: run_transfer.induct)
  case (3 flag chunk alloc_ok events ctx hs)
  have chunk: "length chunk < 2 ^ 64" "chunk_sizes_ok events"
    using 3(3) by (auto simp: chunk_sizes_ok_def)
  note spec = WriteCallback_spec [OF 3(2) chunk(1), of alloc_ok]
  have n0: "(0 :: size_t) = of_nat (length chunk) \<longleftrightarrow> chunk = []"
    using zero_of_nat64 [OF chunk(1)] by simp
  show ?case using 3 chunk spec n0
    by (auto simp: ctx_ok_def split: if_splits)
next
  case (2 flag line alloc_ok events ctx hs)
  then show ?case by (simp add: chunk_sizes_ok_def)
next
  case (4 flag flags events ctx hs)
  then show ?case by (auto simp: chunk_sizes_ok_def split: if_splits)
qed auto

text \<open>Crossing the cap is recorded, and stops the transfer.\<close>

lemma run_transfer_cap:
  assumes "ctx_ok ctx" "chunk_sizes_ok events" "\<not> capExceeded ctx"
    and "run_transfer flag events ctx hs = (ctx', hs', stopped)" "capExceeded ctx'"
  shows "stopped = Some ShortWrite \<and> unat (capBytes ctx) < length (ctx_body ctx) + length (sent_body events)"
  using assms
proof (induction flag events ctx hs rule: run_transfer.induct)
  case (3 flag chunk alloc_ok events ctx hs)
  have chunk: "length chunk < 2 ^ 64" "chunk_sizes_ok events"
    using 3(3) by (auto simp: chunk_sizes_ok_def)
  note spec = WriteCallback_spec [OF 3(2) chunk(1), of alloc_ok]
  have n0: "(0 :: size_t) = of_nat (length chunk) \<longleftrightarrow> chunk = []"
    using zero_of_nat64 [OF chunk(1)] by simp
  show ?case using 3 chunk spec n0
    by (auto simp: ctx_ok_def split: if_splits)
next
  case (2 flag line alloc_ok events ctx hs)
  then show ?case by (simp add: chunk_sizes_ok_def)
next
  case (4 flag flags events ctx hs)
  then show ?case by (auto simp: chunk_sizes_ok_def split: if_splits)
qed auto

section \<open>A whole request\<close>

text \<open>
  What libcurl documents: a short write or an aborting progress callback ends the transfer with
  its own code, and without the latter the abort code is not produced.
\<close>

definition curl_contract :: "curl_env \<Rightarrow> bool" where
  "curl_contract env \<longleftrightarrow>
     final_code env (Some ShortWrite) = CURLE_WRITE_ERROR
     \<and> final_code env (Some CallbackAbort) = CURLE_ABORTED_BY_CALLBACK
     \<and> final_code env None \<noteq> CURLE_ABORTED_BY_CALLBACK
     \<and> (\<forall>options. chunk_sizes_ok (transfer env options))"

lemma curl_contractD:
  assumes "curl_contract env"
  shows "final_code env (Some ShortWrite) = CURLE_WRITE_ERROR"
    "final_code env (Some CallbackAbort) = CURLE_ABORTED_BY_CALLBACK"
    "final_code env None \<noteq> CURLE_ABORTED_BY_CALLBACK" "chunk_sizes_ok (transfer env options)"
  using assms by (auto simp: curl_contract_def)

definition response_cap :: "HttpRequest \<Rightarrow> nat" where
  "response_cap request = unat (effective (maxResponseBytes (request_options request)) kDefaultMaxResponseBytes)"

text \<open>The ways through \<open>CurlTransport_Perform\<close>.\<close>

lemma Perform_cases [consumes 1, case_names NoInit NoHandle Thrown Transferred]:
  assumes "CurlTransport_Perform ok env request response = (st, response', calls)"
  obtains "\<not> ok" "st = TransportInitFailed" "response' = response" "calls = []"
  | "ok" "st = TransportInitFailed" "response' = HttpResponse_default" "calls = [EasyInit]" "\<not> easy_ok env"
  | built where "ok" "st = NetworkError" "response' = HttpResponse_default"
      "append_headers env 0 (request_headers request) [] = (None, built)"
      "calls = EasyInit # built @ [EasyCleanup]"
  | slist built options ctx headers stopped where "ok"
      "append_headers env 0 (request_headers request) [] = (Some slist, built)"
      "options = transfer_options request slist"
      "run_transfer (cancelFlag request) (transfer env options)
         \<lparr>ctx_body = [], capBytes = effective (maxResponseBytes (request_options request)) kDefaultMaxResponseBytes,
          capExceeded = False\<rparr> [] = (ctx, headers, stopped)"
      "st = ResolveTransferResult (capExceeded ctx) (MapCurlCode (final_code env stopped))"
      "response' = \<lparr>statusCode = (if st = Ok then http_code env else 0),
         response_body = ctx_body ctx, response_headers = headers\<rparr>"
      "calls = EasyInit # built @ map SetOpt options @ [EasyPerform]
         @ (if st = Ok then [GetInfo] else []) @ (if slist = [] then [] else [SlistFree]) @ [EasyCleanup]"
proof (cases "ok \<and> easy_ok env")
  case False
  then show thesis using assms that(1,2)
    by (auto simp: CurlTransport_Perform_def HttpResponse_default_def Let_def split: if_splits)
next
  case True
  obtain r built where a: "append_headers env 0 (request_headers request) [] = (r, built)" by force
  show thesis
  proof (cases r)
    case None
    then show thesis using assms True a that(3)
      by (auto simp: CurlTransport_Perform_def HttpResponse_default_def Let_def)
  next
    case (Some slist)
    obtain ctx headers stopped where t: "run_transfer (cancelFlag request)
        (transfer env (transfer_options request slist))
        \<lparr>ctx_body = [], capBytes = effective (maxResponseBytes (request_options request)) kDefaultMaxResponseBytes,
         capExceeded = False\<rparr> [] = (ctx, headers, stopped)" by (metis prod_cases3)
    show thesis
      by (rule that(4) [OF _ a [unfolded Some] refl t])
        (use assms True a Some t in \<open>auto simp: CurlTransport_Perform_def Let_def split: if_splits\<close>)
  qed
qed

lemma start_ctx_ok: "ctx_ok \<lparr>ctx_body = [], capBytes = c, capExceeded = False\<rparr>"
  by (simp add: ctx_ok_def)

lemma Perform_body_le:
  assumes "curl_contract env" "CurlTransport_Perform True env request response = (st, response', calls)"
  shows "length (response_body response') \<le> response_cap request"
  using assms(2)
proof (cases rule: Perform_cases)
  case (Transferred slist built options ctx headers stopped)
  from run_transfer_body [OF start_ctx_ok curl_contractD(4) [OF assms(1)] Transferred(4)] Transferred(6)
  show ?thesis by (auto simp: ctx_ok_def response_cap_def)
qed (simp_all add: HttpResponse_default_def)

text \<open>A transfer that libcurl reports as successful was not stopped.\<close>

lemma Perform_Ok:
  assumes "curl_contract env" "CurlTransport_Perform ok env request response = (Ok, response', calls)"
  shows "\<exists>slist. response_body response' = sent_body (transfer env (transfer_options request slist))
    \<and> statusCode response' = http_code env"
  using assms(2)
proof (cases rule: Perform_cases)
  case (Transferred slist built options ctx headers stopped)
  have code: "MapCurlCode (final_code env stopped) = Ok" "\<not> capExceeded ctx"
    using Transferred(5) by (auto simp: ResolveTransferResult_def split: if_splits)
  have "stopped = None"
  proof (cases stopped)
    case (Some a)
    then show ?thesis using code(1) curl_contractD(1,2) [OF assms(1)]
      by (cases a) (simp_all add: MapCurlCode_def tls_codes_def network_codes_def)
  qed
  then show ?thesis using run_transfer_complete [OF start_ctx_ok curl_contractD(4) [OF assms(1)]] Transferred
    by auto
qed auto

lemma transfer_statuses: "MapCurlCode c \<in> {Ok, NetworkError, Timeout, TlsError, InvalidUrl, RequestCancelled}"
  by (simp add: MapCurlCode_def)

lemma MapCurlCode_cancelled: "MapCurlCode c = RequestCancelled \<longleftrightarrow> c = CURLE_ABORTED_BY_CALLBACK"
  by (auto simp: MapCurlCode_def tls_codes_def network_codes_def)

text \<open>The transfer is aborted only after somebody set the request's flag.\<close>

lemma run_transfer_abort:
  "run_transfer flag events ctx hs = (ctx', hs', Some CallbackAbort) \<Longrightarrow>
    \<exists>i flags. flag = Some i \<and> Progress flags \<in> set events \<and> flags i"
  by (induction flag events ctx hs rule: run_transfer.induct)
    (auto simp: XferInfoCallback_def ShouldCancelTransfer_def split: if_splits option.splits prod.splits)

section \<open>Properties\<close>

fun set_options :: "curl_call list \<Rightarrow> curl_option list" where
  "set_options [] = []"
| "set_options (SetOpt opt # calls) = opt # set_options calls"
| "set_options (_ # calls) = set_options calls"

lemma set_options_append [simp]: "set_options (xs @ ys) = set_options xs @ set_options ys"
  by (induction xs rule: set_options.induct) simp_all

lemma set_options_SetOpt [simp]: "set_options (map SetOpt opts) = opts"
  by (induction opts) simp_all

lemma append_headers_calls:
  "append_headers env i hs slist = (r, calls) \<Longrightarrow> set_options calls = [] \<and> (\<forall>c\<in>set calls. \<exists>l. c = SlistAppend l)"
  by (induction env i hs slist arbitrary: r calls rule: append_headers.induct)
    (auto simp: Let_def split: if_splits prod.splits)

text \<open>The options of a transfer, in order; none is set unless a transfer is prepared.\<close>

lemma Perform_options:
  assumes "CurlTransport_Perform ok env request response = (st, response', calls)"
  shows "set_options calls = [] \<and> EasyPerform \<notin> set calls \<or> (\<exists>slist. set_options calls = transfer_options request slist)"
  using assms
proof (cases rule: Perform_cases)
  case (Thrown built)
  with append_headers_calls [OF Thrown(4)] show ?thesis by auto
next
  case (Transferred slist built options ctx headers stopped)
  with append_headers_calls [OF Transferred(2)] show ?thesis by auto
qed simp_all

fun is_verify :: "curl_option \<Rightarrow> bool" where
  "is_verify (SSL_VERIFYPEER n) = True"
| "is_verify (SSL_VERIFYHOST n) = True"
| "is_verify _ = False"

fun is_timeout :: "curl_option \<Rightarrow> bool" where
  "is_timeout (CONNECTTIMEOUT_MS w) = True"
| "is_timeout (TIMEOUT_MS w) = True"
| "is_timeout _ = False"

lemma method_options_filters [simp]:
  "filter is_verify (method_options request) = []" "filter is_timeout (method_options request) = []"
  by (cases "request_method request"; simp add: method_options_def)+

lemma verify_options: "filter is_verify (transfer_options request slist) = tls_options (request_options request)"
  by (simp add: transfer_options_def tls_options_def Let_def)

lemma timeout_options: "filter is_timeout (transfer_options request slist) =
    [CONNECTTIMEOUT_MS (ClampToLong (effective (connectTimeoutMs (request_options request)) kDefaultConnectTimeoutMs)),
     TIMEOUT_MS (ClampToLong (effective (totalTimeoutMs (request_options request)) kDefaultTotalTimeoutMs))]"
  by (simp add: transfer_options_def tls_options_def Let_def)

lemma sint_small: "uint (w :: i32) \<le> 2147483647 \<Longrightarrow> sint w = uint w"
  using signed_take_bit_int_eq_self [of 31 "uint w", OF order_trans [OF _ unsigned_greater_eq]] by (simp add: sint_uint)

lemma sint_ClampToLong: "sint (ClampToLong w) = min (uint w) 2147483647"
  by (simp add: ClampToLong_def sint_small word_less_def word_le_def not_less min_def)

lemma effective_pos: "fallback \<noteq> 0 \<Longrightarrow> 0 < uint (effective v fallback)"
  using uint_0_iff [of fallback] uint_0_iff [of v] unsigned_greater_eq [of fallback] unsigned_greater_eq [of v]
  by (auto simp: effective_def less_le)

definition sample_env :: curl_env where
  "sample_env = \<lparr>easy_ok = True, line_throws = (\<lambda>_. False), slist_ok = (\<lambda>_. True),
     transfer = (\<lambda>_. [HeaderLine ''A: b'' True, BodyChunk ''hello'' True, Progress (\<lambda>_. False), BodyChunk ''!'' True]),
     final_code = (\<lambda>stopped. case stopped of None \<Rightarrow> CURLE_OK | Some ShortWrite \<Rightarrow> CURLE_WRITE_ERROR
        | Some CallbackAbort \<Rightarrow> CURLE_ABORTED_BY_CALLBACK),
     http_code = 200\<rparr>"

definition sample_request :: HttpRequest where
  "sample_request = HttpRequest_default\<lparr>request_url := ''http://a'',
     request_headers := [\<lparr>header_name = ''X'', header_value = ''y''\<rparr>]\<rparr>"

lemma sample_env_contract: "curl_contract sample_env"
  by (auto simp: curl_contract_def sample_env_def chunk_sizes_ok_def)

definition sample_response :: HttpResponse where
  "sample_response = \<lparr>statusCode = 200, response_body = ''hello!'',
     response_headers = [\<lparr>header_name = ''A'', header_value = ''b''\<rparr>]\<rparr>"

lemma sample_transfer:
  "CurlTransport_Perform True sample_env sample_request HttpResponse_default =
    (Ok, sample_response,
     [EasyInit, SlistAppend ''X: y''] @ map SetOpt (transfer_options sample_request [''X: y''])
       @ [EasyPerform, GetInfo, SlistFree, EasyCleanup])"
  by code_simp

text \<open>The cap test of the write callback is exact for every chunk that fits a \<open>size_t\<close> of at
  least 32 bits: it refuses a chunk precisely when old body and chunk together are longer than
  the cap, although neither the sum nor the difference may wrap.
\<close>

theorem cap_test_exact:
  fixes currentSize incoming :: "'s::len word"
  assumes "32 \<le> LENGTH('s)"
  shows "WouldExceedResponseCap currentSize incoming cap \<longleftrightarrow> unat currentSize + unat incoming > unat cap"
  using WouldExceed_iff [OF assms, of currentSize incoming cap] by (rule trans) simp

theorem cap_test_exact_witness:
  "WouldExceedResponseCap (5 :: 64 word) (- 1) 8 \<longleftrightarrow> unat (5 :: 64 word) + unat (- 1 :: 64 word) > unat (8 :: u32)"
  by (rule cap_test_exact) simp

text \<open>C13: The body of a response is never longer than the request's cap (8 MiB when the request says
  0), whatever the server sends and whether or not the transfer succeeds; on success it is
  complete, and a body reported as too large was really cut: the server sent more than the cap.
\<close>

theorem response_cap_kept:
  assumes "curl_contract env"
    and "CurlTransport_Perform True env request response = (st, response', calls)"
  shows "length (response_body response') \<le> response_cap request
    \<and> (st = Ok \<longrightarrow> (\<exists>slist. response_body response' = sent_body (transfer env (transfer_options request slist))))
    \<and> (st = ResponseTooLarge \<longrightarrow>
        (\<exists>slist. response_cap request < length (sent_body (transfer env (transfer_options request slist)))))"
proof (intro conjI impI)
  show "length (response_body response') \<le> response_cap request"
    by (rule Perform_body_le [OF assms])
  show "\<exists>slist. response_body response' = sent_body (transfer env (transfer_options request slist))"
    if "st = Ok" using Perform_Ok [OF assms(1) assms(2) [unfolded that]] by blast
  show "\<exists>slist. response_cap request < length (sent_body (transfer env (transfer_options request slist)))"
    if st: "st = ResponseTooLarge"
    using assms(2)
  proof (cases rule: Perform_cases)
    case (Transferred slist built options ctx headers stopped)
    have "capExceeded ctx" using Transferred(5) st transfer_statuses [of "final_code env stopped"]
      by (auto simp: ResolveTransferResult_def split: if_splits)
    with run_transfer_cap [OF start_ctx_ok curl_contractD(4) [OF assms(1)] _ Transferred(4)] Transferred(3)
    show ?thesis by (auto simp: response_cap_def)
  qed (use st in simp_all)
qed

theorem response_cap_kept_witness:
  "length ''hello!'' \<le> response_cap sample_request"
  using response_cap_kept [OF sample_env_contract sample_transfer] by (simp add: sample_response_def)

text \<open>
  The certificate and host name checks a handle is set to whenever a transfer is started on it:
  \<open>None\<close> as long as an option was left at what libcurl has by itself.
\<close>

fun checks_at_perform :: "int option \<times> int option \<Rightarrow> curl_call list \<Rightarrow> (int option \<times> int option) list" where
  "checks_at_perform _ [] = []"
| "checks_at_perform _ (EasyInit # calls) = checks_at_perform (None, None) calls"
| "checks_at_perform (_, host) (SetOpt (SSL_VERIFYPEER n) # calls) = checks_at_perform (Some n, host) calls"
| "checks_at_perform (peer, _) (SetOpt (SSL_VERIFYHOST n) # calls) = checks_at_perform (peer, Some n) calls"
| "checks_at_perform checks (EasyPerform # calls) = checks # checks_at_perform checks calls"
| "checks_at_perform checks (_ # calls) = checks_at_perform checks calls"

lemma checks_at_perform_skip:
  "\<forall>c\<in>set calls. \<exists>l. c = SlistAppend l \<Longrightarrow> checks_at_perform checks (calls @ rest) = checks_at_perform checks rest"
  by (induction calls) auto

lemma checks_at_perform_method:
  "checks_at_perform checks (map SetOpt (method_options request) @ rest) = checks_at_perform checks rest"
  by (cases "request_method request") (simp_all add: method_options_def)

lemma checks_at_perform_transfer:
  "checks_at_perform checks (map SetOpt (transfer_options request slist) @ EasyPerform # rest) =
    (let checks = (if skipTlsVerification (request_options request) then (Some 0, Some 0) else (Some 1, Some 2))
     in checks # checks_at_perform checks rest)"
  by (cases checks) (simp add: transfer_options_def tls_options_def Let_def checks_at_perform_method)

text \<open>What the calls behind a split at the transfer are.\<close>

lemma split_at_perform:
  assumes "EasyPerform \<notin> set us" "EasyPerform \<notin> set vs" "us @ EasyPerform # vs = before @ EasyPerform # after"
  shows "before = us \<and> after = vs"
  using assms by (metis append_Cons_eq_iff in_set_conv_decomp)

text \<open>C14: TLS verification is never half off. A transfer is started exactly when the handle was created
  and the header lines were built, and then once. At that moment both checks of the handle are
  set, the peer check and the host name check to full verification if the request does not ask to
  skip it and both to none if it does; each was set once, and no option is set after the transfer
  was started. Where no transfer is started neither check is touched.
\<close>

theorem tls_verification_whole:
  assumes "CurlTransport_Perform ok env request response = (st, response', calls)"
  shows "checks_at_perform (None, None) calls =
      (if ok \<and> easy_ok env \<and> fst (append_headers env 0 (request_headers request) []) \<noteq> None
       then [if skipTlsVerification (request_options request) then (Some 0, Some 0) else (Some 1, Some 2)] else [])
    \<and> filter is_verify (set_options calls) =
      (if EasyPerform \<notin> set calls then []
       else if skipTlsVerification (request_options request) then [SSL_VERIFYPEER 0, SSL_VERIFYHOST 0]
       else [SSL_VERIFYPEER 1, SSL_VERIFYHOST 2])
    \<and> (\<forall>before after. calls = before @ EasyPerform # after \<longrightarrow> set_options after = [])"
proof (cases "ok \<and> easy_ok env")
  case False
  then have "calls = [] \<or> calls = [EasyInit]" using assms by (auto simp: CurlTransport_Perform_def Let_def split: if_splits)
  then show ?thesis using False by (auto simp: Cons_eq_append_conv)
next
  case True
  from assms show ?thesis
  proof (cases rule: Perform_cases)
    case (Thrown built)
    note built = append_headers_calls [OF Thrown(4)]
    have "EasyPerform \<notin> set calls" using Thrown(5) built by auto
    moreover have "checks_at_perform (None, None) calls = []"
      using Thrown(5) built by (simp add: checks_at_perform_skip)
    moreover have "set_options calls = []" using Thrown(5) built by simp
    ultimately show ?thesis using Thrown(4) by auto
  next
    case (Transferred slist built options ctx headers stopped)
    note built = append_headers_calls [OF Transferred(2)]
    define us where "us = EasyInit # built @ map SetOpt options"
    define vs where "vs = (if st = Ok then [GetInfo] else []) @ (if slist = [] then [] else [SlistFree]) @ [EasyCleanup]"
    have calls: "calls = us @ EasyPerform # vs" using Transferred(7) by (simp add: us_def vs_def)
    have no: "EasyPerform \<notin> set us" "EasyPerform \<notin> set vs" using built by (auto simp: us_def vs_def)
    have "checks_at_perform checks vs = []" for checks by (simp add: vs_def)
    then have "checks_at_perform (None, None) calls =
        [if skipTlsVerification (request_options request) then (Some 0, Some 0) else (Some 1, Some 2)]"
      using built unfolding calls us_def
      by (simp add: Transferred(3) checks_at_perform_skip checks_at_perform_transfer Let_def)
    moreover have "set_options calls = options" "EasyPerform \<in> set calls"
      using built unfolding calls by (simp_all add: us_def vs_def)
    moreover have "set_options vs = []" by (simp add: vs_def)
    moreover have "after = vs" if "calls = before @ EasyPerform # after" for before after
      using split_at_perform [OF no] that unfolding calls by blast
    ultimately show ?thesis
      using True Transferred(2,3) by (auto simp: verify_options tls_options_def)
  qed (use True in simp_all)
qed

theorem tls_verification_whole_witness:
  "checks_at_perform (None, None) ([EasyInit, SlistAppend ''X: y''] @ map SetOpt (transfer_options sample_request [''X: y''])
       @ [EasyPerform, GetInfo, SlistFree, EasyCleanup]) = [(Some 1, Some 2)]"
  using tls_verification_whole [OF sample_transfer, THEN conjunct1]
  by (simp add: sample_request_def sample_env_def HttpRequest_default_def RequestOptions_default_def Let_def)

text \<open>No transfer runs without a time limit. Both timeouts are set once, to what the request says
  or the default where it says 0, cut to what a \<open>long\<close> holds; they are positive, so libcurl's
  value for "no timeout" is never passed and the conversion never makes a limit negative.
\<close>

theorem timeouts_bounded:
  assumes "CurlTransport_Perform ok env request response = (st, response', calls)"
    and "EasyPerform \<in> set calls"
  shows "\<exists>connect whole. filter is_timeout (set_options calls) = [CONNECTTIMEOUT_MS connect, TIMEOUT_MS whole]
    \<and> 0 < sint connect \<and> 0 < sint whole
    \<and> sint connect = min (uint (effective (connectTimeoutMs (request_options request)) 5000)) 2147483647
    \<and> sint whole = min (uint (effective (totalTimeoutMs (request_options request)) 30000)) 2147483647"
proof -
  obtain slist where "set_options calls = transfer_options request slist"
    using Perform_options [OF assms(1)] assms(2) by auto
  moreover have "0 < uint (effective (connectTimeoutMs (request_options request)) 5000)"
    "0 < uint (effective (totalTimeoutMs (request_options request)) 30000)"
    by (rule effective_pos, simp)+
  ultimately show ?thesis
    by (simp add: timeout_options sint_ClampToLong kDefaultConnectTimeoutMs_def kDefaultTotalTimeoutMs_def)
qed

theorem timeouts_bounded_witness:
  "\<exists>connect whole. filter is_timeout (set_options (map SetOpt (transfer_options sample_request [''X: y'']))) =
     [CONNECTTIMEOUT_MS connect, TIMEOUT_MS whole] \<and> 0 < sint connect \<and> 0 < sint whole"
  using timeouts_bounded [OF sample_transfer] by auto

text \<open>
  How the transfer of a request ends, if it comes to one: what stopped it, and whether the cap on
  the body was crossed.
\<close>

definition transfer_end :: "curl_env \<Rightarrow> HttpRequest \<Rightarrow> (abort option \<times> bool) option" where
  "transfer_end env request =
     (if \<not> easy_ok env then None
      else case fst (append_headers env 0 (request_headers request) []) of
             None \<Rightarrow> None
           | Some slist \<Rightarrow>
               (case run_transfer (cancelFlag request) (transfer env (transfer_options request slist))
                  \<lparr>ctx_body = [], capBytes = effective (maxResponseBytes (request_options request)) kDefaultMaxResponseBytes,
                   capExceeded = False\<rparr> [] of
                  (ctx, _, stopped) \<Rightarrow> Some (stopped, capExceeded ctx)))"

text \<open>The meaning of libcurl's codes, code by code.\<close>

fun code_meaning :: "CURLcode \<Rightarrow> status" where
  "code_meaning CURLE_OK = Ok"
| "code_meaning CURLE_OPERATION_TIMEDOUT = Timeout"
| "code_meaning CURLE_URL_MALFORMAT = InvalidUrl"
| "code_meaning CURLE_UNSUPPORTED_PROTOCOL = InvalidUrl"
| "code_meaning CURLE_SSL_CONNECT_ERROR = TlsError"
| "code_meaning CURLE_PEER_FAILED_VERIFICATION = TlsError"
| "code_meaning CURLE_SSL_ENGINE_NOTFOUND = TlsError"
| "code_meaning CURLE_SSL_ENGINE_SETFAILED = TlsError"
| "code_meaning CURLE_SSL_CERTPROBLEM = TlsError"
| "code_meaning CURLE_SSL_CIPHER = TlsError"
| "code_meaning CURLE_USE_SSL_FAILED = TlsError"
| "code_meaning CURLE_SSL_ENGINE_INITFAILED = TlsError"
| "code_meaning CURLE_SSL_CACERT_BADFILE = TlsError"
| "code_meaning CURLE_SSL_SHUTDOWN_FAILED = TlsError"
| "code_meaning CURLE_SSL_CRL_BADFILE = TlsError"
| "code_meaning CURLE_SSL_ISSUER_ERROR = TlsError"
| "code_meaning CURLE_SSL_PINNEDPUBKEYNOTMATCH = TlsError"
| "code_meaning CURLE_SSL_INVALIDCERTSTATUS = TlsError"
| "code_meaning CURLE_SSL_CLIENTCERT = TlsError"
| "code_meaning CURLE_ABORTED_BY_CALLBACK = RequestCancelled"
| "code_meaning _ = NetworkError"

lemma MapCurlCode_meaning: "MapCurlCode code = code_meaning code"
  by (cases code) (simp_all add: MapCurlCode_def tls_codes_def network_codes_def)

lemma Perform_outcome:
  assumes "CurlTransport_Perform True env request response = (st, response', calls)"
  shows "st = (case transfer_end env request of
      None \<Rightarrow> if easy_ok env then NetworkError else TransportInitFailed
    | Some (stopped, over) \<Rightarrow> if over then ResponseTooLarge else code_meaning (final_code env stopped))"
proof (cases "easy_ok env")
  case True
  show ?thesis
    using assms True
    by (auto simp: CurlTransport_Perform_def transfer_end_def Let_def ResolveTransferResult_def MapCurlCode_meaning
        split: option.splits prod.splits if_splits)
qed (use assms in \<open>simp add: CurlTransport_Perform_def transfer_end_def Let_def\<close>)

text \<open>C29: The result of a request once libcurl is initialised, for everything libcurl can answer. Without a handle it is
  \<open>TransportInitFailed\<close>, if a header line finds no memory \<open>NetworkError\<close>. A transfer whose body
  crossed the cap is \<open>ResponseTooLarge\<close> whatever libcurl's code for the cut was; for any other the
  status is the meaning of libcurl's code: a timeout, a bad URL, a TLS failure, a cancellation and
  success each have their own, every other code is a network error. A request that reports itself
  cancelled was cancelled: it carries a flag, and a progress report of the transfer saw that flag
  set; one without a flag, as every synchronous call makes it, never gets this status. The HTTP
  status is 0 unless the transfer succeeded.
\<close>

theorem transport_outcome:
  assumes "curl_contract env"
    and "CurlTransport_Perform True env request response = (st, response', calls)"
  shows "st = (case transfer_end env request of
        None \<Rightarrow> if easy_ok env then NetworkError else TransportInitFailed
      | Some (stopped, over) \<Rightarrow> if over then ResponseTooLarge else code_meaning (final_code env stopped))
    \<and> (st = Ok \<or> transport_failure st \<or> st = RequestCancelled)
    \<and> (st = RequestCancelled \<longrightarrow>
        (\<exists>i flags slist. cancelFlag request = Some i \<and> flags i
           \<and> Progress flags \<in> set (transfer env (transfer_options request slist))))
    \<and> statusCode response' = (if st = Ok then http_code env else 0)"
proof (intro conjI Perform_outcome [OF assms(2)])
  have "(st = Ok \<or> transport_failure st \<or> st = RequestCancelled)
    \<and> (st = RequestCancelled \<longrightarrow>
        (\<exists>i flags slist. cancelFlag request = Some i \<and> flags i
           \<and> Progress flags \<in> set (transfer env (transfer_options request slist))))
    \<and> statusCode response' = (if st = Ok then http_code env else 0)"
    using assms(2)
  proof (cases rule: Perform_cases)
    case (Transferred slist built options ctx headers stopped)
    have st: "st = (if capExceeded ctx then ResponseTooLarge else MapCurlCode (final_code env stopped))"
      using Transferred(5) by (simp add: ResolveTransferResult_def)
    have "st = Ok \<or> transport_failure st \<or> st = RequestCancelled"
      using st transfer_statuses [of "final_code env stopped"] by (auto simp: transport_failure_iff)
    moreover have "\<exists>i flags slist. cancelFlag request = Some i \<and> flags i
        \<and> Progress flags \<in> set (transfer env (transfer_options request slist))" if c: "st = RequestCancelled"
    proof -
      have "final_code env stopped = CURLE_ABORTED_BY_CALLBACK"
        using c st by (simp add: MapCurlCode_cancelled split: if_splits)
      then have "stopped = Some CallbackAbort"
        using curl_contractD(1,3) [OF assms(1)] by (cases stopped; cases "the stopped") auto
      from run_transfer_abort [OF Transferred(4) [unfolded this]] Transferred(3) show ?thesis by metis
    qed
    ultimately show ?thesis using Transferred(6) by simp
  qed (auto simp: HttpResponse_default_def transport_failure_iff)
  then show "st = Ok \<or> transport_failure st \<or> st = RequestCancelled"
    "st = RequestCancelled \<longrightarrow>
        (\<exists>i flags slist. cancelFlag request = Some i \<and> flags i
           \<and> Progress flags \<in> set (transfer env (transfer_options request slist)))"
    "statusCode response' = (if st = Ok then http_code env else 0)"
    by blast+
qed

text \<open>A transfer that is cancelled by its flag, number 3, after the first part of the body.\<close>

definition cancelled_env :: curl_env where
  "cancelled_env = sample_env\<lparr>transfer :=
     (\<lambda>_. [Progress (\<lambda>_. False), BodyChunk ''hel'' True, Progress (\<lambda>i. i = 3), BodyChunk ''lo'' True])\<rparr>"

lemma cancelled_transfer:
  "CurlTransport_Perform True cancelled_env (sample_request\<lparr>cancelFlag := Some 3\<rparr>) HttpResponse_default =
    (RequestCancelled, \<lparr>statusCode = 0, response_body = ''hel'', response_headers = []\<rparr>,
     [EasyInit, SlistAppend ''X: y''] @ map SetOpt (transfer_options (sample_request\<lparr>cancelFlag := Some 3\<rparr>) [''X: y''])
       @ [EasyPerform, SlistFree, EasyCleanup])"
  by code_simp

lemma cancelled_transfer_end:
  "transfer_end cancelled_env (sample_request\<lparr>cancelFlag := Some 3\<rparr>) = Some (Some CallbackAbort, False)"
  by code_simp

theorem transport_outcome_witness:
  "code_meaning (final_code cancelled_env (Some CallbackAbort)) = RequestCancelled
   \<and> (\<exists>flags slist. flags 3 \<and> Progress flags \<in> set (transfer cancelled_env
        (transfer_options (sample_request\<lparr>cancelFlag := Some 3\<rparr>) slist)))"
proof -
  have "curl_contract cancelled_env"
    by (auto simp: curl_contract_def cancelled_env_def sample_env_def chunk_sizes_ok_def)
  from transport_outcome [OF this cancelled_transfer, unfolded cancelled_transfer_end] show ?thesis by simp
qed

definition count_calls :: "curl_call \<Rightarrow> curl_call list \<Rightarrow> nat" where
  "count_calls c calls = length (filter ((=) c) calls)"

lemma count_calls_simps [simp]:
  "count_calls c [] = 0" "count_calls c (d # ds) = (if c = d then 1 else 0) + count_calls c ds"
  "count_calls c (xs @ ys) = count_calls c xs + count_calls c ys"
  by (simp_all add: count_calls_def)

lemma count_calls_SetOpt [simp]: "(\<And>opt. c \<noteq> SetOpt opt) \<Longrightarrow> count_calls c (map SetOpt opts) = 0"
  by (induction opts) auto

lemma count_calls_built:
  assumes "append_headers env i hs slist = (r, calls)" "\<And>l. c \<noteq> SlistAppend l"
  shows "count_calls c calls = 0"
proof -
  have "\<forall>d\<in>set calls. c \<noteq> d"
    using append_headers_calls [OF assms(1)] assms(2) by blast
  then show ?thesis by (auto simp: count_calls_def filter_empty_conv)
qed

text \<open>C30: The libcurl handle of a request is created once, and whatever way the call ends it is
  released exactly once, as the last call made. A header list that was completed is freed exactly
  once, just before the handle; one whose loop was left by an exception is not freed at all.
\<close>

theorem handle_released:
  assumes "CurlTransport_Perform ok env request response = (st, response', calls)"
  shows "count_calls EasyInit calls = (if ok then 1 else 0)
    \<and> count_calls EasyCleanup calls = (if ok \<and> easy_ok env then 1 else 0)
    \<and> (ok \<and> easy_ok env \<longrightarrow> hd calls = EasyInit \<and> List.last calls = EasyCleanup)
    \<and> count_calls SlistFree calls =
        (if ok \<and> easy_ok env
           \<and> fst (append_headers env 0 (request_headers request) []) \<notin> {None, Some []} then 1 else 0)
    \<and> (SlistFree \<in> set calls \<longrightarrow> (\<exists>before. calls = before @ [SlistFree, EasyCleanup]))"
proof (cases "ok \<and> easy_ok env")
  case False
  with assms show ?thesis by (auto simp: CurlTransport_Perform_def Let_def)
next
  case True
  from assms show ?thesis
  proof (cases rule: Perform_cases)
    case (Thrown built)
    then show ?thesis using True append_headers_calls [OF Thrown(4)] by (auto simp: count_calls_built [OF Thrown(4)])
  next
    case (Transferred slist built options ctx headers stopped)
    then show ?thesis using True append_headers_calls [OF Transferred(2)]
      by (auto simp: count_calls_built [OF Transferred(2)])
  qed (use True in auto)
qed

theorem handle_released_witness:
  "count_calls EasyCleanup ([EasyInit, SlistAppend ''X: y''] @ map SetOpt (transfer_options sample_request [''X: y''])
       @ [EasyPerform, GetInfo, SlistFree, EasyCleanup]) = 1"
  using handle_released [OF sample_transfer] by (simp add: sample_env_def)

end
