(* ===== verification/Sync_Operations.thy ===== *)
theory Sync_Operations
  imports Http_Client
begin

text \<open>
  \<open>src/http/sync-operations.cpp\<close>: one request through a client, and the verbs that build it.
  The C++ functions \<open>Get\<close>, \<open>Post\<close> and so on carry the suffix \<open>_verb\<close>, as the enumeration's
  constructors have those names.
\<close>

definition Request :: "transport \<Rightarrow> transport" where
  "Request client request response =
     (if MethodForbidsBody (request_method request) \<and> request_body request \<noteq> []
      then (Returned InvalidArgument, response)
      else HttpClient_Perform client request response)"

text \<open>
  \<open>copy_throws\<close>: one of the copies into the request finds no memory. The handler turns that, and
  whatever the transport throws, into \<open>NetworkError\<close>.
\<close>

definition BuildAndSend ::
  "transport \<Rightarrow> bool \<Rightarrow> HttpMethod \<Rightarrow> string \<Rightarrow> HttpHeader list \<Rightarrow> string \<Rightarrow> RequestOptions \<Rightarrow> HttpResponse \<Rightarrow>
     status \<times> HttpResponse" where
  "BuildAndSend client copy_throws meth url headers body options response =
     (if copy_throws then (NetworkError, response)
      else
        let request = HttpRequest_default\<lparr>request_method := meth, request_url := url, request_headers := headers,
                        request_body := body, request_options := options\<rparr>
        in case Request client request response of
             (Returned st, response) \<Rightarrow> (st, response)
           | (Threw, response) \<Rightarrow> (NetworkError, response))"

definition Get_verb where
  "Get_verb client copy_throws url headers options response =
     BuildAndSend client copy_throws Get url headers [] options response"

definition Post_verb where
  "Post_verb client copy_throws url headers body options response =
     BuildAndSend client copy_throws Post url headers body options response"

definition Put_verb where
  "Put_verb client copy_throws url headers body options response =
     BuildAndSend client copy_throws Put url headers body options response"

definition Patch_verb where
  "Patch_verb client copy_throws url headers body options response =
     BuildAndSend client copy_throws Patch url headers body options response"

definition Delete_verb where
  "Delete_verb client copy_throws url headers options response =
     BuildAndSend client copy_throws Delete url headers [] options response"

section \<open>What reaches the transport\<close>

text \<open>A request the layers above the transport let through.\<close>

definition sendable :: "HttpRequest \<Rightarrow> bool" where
  "sendable request \<longleftrightarrow> request_url request \<noteq> []
     \<and> (MethodForbidsBody (request_method request) \<longrightarrow> request_body request = [])"

lemma Request_sendable:
  "Request client request response =
     (if sendable request then client request response else (Returned InvalidArgument, response))"
  by (simp add: Request_def HttpClient_Perform_def sendable_def)

lemma BuildAndSend_eq:
  "BuildAndSend client False meth url headers body options response =
     (let request = \<lparr>request_method = meth, request_url = url, request_headers = headers, request_body = body,
                     request_options = options, cancelFlag = None\<rparr>
      in if sendable request
         then map_prod (\<lambda>r. catch_all r NetworkError) id (client request response)
         else (InvalidArgument, response))"
  by (auto simp: BuildAndSend_def Request_sendable HttpRequest_default_def Let_def split: prod.splits outcome.splits)

end
