(* ===== verification/Sync_Text_Api.thy ===== *)
theory Sync_Text_Api
  imports Sync_Operations Buffers
begin

text \<open>
  \<open>src/http/sync-text-api.cpp\<close>: method names and header blocks as CAPL writes them, and the
  synchronous requests over texts in caller memory.
\<close>

section \<open>Texts\<close>

text \<open>\<open>tolower\<close> and \<open>isspace\<close> in the "C" locale, which the library never leaves.\<close>

definition tolower :: "char \<Rightarrow> char" where
  "tolower c = (let n = of_char c :: nat in if 65 \<le> n \<and> n \<le> 90 then char_of (n + 32) else c)"

definition isspace :: "char \<Rightarrow> bool" where
  "isspace c \<longleftrightarrow> c \<in> {CHR 0x09, CHR 0x0A, CHR 0x0B, CHR 0x0C, CHR 0x0D, CHR '' ''}"

definition EqualsIgnoreCase :: "string \<Rightarrow> string \<Rightarrow> bool" where
  "EqualsIgnoreCase a b = (if length a \<noteq> length b then False else list_all2 (\<lambda>x y. tolower x = tolower y) a b)"

definition Trim :: "string \<Rightarrow> string" where
  "Trim s = rev (dropWhile isspace (rev (dropWhile isspace s)))"

definition StripTrailingCr :: "string \<Rightarrow> string" where
  "StripTrailingCr line = (if line \<noteq> [] \<and> List.last line = CHR 0x0D then butlast line else line)"

definition kMethods :: "(string \<times> HttpMethod) list" where
  "kMethods = [(''GET'', Get), (''POST'', Post), (''PUT'', Put), (''PATCH'', Patch), (''DELETE'', Delete), (''HEAD'', Head)]"

definition ParseMethodText :: "string \<Rightarrow> HttpMethod \<Rightarrow> status \<times> HttpMethod" where
  "ParseMethodText s out =
     (case List.find (\<lambda>(name, _). EqualsIgnoreCase s name) kMethods of
        Some (_, meth) \<Rightarrow> (Ok, meth)
      | None \<Rightarrow> (UnknownHttpMethod, out))"

text \<open>
  Memory for the texts. Neither this file nor \<open>async-text-api.cpp\<close> has a handler of its own, so
  what an allocation in them throws leaves the call. \<open>header_fails k\<close>: the strings of header \<open>k\<close> of
  a block or the place for it find no memory; \<open>copy_fails\<close>: a copy of the URL, the headers or the
  body that is made for the request finds none.
\<close>

record text_memory =
  header_fails :: "nat \<Rightarrow> bool"
  copy_fails :: bool

definition all_memory :: text_memory where "all_memory = \<lparr>header_fails = (\<lambda>_. False), copy_fails = False\<rparr>"

text \<open>The loop of \<open>ParseHeaderBlock\<close> on the block from \<open>start\<close> on.\<close>

function parse_header_lines :: "text_memory \<Rightarrow> string \<Rightarrow> HttpHeader list \<Rightarrow> status outcome \<times> HttpHeader list" where
  "parse_header_lines memory block out =
     (let line = StripTrailingCr (takeWhile (\<lambda>c. c \<noteq> CHR 0x0A) block);
          rest = dropWhile (\<lambda>c. c \<noteq> CHR 0x0A) block
      in if CHR '':'' \<notin> set line then (Returned MalformedHeaderBlock, out)
         else
           let name = Trim (takeWhile (\<lambda>c. c \<noteq> CHR '':'') line);
               val = Trim (tl (dropWhile (\<lambda>c. c \<noteq> CHR '':'') line))
           in if name = [] \<or> val = [] then (Returned MalformedHeaderBlock, out)
              else if header_fails memory (length out) then (Threw, out)
              else
                let out = out @ [\<lparr>header_name = name, header_value = val\<rparr>]
                in case rest of [] \<Rightarrow> (Returned Ok, out) | _ # block \<Rightarrow> parse_header_lines memory block out)"
  by pat_completeness auto

termination parse_header_lines
  by (relation "measure (length \<circ> fst \<circ> snd)") (auto dest: dropWhile_shorter [OF sym])

definition ParseHeaderBlock :: "text_memory \<Rightarrow> string \<Rightarrow> HttpHeader list \<Rightarrow> status outcome \<times> HttpHeader list" where
  "ParseHeaderBlock memory block out =
     (let out = [] in if block = [] then (Returned Ok, out) else parse_header_lines memory block out)"

section \<open>Requests\<close>

text \<open>
  What a call leaves in the caller's variables: the response buffer, the HTTP status code and the
  body's length. A call that throws has written none of them.
\<close>

type_synonym response_out = "cbuf \<times> i32 \<times> u32"

type_synonym text_result = "(status \<times> response_out) outcome mem"

definition FinishResponse ::
  "status \<Rightarrow> HttpResponse \<Rightarrow> u32 \<Rightarrow> response_out \<Rightarrow> (status \<times> response_out) mem" where
  "FinishResponse result response responseBodySize out =
     (case out of (responseBody, httpStatusCode, responseBodyLength) \<Rightarrow>
        if result = InvalidArgument then Some (result, out)
        else do {
          let httpStatusCode = statusCode response;
          let responseBodyLength = of_nat (length (response_body response));
          (copyStatus, responseBody) \<leftarrow> CopyToBuffer (response_body response) responseBody responseBodySize;
          Some (if result = Ok then copyStatus else result, responseBody, httpStatusCode, responseBodyLength)
        })"

text \<open>
  \<open>copy_throws\<close> is about the copies in \<open>BuildAndSend\<close>, which has a handler; the copies of the texts
  made here have none.
\<close>

definition ExecuteNoBodyVerb ::
  "transport \<Rightarrow> text_memory \<Rightarrow> bool \<Rightarrow> HttpMethod \<Rightarrow> cbuf \<Rightarrow> u32 \<Rightarrow> cbuf \<Rightarrow> u32 \<Rightarrow> u32 \<Rightarrow> response_out \<Rightarrow> text_result" where
  "ExecuteNoBodyVerb client memory copy_throws meth urlText urlSize headersText headersSize responseBodySize out =
     do {
       (st, urlView) \<leftarrow> BoundedText urlText urlSize None;
       if st \<noteq> Ok then Some (Returned (st, out))
       else do {
         (st, headersView) \<leftarrow> BoundedText headersText headersSize None;
         if st \<noteq> Ok then Some (Returned (st, out))
         else
           (case ParseHeaderBlock memory (sv_text headersView) [] of
              (Threw, _) \<Rightarrow> Some Threw
            | (Returned st, headers) \<Rightarrow>
                if st \<noteq> Ok then Some (Returned (st, out))
                else if copy_fails memory then Some Threw
                else
                  let options = MakeRequestOptions 0 0 0;
                      (result, response) =
                        (if meth = Get then Get_verb client copy_throws (sv_text urlView) headers options HttpResponse_default
                         else Delete_verb client copy_throws (sv_text urlView) headers options HttpResponse_default)
                  in map_option Returned (FinishResponse result response responseBodySize out))
       }
     }"

definition ExecuteBodyVerb ::
  "transport \<Rightarrow> text_memory \<Rightarrow> bool \<Rightarrow> HttpMethod \<Rightarrow> cbuf \<Rightarrow> u32 \<Rightarrow> cbuf \<Rightarrow> u32 \<Rightarrow> cbuf \<Rightarrow> u32 \<Rightarrow> u32 \<Rightarrow> response_out \<Rightarrow>
     text_result" where
  "ExecuteBodyVerb client memory copy_throws meth urlText urlSize headersText headersSize bodyText bodySize responseBodySize out =
     do {
       (st, urlView) \<leftarrow> BoundedText urlText urlSize None;
       if st \<noteq> Ok then Some (Returned (st, out))
       else do {
         (st, headersView) \<leftarrow> BoundedText headersText headersSize None;
         if st \<noteq> Ok then Some (Returned (st, out))
         else do {
           (st, bodyView) \<leftarrow> BoundedText bodyText bodySize None;
           if st \<noteq> Ok then Some (Returned (st, out))
           else
             (case ParseHeaderBlock memory (sv_text headersView) [] of
                (Threw, _) \<Rightarrow> Some Threw
              | (Returned st, headers) \<Rightarrow>
                  if st \<noteq> Ok then Some (Returned (st, out))
                  else if copy_fails memory then Some Threw
                  else
                    let options = MakeRequestOptions 0 0 0; url = sv_text urlView; body = sv_text bodyView;
                        (result, response) =
                          (case meth of
                             Post \<Rightarrow> Post_verb client copy_throws url headers body options HttpResponse_default
                           | Put \<Rightarrow> Put_verb client copy_throws url headers body options HttpResponse_default
                           | _ \<Rightarrow> Patch_verb client copy_throws url headers body options HttpResponse_default)
                    in map_option Returned (FinishResponse result response responseBodySize out))
         }
       }
     }"

text \<open>
  \<open>ExecuteRequestSync\<close> has no handler around the request either: what the transport throws leaves
  the call, before anything was written to the caller's variables. The method variable is read
  only after it was set, its first value here stands for an uninitialised one.
\<close>

definition ExecuteRequestSync ::
  "transport \<Rightarrow> text_memory \<Rightarrow> cbuf \<Rightarrow> u32 \<Rightarrow> cbuf \<Rightarrow> u32 \<Rightarrow> cbuf \<Rightarrow> u32 \<Rightarrow> cbuf \<Rightarrow> u32 \<Rightarrow> u32 \<Rightarrow> u32 \<Rightarrow> u32 \<Rightarrow> u32 \<Rightarrow>
     response_out \<Rightarrow> text_result" where
  "ExecuteRequestSync client memory methodText methodSize urlText urlSize headersText headersSize bodyText bodySize
     connectMs totalMs maxBytes responseBodySize out =
     do {
       (st, methodView) \<leftarrow> BoundedText methodText methodSize None;
       if st \<noteq> Ok then Some (Returned (st, out))
       else do {
         (st, urlView) \<leftarrow> BoundedText urlText urlSize None;
         if st \<noteq> Ok then Some (Returned (st, out))
         else do {
           (st, headersView) \<leftarrow> BoundedText headersText headersSize None;
           if st \<noteq> Ok then Some (Returned (st, out))
           else do {
             (st, bodyView) \<leftarrow> BoundedText bodyText bodySize None;
             if st \<noteq> Ok then Some (Returned (st, out))
             else
               let (st, meth) = ParseMethodText (sv_text methodView) Get
               in if st \<noteq> Ok then Some (Returned (st, out))
                  else
                    (case ParseHeaderBlock memory (sv_text headersView) [] of
                       (Threw, _) \<Rightarrow> Some Threw
                     | (Returned st, headers) \<Rightarrow>
                         if st \<noteq> Ok then Some (Returned (st, out))
                         else if copy_fails memory then Some Threw
                         else
                           let request = HttpRequest_default\<lparr>request_method := meth, request_url := sv_text urlView,
                                 request_headers := headers, request_body := sv_text bodyView,
                                 request_options := MakeRequestOptions connectMs totalMs maxBytes\<rparr>
                           in case Request client request HttpResponse_default of
                                (Threw, _) \<Rightarrow> Some Threw
                              | (Returned result, response) \<Rightarrow>
                                  map_option Returned (FinishResponse result response responseBodySize out))
           }
         }
       }
     }"

definition ExecuteGetSync where
  "ExecuteGetSync client memory copy_throws urlText urlSize headersText headersSize responseBodySize out =
     ExecuteNoBodyVerb client memory copy_throws Get urlText urlSize headersText headersSize responseBodySize out"

definition ExecuteDeleteSync where
  "ExecuteDeleteSync client memory copy_throws urlText urlSize headersText headersSize responseBodySize out =
     ExecuteNoBodyVerb client memory copy_throws Delete urlText urlSize headersText headersSize responseBodySize out"

definition ExecutePostSync where
  "ExecutePostSync client memory copy_throws urlText urlSize headersText headersSize bodyText bodySize responseBodySize out =
     ExecuteBodyVerb client memory copy_throws Post urlText urlSize headersText headersSize bodyText bodySize responseBodySize out"

definition ExecutePutSync where
  "ExecutePutSync client memory copy_throws urlText urlSize headersText headersSize bodyText bodySize responseBodySize out =
     ExecuteBodyVerb client memory copy_throws Put urlText urlSize headersText headersSize bodyText bodySize responseBodySize out"

definition ExecutePatchSync where
  "ExecutePatchSync client memory copy_throws urlText urlSize headersText headersSize bodyText bodySize responseBodySize out =
     ExecuteBodyVerb client memory copy_throws Patch urlText urlSize headersText headersSize bodyText bodySize responseBodySize out"

section \<open>What the header grammar means\<close>

text \<open>The lines of a text: there is always one more line than line feeds.\<close>

fun lines_of :: "string \<Rightarrow> string list" where
  "lines_of [] = [[]]"
| "lines_of (c # cs) =
     (if c = CHR 0x0A then [] # lines_of cs
      else case lines_of cs of [] \<Rightarrow> [[c]] | l # ls \<Rightarrow> (c # l) # ls)"

lemma lines_of_not_Nil [simp]: "lines_of s \<noteq> []"
  by (induction s) (auto split: list.splits)

lemma lines_of_split:
  "lines_of s = takeWhile (\<lambda>c. c \<noteq> CHR 0x0A) s #
     (case dropWhile (\<lambda>c. c \<noteq> CHR 0x0A) s of [] \<Rightarrow> [] | _ # rest \<Rightarrow> lines_of rest)"
  by (induction s) auto

text \<open>One header line: \<open>name ":" value\<close>, both nonempty without the spaces around them.\<close>

definition header_of_line :: "string \<Rightarrow> HttpHeader option" where
  "header_of_line line =
     (let line = StripTrailingCr line;
          name = Trim (takeWhile (\<lambda>c. c \<noteq> CHR '':'') line);
          val = Trim (tl (dropWhile (\<lambda>c. c \<noteq> CHR '':'') line))
      in if CHR '':'' \<in> set line \<and> name \<noteq> [] \<and> val \<noteq> [] then Some \<lparr>header_name = name, header_value = val\<rparr>
         else None)"

text \<open>The headers of the lines up to the first malformed one, and whether there is one.\<close>

fun headers_of :: "string list \<Rightarrow> status \<times> HttpHeader list" where
  "headers_of [] = (Ok, [])"
| "headers_of (l # ls) =
     (case header_of_line l of
        None \<Rightarrow> (MalformedHeaderBlock, [])
      | Some h \<Rightarrow> map_prod id ((#) h) (headers_of ls))"

declare parse_header_lines.simps [simp del]

lemma parse_header_lines_step:
  "parse_header_lines memory block out =
     (case header_of_line (takeWhile (\<lambda>c. c \<noteq> CHR 0x0A) block) of
        None \<Rightarrow> (Returned MalformedHeaderBlock, out)
      | Some h \<Rightarrow>
          if header_fails memory (length out) then (Threw, out)
          else (case dropWhile (\<lambda>c. c \<noteq> CHR 0x0A) block of
            [] \<Rightarrow> (Returned Ok, out @ [h]) | _ # rest \<Rightarrow> parse_header_lines memory rest (out @ [h])))"
  by (subst parse_header_lines.simps) (simp add: header_of_line_def Let_def)

text \<open>
  The headers of a block in order, up to the first for which there is no memory: then the call
  throws, whatever line may follow.
\<close>

definition stored_headers :: "text_memory \<Rightarrow> nat \<Rightarrow> status \<times> HttpHeader list \<Rightarrow> status outcome \<times> HttpHeader list" where
  "stored_headers memory n r =
     (case r of (st, hs) \<Rightarrow>
        (case List.find (\<lambda>k. header_fails memory (n + k)) [0..<length hs] of
           None \<Rightarrow> (Returned st, hs)
         | Some k \<Rightarrow> (Threw, take k hs)))"

lemma find_upt_Suc:
  "List.find P [0..<Suc n] = (if P 0 then Some 0 else map_option Suc (List.find (\<lambda>k. P (Suc k)) [0..<n]))"
proof -
  have "List.find P (map Suc xs) = map_option Suc (List.find (\<lambda>k. P (Suc k)) xs)" for xs
    by (induction xs) simp_all
  then show ?thesis by (simp only: upt_conv_Cons [OF zero_less_Suc] map_Suc_upt [symmetric] find.simps)
qed

lemma stored_headers_Nil [simp]: "stored_headers memory n (st, []) = (Returned st, [])"
  by (simp add: stored_headers_def)

lemma stored_headers_Cons [simp]:
  "stored_headers memory n (st, h # hs) =
     (if header_fails memory n then (Threw, []) else map_prod id ((#) h) (stored_headers memory (Suc n) (st, hs)))"
  by (simp add: stored_headers_def find_upt_Suc split: option.split del: upt_Suc)

lemma parse_header_lines_eq:
  "parse_header_lines memory block out = map_prod id ((@) out) (stored_headers memory (length out) (headers_of (lines_of block)))"
proof (induction "length block" arbitrary: block out rule: less_induct)
  case less
  note unfold = parse_header_lines_step [of memory block out] lines_of_split [of block]
  show ?case
  proof (cases "dropWhile (\<lambda>c. c \<noteq> CHR 0x0A) block")
    case Nil
    show ?thesis unfolding unfold Nil by (simp split: option.split)
  next
    case (Cons c rest)
    note IH = less [OF dropWhile_shorter [OF Cons]]
    show ?thesis unfolding unfold Cons
      by (cases "headers_of (lines_of rest)") (simp add: IH map_prod_def split: option.split prod.split)
  qed
qed

lemma ParseHeaderBlock_eq:
  "ParseHeaderBlock memory block out =
     (if block = [] then (Returned Ok, []) else stored_headers memory 0 (headers_of (lines_of block)))"
  by (simp add: ParseHeaderBlock_def parse_header_lines_eq map_prod_def split: prod.split)

text \<open>The headers the block holds, and whether copying one of them throws.\<close>

definition block_headers :: "string \<Rightarrow> status \<times> HttpHeader list" where
  "block_headers block = (if block = [] then (Ok, []) else headers_of (lines_of block))"

definition headers_throw :: "text_memory \<Rightarrow> string \<Rightarrow> bool" where
  "headers_throw memory block \<longleftrightarrow> list_ex (header_fails memory) [0..<length (snd (block_headers block))]"

lemma ParseHeaderBlock_throws:
  "fst (ParseHeaderBlock memory block out) = (if headers_throw memory block then Threw else Returned (fst (block_headers block)))"
  "\<not> headers_throw memory block \<Longrightarrow> ParseHeaderBlock memory block out = map_prod Returned id (block_headers block)"
  by (cases "block = []"; cases "headers_of (lines_of block)";
      force simp: ParseHeaderBlock_eq headers_throw_def block_headers_def stored_headers_def list_ex_iff find_None_iff find_Some_iff
        split: option.split)+

lemma headers_throw_all_memory [simp]: "\<not> headers_throw all_memory block"
  by (simp add: headers_throw_def all_memory_def list_ex_iff)

lemma copy_fails_all_memory [simp]: "\<not> copy_fails all_memory"
  by (simp add: all_memory_def)

section \<open>The request a call stands for\<close>

text \<open>
  Method and header texts as values. The asynchronous calls read the same texts, so what a call
  asks for is one function of its arguments.
\<close>

definition method_of :: "string \<Rightarrow> status + HttpMethod" where
  "method_of s = (case ParseMethodText s Get of (st, meth) \<Rightarrow> if st = Ok then Inr meth else Inl st)"

definition header_list :: "string \<Rightarrow> status + HttpHeader list" where
  "header_list s = (case block_headers s of (st, hs) \<Rightarrow> if st = Ok then Inr hs else Inl st)"

definition build_request :: "HttpMethod \<Rightarrow> string \<Rightarrow> HttpHeader list \<Rightarrow> string \<Rightarrow> u32 \<Rightarrow> u32 \<Rightarrow> u32 \<Rightarrow> status + HttpRequest" where
  "build_request meth url headers body connectMs totalMs maxBytes =
     (let request = \<lparr>request_method = meth, request_url = url, request_headers = headers, request_body = body,
        request_options = \<lparr>connectTimeoutMs = connectMs, totalTimeoutMs = totalMs, maxResponseBytes = maxBytes,
          skipTlsVerification = False\<rparr>, cancelFlag = None\<rparr>
      in if sendable request then Inr request else Inl InvalidArgument)"

text \<open>The texts of a call once they were read, or why they were not: method, URL, header block, body.\<close>

type_synonym texts = "status + (HttpMethod \<times> string \<times> string \<times> string)"

definition generic_texts :: "cbuf \<Rightarrow> u32 \<Rightarrow> cbuf \<Rightarrow> u32 \<Rightarrow> cbuf \<Rightarrow> u32 \<Rightarrow> cbuf \<Rightarrow> u32 \<Rightarrow> texts" where
  "generic_texts methodText methodSize urlText urlSize headersText headersSize bodyText bodySize =
     and_then (bounded methodText methodSize) (\<lambda>methodName.
     and_then (bounded urlText urlSize) (\<lambda>url.
     and_then (bounded headersText headersSize) (\<lambda>block.
     and_then (bounded bodyText bodySize) (\<lambda>body.
     and_then (method_of methodName) (\<lambda>meth. Inr (meth, url, block, body))))))"

definition body_texts :: "HttpMethod \<Rightarrow> cbuf \<Rightarrow> u32 \<Rightarrow> cbuf \<Rightarrow> u32 \<Rightarrow> cbuf \<Rightarrow> u32 \<Rightarrow> texts" where
  "body_texts meth urlText urlSize headersText headersSize bodyText bodySize =
     and_then (bounded urlText urlSize) (\<lambda>url.
     and_then (bounded headersText headersSize) (\<lambda>block.
     and_then (bounded bodyText bodySize) (\<lambda>body. Inr (meth, url, block, body))))"

definition plain_texts :: "HttpMethod \<Rightarrow> cbuf \<Rightarrow> u32 \<Rightarrow> cbuf \<Rightarrow> u32 \<Rightarrow> texts" where
  "plain_texts meth urlText urlSize headersText headersSize =
     and_then (bounded urlText urlSize) (\<lambda>url.
     and_then (bounded headersText headersSize) (\<lambda>block. Inr (meth, url, block, [])))"

text \<open>The request they stand for, with the limits of the call.\<close>

definition request_of :: "u32 \<Rightarrow> u32 \<Rightarrow> u32 \<Rightarrow> texts \<Rightarrow> status + HttpRequest" where
  "request_of connectMs totalMs maxBytes texts =
     and_then texts (\<lambda>(meth, url, block, body).
     and_then (header_list block) (\<lambda>headers.
     build_request meth url headers body connectMs totalMs maxBytes))"

definition generic_request ::
  "cbuf \<Rightarrow> u32 \<Rightarrow> cbuf \<Rightarrow> u32 \<Rightarrow> cbuf \<Rightarrow> u32 \<Rightarrow> cbuf \<Rightarrow> u32 \<Rightarrow> u32 \<Rightarrow> u32 \<Rightarrow> u32 \<Rightarrow> status + HttpRequest" where
  "generic_request methodText methodSize urlText urlSize headersText headersSize bodyText bodySize connectMs totalMs maxBytes =
     request_of connectMs totalMs maxBytes
       (generic_texts methodText methodSize urlText urlSize headersText headersSize bodyText bodySize)"

definition body_request :: "HttpMethod \<Rightarrow> cbuf \<Rightarrow> u32 \<Rightarrow> cbuf \<Rightarrow> u32 \<Rightarrow> cbuf \<Rightarrow> u32 \<Rightarrow> status + HttpRequest" where
  "body_request meth urlText urlSize headersText headersSize bodyText bodySize =
     request_of 0 0 0 (body_texts meth urlText urlSize headersText headersSize bodyText bodySize)"

definition plain_request :: "HttpMethod \<Rightarrow> cbuf \<Rightarrow> u32 \<Rightarrow> cbuf \<Rightarrow> u32 \<Rightarrow> status + HttpRequest" where
  "plain_request meth urlText urlSize headersText headersSize =
     request_of 0 0 0 (plain_texts meth urlText urlSize headersText headersSize)"

text \<open>
  When a synchronous call throws before it makes its request: every text was read, and a header
  before the first malformed line finds no memory, or all headers are there and a copy finds none.
\<close>

definition memory_short :: "text_memory \<Rightarrow> string \<Rightarrow> bool" where
  "memory_short memory block \<longleftrightarrow> headers_throw memory block \<or> fst (block_headers block) = Ok \<and> copy_fails memory"

lemma memory_short_all_memory [simp]: "\<not> memory_short all_memory block"
  by (simp add: memory_short_def)

definition sync_throws :: "text_memory \<Rightarrow> texts \<Rightarrow> bool" where
  "sync_throws memory texts =
     (case texts of
        Inl _ \<Rightarrow> False
      | Inr (_, _, block, _) \<Rightarrow> memory_short memory block)"

lemma sync_throws_simps [simp]:
  "\<not> sync_throws memory (Inl st)"
  "sync_throws memory (Inr (meth, url, block, body)) \<longleftrightarrow> memory_short memory block"
  "\<not> sync_throws all_memory texts"
  by (simp_all add: sync_throws_def split: sum.split)

lemma request_of_simps [simp]:
  "request_of c t m (Inl st) = Inl st"
  "request_of c t m (Inr (meth, url, block, body)) =
     and_then (header_list block) (\<lambda>headers. build_request meth url headers body c t m)"
  by (simp_all add: request_of_def)

text \<open>What a call does with its request: nothing, or one transport call whose result is delivered.\<close>

definition perform_and_deliver ::
  "transport \<Rightarrow> u32 \<Rightarrow> response_out \<Rightarrow> status + HttpRequest \<Rightarrow> text_result" where
  "perform_and_deliver client responseBodySize out request =
     (case request of
        Inl st \<Rightarrow> Some (Returned (st, out))
      | Inr request \<Rightarrow>
          (case client request HttpResponse_default of
             (Threw, _) \<Rightarrow> Some Threw
           | (Returned st, response) \<Rightarrow> map_option Returned (FinishResponse st response responseBodySize out)))"

text \<open>A handler around the transport.\<close>

definition guarded :: "transport \<Rightarrow> transport" where
  "guarded client request response = map_prod (\<lambda>r. Returned (catch_all r NetworkError)) id (client request response)"

lemma perform_and_deliver_Inl [simp]: "perform_and_deliver client n out (Inl st) = Some (Returned (st, out))"
  by (simp add: perform_and_deliver_def)

lemma FinishResponse_InvalidArgument [simp]:
  "FinishResponse InvalidArgument response n out = Some (InvalidArgument, out)"
  by (simp add: FinishResponse_def split: prod.split)

lemma Request_deliver:
  "(case Request client \<lparr>request_method = meth, request_url = url, request_headers = headers, request_body = body,
        request_options = MakeRequestOptions c t m, cancelFlag = None\<rparr> HttpResponse_default of
      (Threw, _) \<Rightarrow> Some Threw
    | (Returned st, response) \<Rightarrow> map_option Returned (FinishResponse st response n out)) =
   perform_and_deliver client n out (build_request meth url headers body c t m)"
  by (simp add: Request_sendable build_request_def perform_and_deliver_def Let_def MakeRequestOptions_def
      RequestOptions_default_def)

lemma BuildAndSend_deliver:
  "(case BuildAndSend client False meth url headers body (MakeRequestOptions 0 0 0) HttpResponse_default of
      (st, response) \<Rightarrow> map_option Returned (FinishResponse st response n out)) =
   perform_and_deliver (guarded client) n out (build_request meth url headers body 0 0 0)"
  by (simp add: BuildAndSend_eq build_request_def perform_and_deliver_def guarded_def Let_def MakeRequestOptions_def
      RequestOptions_default_def split_beta)

text \<open>A call behind the reading of its texts.\<close>

lemma header_outcome:
  "(case ParseHeaderBlock memory block [] of
      (Threw, _) \<Rightarrow> Some Threw
    | (Returned st, headers) \<Rightarrow>
        if st \<noteq> Ok then Some (Returned (st, out)) else if copy_fails memory then Some Threw else send headers) =
   (if memory_short memory block then Some Threw
    else (case header_list block of Inl st \<Rightarrow> Some (Returned (st, out)) | Inr headers \<Rightarrow> send headers))"
proof (cases "headers_throw memory block")
  case True
  then have "fst (ParseHeaderBlock memory block []) = Threw" by (simp add: ParseHeaderBlock_throws(1))
  with True show ?thesis by (cases "ParseHeaderBlock memory block []") (simp add: memory_short_def)
next
  case False
  from ParseHeaderBlock_throws(2) [OF False, of "[]"] False show ?thesis
    by (cases "block_headers block") (simp add: header_list_def memory_short_def)
qed

definition send_texts :: "transport \<Rightarrow> text_memory \<Rightarrow> u32 \<Rightarrow> response_out \<Rightarrow> texts \<Rightarrow> status + HttpRequest \<Rightarrow> text_result" where
  "send_texts client memory n out texts request =
     (if sync_throws memory texts then Some Threw else perform_and_deliver client n out request)"

lemma send_texts_simps [simp]:
  "send_texts client memory n out (Inl st) request = perform_and_deliver client n out request"
  "send_texts client memory n out (Inr (meth, url, block, body)) (and_then (header_list block) f) =
     (if memory_short memory block then Some Threw
      else (case header_list block of Inl st \<Rightarrow> Some (Returned (st, out)) | Inr headers \<Rightarrow> perform_and_deliver client n out (f headers)))"
  "send_texts client all_memory n out texts request = perform_and_deliver client n out request"
  by (simp_all add: send_texts_def split: sum.split)

lemma ExecuteRequestSync_eq:
  assumes "buf_ok methodText mn" "buf_ok urlText un" "buf_ok headersText hn" "buf_ok bodyText bn"
  shows "ExecuteRequestSync client memory methodText mn urlText un headersText hn bodyText bn c t m n out =
    send_texts client memory n out (generic_texts methodText mn urlText un headersText hn bodyText bn)
      (generic_request methodText mn urlText un headersText hn bodyText bn c t m)"
  unfolding ExecuteRequestSync_def generic_request_def generic_texts_def
  by (simp add: BoundedText_bounded assms method_of_def HttpRequest_default_def Let_def
      bounded_not_Ok Request_deliver header_outcome split: sum.split prod.split)

lemma ExecuteBodyVerb_eq:
  assumes "buf_ok urlText un" "buf_ok headersText hn" "buf_ok bodyText bn" "meth \<in> {Post, Put, Patch}"
  shows "ExecuteBodyVerb client memory False meth urlText un headersText hn bodyText bn n out =
    send_texts (guarded client) memory n out (body_texts meth urlText un headersText hn bodyText bn)
      (body_request meth urlText un headersText hn bodyText bn)"
  unfolding ExecuteBodyVerb_def body_request_def body_texts_def
  using assms(4)
  by (auto simp: BoundedText_bounded assms(1-3) Let_def bounded_not_Ok BuildAndSend_deliver [symmetric]
      header_outcome Post_verb_def Put_verb_def Patch_verb_def split: sum.split prod.split)

lemma ExecuteNoBodyVerb_eq:
  assumes "buf_ok urlText un" "buf_ok headersText hn" "meth \<in> {Get, Delete}"
  shows "ExecuteNoBodyVerb client memory False meth urlText un headersText hn n out =
    send_texts (guarded client) memory n out (plain_texts meth urlText un headersText hn)
      (plain_request meth urlText un headersText hn)"
  unfolding ExecuteNoBodyVerb_def plain_request_def plain_texts_def
  using assms(3)
  by (auto simp: BoundedText_bounded assms(1-2) Let_def bounded_not_Ok BuildAndSend_deliver [symmetric]
      header_outcome Get_verb_def Delete_verb_def split: sum.split prod.split)

section \<open>Writing header blocks\<close>

definition trimmed :: "string \<Rightarrow> bool" where
  "trimmed s \<longleftrightarrow> s \<noteq> [] \<and> \<not> isspace (hd s) \<and> \<not> isspace (List.last s)"

lemma Trim_trimmed: "trimmed s \<Longrightarrow> Trim s = s"
  unfolding trimmed_def Trim_def
  by (metis (no_types, lifting) dropWhile_eq_self_iff hd_rev rev_is_Nil_conv rev_rev_ident)

lemma Trim_dropWhile: "dropWhile isspace s = Trim s @ rev (takeWhile isspace (rev (dropWhile isspace s)))"
  unfolding Trim_def by (simp only: rev_append [symmetric] takeWhile_dropWhile_id rev_rev_ident)

lemma Trim_parts: "\<exists>front back. s = front @ Trim s @ back"
proof (intro exI)
  show "s = takeWhile isspace s @ Trim s @ rev (takeWhile isspace (rev (dropWhile isspace s)))"
    by (simp only: Trim_dropWhile [symmetric] takeWhile_dropWhile_id)
qed

lemma set_Trim: "c \<in> set (Trim s) \<Longrightarrow> c \<in> set s"
  using Trim_parts [of s] by (metis Un_iff set_append)

lemma Trim_result:
  assumes ne: "Trim s \<noteq> []"
  shows "trimmed (Trim s)"
proof -
  let ?t = "dropWhile isspace s"
  have t: "?t \<noteq> []" and r: "dropWhile isspace (rev ?t) \<noteq> []" using ne unfolding Trim_def by (metis dropWhile.simps(1) rev.simps(1), metis rev.simps(1))
  have "hd ?t = hd (Trim s)" by (subst Trim_dropWhile) (simp only: hd_append2 [OF ne])
  with hd_dropWhile [OF t] hd_dropWhile [OF r] ne show ?thesis
    by (simp add: trimmed_def Trim_def last_rev)
qed

definition clean_header :: "HttpHeader \<Rightarrow> bool" where
  "clean_header h \<longleftrightarrow> trimmed (header_name h) \<and> trimmed (header_value h)
     \<and> CHR '':'' \<notin> set (header_name h) \<and> CHR 0x0A \<notin> set (header_name h) \<union> set (header_value h)"

fun print_headers :: "bool \<Rightarrow> HttpHeader list \<Rightarrow> string" where
  "print_headers cr [] = []"
| "print_headers cr [h] = header_name h @ '': '' @ header_value h"
| "print_headers cr (h # hs) =
     header_name h @ '': '' @ header_value h @ (if cr then [CHR 0x0D] else []) @ CHR 0x0A # print_headers cr hs"

lemma StripTrailingCr_ends:
  "StripTrailingCr (l @ [CHR 0x0D]) = l" "List.last l \<noteq> CHR 0x0D \<Longrightarrow> StripTrailingCr l = l"
  by (simp_all add: StripTrailingCr_def)

lemma lines_of_line: "CHR 0x0A \<notin> set l \<Longrightarrow> lines_of l = [l]"
  by (induction l) auto

lemma lines_of_append: "CHR 0x0A \<notin> set l \<Longrightarrow> lines_of (l @ CHR 0x0A # rest) = l # lines_of rest"
  by (induction l) auto

lemma header_of_written:
  assumes "clean_header h"
  shows "header_of_line (header_name h @ '': '' @ header_value h @ (if cr then [CHR 0x0D] else [])) = Some h"
proof -
  let ?l = "header_name h @ '': '' @ header_value h"
  note h = assms [unfolded clean_header_def trimmed_def]
  have "List.last ?l \<noteq> CHR 0x0D" using h by (auto simp: isspace_def)
  then have strip: "StripTrailingCr (?l @ (if cr then [CHR 0x0D] else [])) = ?l"
    using StripTrailingCr_ends [of ?l] by (cases cr) simp_all
  have name: "takeWhile (\<lambda>c. c \<noteq> CHR '':'') ?l = header_name h"
    and val: "dropWhile (\<lambda>c. c \<noteq> CHR '':'') ?l = '': '' @ header_value h"
    using h by (auto simp: takeWhile_tail dropWhile_append3)
  have "Trim (CHR '' '' # header_value h) = Trim (header_value h)" by (simp add: Trim_def isspace_def)
  moreover have "header_of_line (?l @ (if cr then [CHR 0x0D] else [])) =
      (if CHR '':'' \<in> set ?l \<and> Trim (header_name h) \<noteq> [] \<and> Trim (CHR '' '' # header_value h) \<noteq> []
       then Some \<lparr>header_name = Trim (header_name h), header_value = Trim (CHR '' '' # header_value h)\<rparr> else None)"
    unfolding header_of_line_def strip name val Let_def by simp
  ultimately show ?thesis using assms by (auto simp: clean_header_def Trim_trimmed trimmed_def)
qed

lemma headers_of_written:
  assumes "list_all clean_header hs" "hs \<noteq> []"
  shows "headers_of (lines_of (print_headers cr hs)) = (Ok, hs)"
  using assms
proof (induction cr hs rule: print_headers.induct)
  case (2 cr h)
  have "CHR 0x0A \<notin> set (header_name h @ '': '' @ header_value h)" using 2 by (simp add: clean_header_def)
  with header_of_written [of h False] 2 show ?case by (simp add: lines_of_line)
next
  case (3 cr h h' hs)
  have "CHR 0x0A \<notin> set (header_name h @ '': '' @ header_value h @ (if cr then [CHR 0x0D] else []))"
    using 3(2) by (simp add: clean_header_def)
  from lines_of_append [OF this] header_of_written [of h cr] 3
  show ?case by simp
qed simp

lemma lines_of_no_lf: "l \<in> set (lines_of s) \<Longrightarrow> CHR 0x0A \<notin> set l"
  by (induction s arbitrary: l) (auto split: if_splits list.splits)

lemma header_of_line_clean:
  assumes "header_of_line l = Some h" "CHR 0x0A \<notin> set l"
  shows "clean_header h"
proof -
  let ?l = "StripTrailingCr l"
  let ?n = "takeWhile (\<lambda>c. c \<noteq> CHR '':'') ?l" and ?v = "tl (dropWhile (\<lambda>c. c \<noteq> CHR '':'') ?l)"
  have h: "h = \<lparr>header_name = Trim ?n, header_value = Trim ?v\<rparr>" "Trim ?n \<noteq> []" "Trim ?v \<noteq> []"
    using assms(1) by (auto simp: header_of_line_def Let_def split: if_splits)
  have "set ?l \<subseteq> set l" by (auto simp: StripTrailingCr_def dest: in_set_butlastD)
  then have lf: "CHR 0x0A \<notin> set ?l" using assms(2) by blast
  have n: "CHR '':'' \<notin> set ?n" "CHR 0x0A \<notin> set ?n" using lf by (auto dest: set_takeWhileD)
  have "CHR 0x0A \<notin> set (dropWhile (\<lambda>c. c \<noteq> CHR '':'') ?l)" using lf set_dropWhileD [of "CHR 0x0A"] by fast
  then have v: "CHR 0x0A \<notin> set ?v" by (rule contrapos_nn) (rule in_set_tl)
  have "CHR '':'' \<notin> set (Trim ?n)" "CHR 0x0A \<notin> set (Trim ?n)" "CHR 0x0A \<notin> set (Trim ?v)"
    using n v by (metis set_Trim)+
  with h Trim_result show ?thesis by (simp add: clean_header_def)
qed

lemma headers_of_Ok_iff: "headers_of ls = (Ok, hs) \<longleftrightarrow> map header_of_line ls = map Some hs"
proof (induction ls arbitrary: hs)
  case (Cons l ls)
  from Cons.IH [of "tl hs"] show ?case
    by (cases "header_of_line l"; cases "headers_of ls"; cases hs) auto
qed auto

lemma headers_of_status: "fst (headers_of ls) \<in> {Ok, MalformedHeaderBlock}"
  by (induction ls) (auto split: option.splits)

section \<open>Verb calls are generic calls\<close>

abbreviation c_text :: "string \<Rightarrow> cbuf" where "c_text s \<equiv> Buf (s @ [NUL])"

lemma bounded_c_text: "NUL \<notin> set s \<Longrightarrow> length s < unat n \<Longrightarrow> bounded (c_text s) n = Inr s"
  by (auto simp: bounded_def c_string_terminated)

lemma method_names:
  "method_of ''GET'' = Inr Get" "method_of ''POST'' = Inr Post" "method_of ''PUT'' = Inr Put"
  "method_of ''PATCH'' = Inr Patch" "method_of ''DELETE'' = Inr Delete"
  by code_simp+

lemma generic_plain:
  "generic_texts (c_text ''GET'') 4 urlText un headersText hn (c_text []) 1 = plain_texts Get urlText un headersText hn"
  "generic_texts (c_text ''DELETE'') 7 urlText un headersText hn (c_text []) 1 = plain_texts Delete urlText un headersText hn"
  by (simp_all add: generic_texts_def plain_texts_def method_names bounded_c_text [of "[]", simplified]
      bounded_c_text [of "''GET''", simplified] bounded_c_text [of "''DELETE''", simplified])

lemma generic_body:
  "generic_texts (c_text ''POST'') 5 urlText un headersText hn bodyText bn = body_texts Post urlText un headersText hn bodyText bn"
  "generic_texts (c_text ''PUT'') 4 urlText un headersText hn bodyText bn = body_texts Put urlText un headersText hn bodyText bn"
  "generic_texts (c_text ''PATCH'') 6 urlText un headersText hn bodyText bn = body_texts Patch urlText un headersText hn bodyText bn"
  by (simp_all add: generic_texts_def body_texts_def method_names bounded_c_text [of "''POST''", simplified]
      bounded_c_text [of "''PUT''", simplified] bounded_c_text [of "''PATCH''", simplified])

section \<open>What any request is like\<close>

definition safe_request :: "HttpRequest \<Rightarrow> bool" where
  "safe_request request \<longleftrightarrow> sendable request \<and> \<not> skipTlsVerification (request_options request)
     \<and> cancelFlag request = None \<and> list_all clean_header (request_headers request)"

lemma header_list_clean: "header_list s = Inr hs \<Longrightarrow> list_all clean_header hs"
proof (cases "s = []")
  case False
  assume "header_list s = Inr hs"
  then have "map header_of_line (lines_of s) = map Some hs"
    using False by (simp add: header_list_def block_headers_def headers_of_Ok_iff [symmetric] split: prod.splits if_splits)
  then have "\<exists>l\<in>set (lines_of s). header_of_line l = Some h" if "h \<in> set hs" for h
    using that by (metis (no_types, lifting) in_set_conv_nth length_map nth_map)
  then have "clean_header h" if "h \<in> set hs" for h
    using that header_of_line_clean lines_of_no_lf by metis
  then show ?thesis by (simp add: list_all_iff)
qed (simp add: header_list_def block_headers_def)

lemma build_request_safe:
  "build_request meth url hs body c t m = Inr r \<Longrightarrow> list_all clean_header hs \<Longrightarrow> safe_request r"
  by (auto simp: build_request_def safe_request_def Let_def split: if_splits)

lemma and_then_InrD: "and_then r f = Inr y \<Longrightarrow> \<exists>x. r = Inr x \<and> f x = Inr y"
  by (cases r) auto

lemma requests_safe:
  "generic_request mt mn ut un ht hn bt bn c t m = Inr r \<Longrightarrow> safe_request r"
  "body_request meth ut un ht hn bt bn = Inr r \<Longrightarrow> safe_request r"
  "plain_request meth ut un ht hn = Inr r \<Longrightarrow> safe_request r"
  unfolding generic_request_def body_request_def plain_request_def request_of_def
  by (auto dest!: and_then_InrD dest: build_request_safe header_list_clean)

lemma deliver_cong:
  assumes "\<And>r response. request = Inr r \<Longrightarrow> client r response = client' r response"
  shows "send_texts client memory n out texts request = send_texts client' memory n out texts request"
  using assms by (cases request) (simp_all add: send_texts_def perform_and_deliver_def)

lemma headers_of_lines:
  "headers_of ls = (st, hs) \<Longrightarrow> map header_of_line (take (length hs) ls) = map Some hs \<and> length hs \<le> length ls"
  by (induction ls arbitrary: st hs) (auto simp: map_prod_def split: option.splits prod.splits)

lemma ParseHeaderBlock_stops:
  assumes "headers_throw memory block"
  shows "\<exists>k hs. ParseHeaderBlock memory block out = (Threw, hs) \<and> length hs = k \<and> header_fails memory k
     \<and> (\<forall>j<k. \<not> header_fails memory j)
     \<and> block \<noteq> [] \<and> map header_of_line (take k (lines_of block)) = map Some hs
     \<and> k < length (lines_of block) \<and> header_of_line (lines_of block ! k) \<noteq> None"
proof -
  obtain st hs where hs: "headers_of (lines_of block) = (st, hs)" by force
  have ne: "block \<noteq> []" using assms by (auto simp: headers_throw_def block_headers_def)
  with assms hs have "\<exists>k\<in>{0..<length hs}. header_fails memory k"
    by (auto simp: headers_throw_def block_headers_def list_ex_iff)
  then obtain k where k: "List.find (header_fails memory) [0..<length hs] = Some k"
    by (metis find_None_iff not_Some_eq set_upt)
  then have k': "k < length hs" "header_fails memory k" "\<forall>j<k. \<not> header_fails memory j"
    by (auto simp: find_Some_iff)
  note lines = headers_of_lines [OF hs]
  have "map header_of_line (take k (take (length hs) (lines_of block))) = map Some (take k hs)"
    using lines by (simp only: take_map [symmetric])
  moreover have "header_of_line (lines_of block ! k) = Some (hs ! k)"
  proof -
    have "map header_of_line (take (length hs) (lines_of block)) ! k = map Some hs ! k" using lines by simp
    moreover have "k < length (lines_of block)" using k'(1) lines by linarith
    ultimately show ?thesis using k'(1) by simp
  qed
  moreover have "ParseHeaderBlock memory block out = (Threw, take k hs)"
    using ne hs k by (simp add: ParseHeaderBlock_eq stored_headers_def)
  ultimately show ?thesis using k' lines ne by (intro exI [of _ k] exI [of _ "take k hs"]) simp
qed

section \<open>Properties\<close>

text \<open>C28: The header grammar. While memory lasts a block is accepted exactly when it is empty or
  every one of its lines is a header line, and then the headers are those of the lines, in order;
  otherwise the block is malformed. If there is no memory for one of the headers that stand before
  the first malformed line, the call throws, and the headers taken so far are those before it,
  whatever comes behind it in the block. Every header accepted has a name and a value without
  surrounding space or a line feed and a name without a colon, so that no header can carry another
  one.
\<close>

theorem header_block_exact:
  "(\<not> headers_throw memory block \<longrightarrow>
      (ParseHeaderBlock memory block out = (Returned Ok, hs) \<longleftrightarrow>
         (if block = [] then hs = [] else map header_of_line (lines_of block) = map Some hs))
      \<and> fst (ParseHeaderBlock memory block out) \<in> {Returned Ok, Returned MalformedHeaderBlock})
   \<and> (headers_throw memory block \<longleftrightarrow>
      (\<exists>k hs. ParseHeaderBlock memory block out = (Threw, hs) \<and> length hs = k \<and> header_fails memory k
         \<and> (\<forall>j<k. \<not> header_fails memory j)
         \<and> block \<noteq> [] \<and> map header_of_line (take k (lines_of block)) = map Some hs
         \<and> k < length (lines_of block) \<and> header_of_line (lines_of block ! k) \<noteq> None))
   \<and> (ParseHeaderBlock memory block out = (Returned Ok, hs) \<longrightarrow> list_all clean_header hs)"
proof (intro conjI impI)
  show "ParseHeaderBlock memory block out = (Returned Ok, hs) \<longleftrightarrow>
      (if block = [] then hs = [] else map header_of_line (lines_of block) = map Some hs)" if "\<not> headers_throw memory block"
    using that headers_of_Ok_iff [of "lines_of block" hs]
    by (cases "headers_of (lines_of block)") (auto simp: ParseHeaderBlock_throws(2) block_headers_def)
  show "fst (ParseHeaderBlock memory block out) \<in> {Returned Ok, Returned MalformedHeaderBlock}" if "\<not> headers_throw memory block"
    using that headers_of_status [of "lines_of block"] by (simp add: ParseHeaderBlock_throws(1) block_headers_def)
  show "list_all clean_header hs" if "ParseHeaderBlock memory block out = (Returned Ok, hs)"
  proof -
    have "\<not> headers_throw memory block" using that ParseHeaderBlock_throws(1) [of memory block out] by auto
    then show ?thesis
      using that header_list_clean [of block hs]
      by (cases "block_headers block") (simp add: header_list_def ParseHeaderBlock_throws(2))
  qed
  show "headers_throw memory block \<longleftrightarrow> (\<exists>k hs. ParseHeaderBlock memory block out = (Threw, hs) \<and> length hs = k \<and> header_fails memory k
         \<and> (\<forall>j<k. \<not> header_fails memory j)
         \<and> block \<noteq> [] \<and> map header_of_line (take k (lines_of block)) = map Some hs
         \<and> k < length (lines_of block) \<and> header_of_line (lines_of block ! k) \<noteq> None)"
    using ParseHeaderBlock_throws(1) [of memory block out] ParseHeaderBlock_stops [of memory block out] by (auto split: if_splits)
qed

theorem header_block_exact_witness:
  "list_all clean_header [\<lparr>header_name = ''A'', header_value = ''b:c''\<rparr>]"
  using header_block_exact [of all_memory "'' A:b:c ''" "[]" "[\<lparr>header_name = ''A'', header_value = ''b:c''\<rparr>]"]
  by (simp add: header_of_line_def StripTrailingCr_def Trim_def isspace_def)

text \<open>Headers written out as a block, one line each, with line feeds or with carriage returns and
  line feeds between them, are read back unchanged.
\<close>

theorem header_block_round_trip:
  assumes "list_all clean_header hs"
  shows "ParseHeaderBlock all_memory (print_headers cr hs) out = (Returned Ok, hs)"
proof (cases "hs = []")
  case False
  then have "print_headers cr hs \<noteq> []" by (cases "(cr, hs)" rule: print_headers.cases) auto
  with headers_of_written [OF assms False, of cr] show ?thesis by (simp add: ParseHeaderBlock_throws(2) block_headers_def)
qed (simp add: ParseHeaderBlock_eq)

theorem header_block_round_trip_witness:
  "ParseHeaderBlock all_memory (''A: b'' @ [CHR 0x0D, CHR 0x0A] @ ''C: d'') [] =
     (Returned Ok, [\<lparr>header_name = ''A'', header_value = ''b''\<rparr>, \<lparr>header_name = ''C'', header_value = ''d''\<rparr>])"
  using header_block_round_trip [of "[\<lparr>header_name = ''A'', header_value = ''b''\<rparr>, \<lparr>header_name = ''C'', header_value = ''d''\<rparr>]" True "[]"]
  by (simp add: clean_header_def trimmed_def isspace_def)

lemma FinishResponse_written:
  assumes "buf_ok responseBody n" "st \<noteq> InvalidArgument"
  shows "\<exists>responseBody' copyStatus.
    CopyToBuffer (response_body response) responseBody n = Some (copyStatus, responseBody')
    \<and> FinishResponse st response n (responseBody, code, len) =
        Some (if st = Ok then copyStatus else st, responseBody', statusCode response, of_nat (length (response_body response)))"
  using CopyToBuffer_frame [OF assms(1), of "response_body response"] assms(2)
  by (auto simp: FinishResponse_def)

text \<open>C12: What a generic synchronous call does, on every branch. Where a header or a text finds no
  memory it throws, before any transport call. Else the arguments either stand for no request, then the call returns the reason, made no transport call and leaves the caller's
  variables alone; or they stand for one request, which is handed to the transport once. What the
  transport throws leaves the call. After any other result but \<open>InvalidArgument\<close> the HTTP status
  code and the true body length are delivered whether or not the body fits the buffer, the body or
  an empty text is, and the call's result is the transport's, or the copy's if that succeeded.
\<close>

theorem sync_request_exact:
  assumes "buf_ok methodText mn" "buf_ok urlText un" "buf_ok headersText hn" "buf_ok bodyText bn"
    and "buf_ok responseBody n"
  shows "ExecuteRequestSync client memory methodText mn urlText un headersText hn bodyText bn c t m n (responseBody, code, len) =
    (if sync_throws memory (generic_texts methodText mn urlText un headersText hn bodyText bn) then Some Threw
     else case generic_request methodText mn urlText un headersText hn bodyText bn c t m of
       Inl st \<Rightarrow> Some (Returned (st, responseBody, code, len))
     | Inr request \<Rightarrow>
         (case client request HttpResponse_default of
            (Threw, _) \<Rightarrow> Some Threw
          | (Returned st, response) \<Rightarrow>
              if st = InvalidArgument then Some (Returned (st, responseBody, code, len))
              else (case CopyToBuffer (response_body response) responseBody n of
                      None \<Rightarrow> None
                    | Some (copyStatus, responseBody) \<Rightarrow>
                        Some (Returned (if st = Ok then copyStatus else st, responseBody, statusCode response,
                          of_nat (length (response_body response)))))))"
  unfolding ExecuteRequestSync_eq [OF assms(1-4)] send_texts_def perform_and_deliver_def
  by (auto simp: FinishResponse_def split: sum.split prod.split outcome.split option.split)

definition echo_client :: transport where
  "echo_client request response =
     (Returned Ok, response\<lparr>statusCode := 200, response_body := request_body request\<rparr>)"

theorem sync_request_exact_witness:
  "ExecuteRequestSync echo_client all_memory (c_text ''post'') 5 (c_text ''http://a'') 9 (c_text []) 1 (c_text ''body'') 5 0 0 0 4
     (Buf ''wxyz'', 0, 0) = Some (Returned (BufferTooSmall, Buf (NUL # ''xyz''), 200, 4))"
proof -
  have g: "generic_request (c_text ''post'') 5 (c_text ''http://a'') 9 (c_text []) 1 (c_text ''body'') 5 0 0 0 =
      build_request Post ''http://a'' [] ''body'' 0 0 0"
    by code_simp
  show ?thesis
    by (subst sync_request_exact, simp, simp, simp, simp, simp, unfold g)
      (simp add: build_request_def sendable_def MethodForbidsBody_def echo_client_def HttpResponse_default_def
        CopyToBuffer_def mem_write_def)
qed

text \<open>The five verb calls are the generic call: each does what the generic call does with its
  method's name, the default limits and, for GET and DELETE, an empty body, with the one
  difference that what the transport throws is reported as \<open>NetworkError\<close>.
\<close>

theorem sync_verbs_generic:
  assumes "buf_ok urlText un" "buf_ok headersText hn" "buf_ok bodyText bn"
  shows "ExecuteGetSync client memory False urlText un headersText hn n out =
      ExecuteRequestSync (guarded client) memory (c_text ''GET'') 4 urlText un headersText hn (c_text []) 1 0 0 0 n out
    \<and> ExecuteDeleteSync client memory False urlText un headersText hn n out =
      ExecuteRequestSync (guarded client) memory (c_text ''DELETE'') 7 urlText un headersText hn (c_text []) 1 0 0 0 n out
    \<and> ExecutePostSync client memory False urlText un headersText hn bodyText bn n out =
      ExecuteRequestSync (guarded client) memory (c_text ''POST'') 5 urlText un headersText hn bodyText bn 0 0 0 n out
    \<and> ExecutePutSync client memory False urlText un headersText hn bodyText bn n out =
      ExecuteRequestSync (guarded client) memory (c_text ''PUT'') 4 urlText un headersText hn bodyText bn 0 0 0 n out
    \<and> ExecutePatchSync client memory False urlText un headersText hn bodyText bn n out =
      ExecuteRequestSync (guarded client) memory (c_text ''PATCH'') 6 urlText un headersText hn bodyText bn 0 0 0 n out"
  by (simp add: ExecuteGetSync_def ExecuteDeleteSync_def ExecutePostSync_def ExecutePutSync_def ExecutePatchSync_def
      ExecuteNoBodyVerb_eq ExecuteBodyVerb_eq ExecuteRequestSync_eq assms generic_request_def plain_request_def
      body_request_def generic_plain [simplified] generic_body [simplified])

theorem sync_verbs_generic_witness:
  "ExecuteGetSync echo_client all_memory False (c_text ''u'') 2 (c_text []) 1 3 (NullPtr, 0, 0) =
     ExecuteRequestSync (guarded echo_client) all_memory (c_text ''GET'') 4 (c_text ''u'') 2 (c_text []) 1 (c_text []) 1 0 0 0 3 (NullPtr, 0, 0)"
  using sync_verbs_generic [of "c_text ''u''" 2 "c_text []" 1 "c_text []" 1 echo_client all_memory 3 "(NullPtr, 0, 0)"] by simp

text \<open>C26: TLS verification cannot be switched off from CAPL, no synchronous call carries a cancel
  flag, and every header sent is a clean one: transports that agree on such requests cannot be
  told apart by any synchronous call.
\<close>

theorem sync_calls_send_safe_requests:
  assumes "\<And>request response. safe_request request \<Longrightarrow> client request response = client' request response"
    and "buf_ok methodText mn" "buf_ok urlText un" "buf_ok headersText hn" "buf_ok bodyText bn"
  shows "ExecuteRequestSync client memory methodText mn urlText un headersText hn bodyText bn c t m n out =
      ExecuteRequestSync client' memory methodText mn urlText un headersText hn bodyText bn c t m n out
    \<and> (\<forall>meth\<in>{Get, Delete}.
        ExecuteNoBodyVerb client memory False meth urlText un headersText hn n out =
        ExecuteNoBodyVerb client' memory False meth urlText un headersText hn n out)
    \<and> (\<forall>meth\<in>{Post, Put, Patch}.
        ExecuteBodyVerb client memory False meth urlText un headersText hn bodyText bn n out =
        ExecuteBodyVerb client' memory False meth urlText un headersText hn bodyText bn n out)"
proof -
  have guarded: "guarded client request response = guarded client' request response" if "safe_request request" for request response
    using assms(1) [OF that] by (simp add: guarded_def)
  have verb: "send_texts (guarded client) memory n out texts request = send_texts (guarded client') memory n out texts request"
    if "\<And>r. request = Inr r \<Longrightarrow> safe_request r" for texts request
    by (rule deliver_cong) (simp add: guarded that)
  have "send_texts client memory n out texts request = send_texts client' memory n out texts request"
    if "\<And>r. request = Inr r \<Longrightarrow> safe_request r" for texts request
    by (rule deliver_cong) (simp add: assms(1) that)
  then have "ExecuteRequestSync client memory methodText mn urlText un headersText hn bodyText bn c t m n out =
      ExecuteRequestSync client' memory methodText mn urlText un headersText hn bodyText bn c t m n out"
    using requests_safe(1) by (simp add: ExecuteRequestSync_eq assms(2-5))
  moreover have "ExecuteNoBodyVerb client memory False meth urlText un headersText hn n out =
      ExecuteNoBodyVerb client' memory False meth urlText un headersText hn n out" if "meth \<in> {Get, Delete}" for meth
    by (simp only: ExecuteNoBodyVerb_eq [OF assms(3,4) that] verb [OF requests_safe(3)])
  moreover have "ExecuteBodyVerb client memory False meth urlText un headersText hn bodyText bn n out =
      ExecuteBodyVerb client' memory False meth urlText un headersText hn bodyText bn n out" if "meth \<in> {Post, Put, Patch}" for meth
    by (simp only: ExecuteBodyVerb_eq [OF assms(3-5) that] verb [OF requests_safe(2)])
  ultimately show ?thesis by blast
qed

theorem sync_calls_send_safe_requests_witness:
  "ExecuteRequestSync echo_client all_memory (c_text ''GET'') 4 (c_text ''u'') 2 (c_text []) 1 (c_text []) 1 0 0 0 3 (NullPtr, 0, 0) =
   ExecuteRequestSync (\<lambda>r. if skipTlsVerification (request_options r) then (\<lambda>_. (Threw, HttpResponse_default)) else echo_client r)
     all_memory (c_text ''GET'') 4 (c_text ''u'') 2 (c_text []) 1 (c_text []) 1 0 0 0 3 (NullPtr, 0, 0)"
  by (rule sync_calls_send_safe_requests [THEN conjunct1]) (simp_all add: safe_request_def)

end
