(* ===== verification/Async_Engine.thy ===== *)
theory Async_Engine
  imports Http_Client Slot_Ids Buffers
begin

text \<open>
  \<open>src/http/async-operations.cpp\<close>: the table of eight request slots and the worker threads that
  serve it. Everything that touches the table runs under one mutex, so each critical section is
  one function here: a whole call for the operations, the stretch between two waits or transfers
  for a worker. The system of engine and workers is a step relation over those functions.
\<close>

section \<open>State\<close>

datatype SlotState = Free | Pending | Running | Complete | Consumed | Abandoned

definition kAsyncRequestSlotCount :: nat where "kAsyncRequestSlotCount = 8"
definition kDefaultAwaitTimeoutMs :: u32 where "kDefaultAwaitTimeoutMs = 30000"

record async_slot =
  slot_state :: SlotState
  async_id :: u32
  slot_client :: "transport option"
  slot_request :: HttpRequest
  cancel_flag :: bool
  slot_response :: HttpResponse
  transportStatus :: status

definition empty_slot :: async_slot where
  "empty_slot = \<lparr>slot_state = Free, async_id = 0, slot_client = None, slot_request = HttpRequest_default,
     cancel_flag = False, slot_response = HttpResponse_default, transportStatus = Ok\<rparr>"

text \<open>
  \<open>moduleRefs\<close> counts the module references the \<open>WorkerLifetime\<close> object has handed out and not
  got back.
\<close>

record engine =
  slots :: "async_slot list"
  liveWorkers :: u32
  idleWorkers :: u32
  wakeGeneration :: u64
  idSeeded :: bool
  nextId :: u32
  moduleRefs :: nat

definition AsyncEngine :: engine where
  "AsyncEngine = \<lparr>slots = replicate kAsyncRequestSlotCount empty_slot, liveWorkers = 0, idleWorkers = 0,
     wakeGeneration = 0, idSeeded = False, nextId = 0, moduleRefs = 0\<rparr>"

text \<open>Writing through a \<open>Slot*\<close>: the slot's index.\<close>

definition update_slot :: "nat \<Rightarrow> (async_slot \<Rightarrow> async_slot) \<Rightarrow> engine \<Rightarrow> engine" where
  "update_slot i f e = e\<lparr>slots := (slots e)[i := f (slots e ! i)]\<rparr>"

text \<open>
  A worker thread between two critical sections: not run yet, waiting with the generation it
  observed (and whether it was notified since), performing the request of a slot, or gone.
\<close>

datatype worker = Starting | Idle u64 bool | Performing nat | Exited

section \<open>Helpers that run under the lock\<close>

definition FindSlotForDispatchLocked :: "engine \<Rightarrow> nat option" where
  "FindSlotForDispatchLocked e = first_index (\<lambda>slot. slot_state slot = Free \<or> slot_state slot = Consumed) (slots e)"

definition FindPendingSlotLocked :: "engine \<Rightarrow> nat option" where
  "FindPendingSlotLocked e = first_index (\<lambda>slot. slot_state slot = Pending) (slots e)"

definition CountPendingSlotsLocked :: "engine \<Rightarrow> u32" where
  "CountPendingSlotsLocked e = of_nat (count_slots (\<lambda>slot. slot_state slot = Pending) (slots e))"

definition FindLiveSlotLocked :: "u32 \<Rightarrow> engine \<Rightarrow> nat option" where
  "FindLiveSlotLocked requestId e =
     (if requestId = 0 then None
      else first_index (\<lambda>slot. async_id slot = requestId \<and>
             (slot_state slot = Pending \<or> slot_state slot = Running \<or> slot_state slot = Complete)) (slots e))"

definition IsIdLiveLocked :: "engine \<Rightarrow> u32 \<Rightarrow> bool" where
  "IsIdLiveLocked e i \<longleftrightarrow>
     (\<exists>slot \<in> set (slots e). async_id slot = i \<and> slot_state slot \<noteq> Free \<and> slot_state slot \<noteq> Consumed)"

text \<open>\<open>QueryPerformanceCounterIdSeedSource::NextSeed\<close> from the counter's value.\<close>

definition NextSeed :: "u64 \<Rightarrow> u32" where
  "NextSeed quadPart = ucast (and quadPart 0xFFFFFFFF)"

definition MintIdLocked :: "u32 \<Rightarrow> engine \<Rightarrow> (u32 \<times> engine) option" where
  "MintIdLocked seed e =
     (let e = (if \<not> idSeeded e then e\<lparr>nextId := seed, idSeeded := True\<rparr> else e)
      in case mint_request_id (IsIdLiveLocked e) (nextId e) of
           None \<Rightarrow> None
         | Some (i, next') \<Rightarrow> Some (i, e\<lparr>nextId := next'\<rparr>))"

definition FreeSlotContentsLocked :: "async_slot \<Rightarrow> async_slot" where
  "FreeSlotContentsLocked slot =
     slot\<lparr>slot_client := None, slot_request := HttpRequest_default, slot_response := HttpResponse_default,
       transportStatus := Ok, cancel_flag := False, async_id := 0\<rparr>"

text \<open>How starting a thread can go.\<close>

datatype start_result = NoModule | ContextThrows | NoThread | Started

definition StartWorkerLocked :: "start_result \<Rightarrow> engine \<Rightarrow> bool outcome \<times> engine \<times> worker list" where
  "StartWorkerLocked start e =
     (if start = NoModule then (Returned False, e, [])
      else
        let e = e\<lparr>moduleRefs := moduleRefs e + 1\<rparr>
        in if start = ContextThrows then (Threw, e, [])
           else if start = NoThread then (Returned False, e\<lparr>moduleRefs := moduleRefs e - 1\<rparr>, [])
           else (Returned True, e\<lparr>liveWorkers := liveWorkers e + 1\<rparr>, [Starting]))"

section \<open>The operations\<close>

text \<open>
  The result, the value left in \<open>requestId\<close>, and the threads started. \<open>copy_throws\<close>: copying
  the request finds no memory.
\<close>

definition Dispatch ::
  "transport \<Rightarrow> HttpRequest \<Rightarrow> u32 \<Rightarrow> bool \<Rightarrow> start_result \<Rightarrow> engine \<Rightarrow>
     ((status outcome \<times> u32) \<times> engine \<times> worker list) option" where
  "Dispatch client request seed copy_throws start e =
     (let requestId = 0 in
      case FindSlotForDispatchLocked e of
        None \<Rightarrow> Some ((Returned NoFreeRequestSlot, requestId), e, [])
      | Some slot \<Rightarrow>
          (let e = update_slot slot FreeSlotContentsLocked e
           in case MintIdLocked seed e of
                None \<Rightarrow> None
              | Some (newId, e) \<Rightarrow>
                  (let e = update_slot slot (\<lambda>s. s\<lparr>async_id := newId, slot_client := Some client\<rparr>) e
                   in if copy_throws then Some ((Threw, requestId), e, [])
                      else
                        let e = update_slot slot (\<lambda>s. s\<lparr>slot_request := request\<lparr>cancelFlag := Some slot\<rparr>,
                                  slot_state := Pending\<rparr>) e;
                            (started, e, threads) =
                              (if CountPendingSlotsLocked e > idleWorkers e
                                  \<and> liveWorkers e < of_nat kAsyncRequestSlotCount
                               then StartWorkerLocked start e else (Returned True, e, []))
                        in case started of
                             Threw \<Rightarrow> Some ((Threw, requestId), e, threads)
                           | Returned False \<Rightarrow>
                               Some ((Returned AsyncStartFailed, requestId),
                                 update_slot slot (\<lambda>s. (FreeSlotContentsLocked s)\<lparr>slot_state := Free\<rparr>) e, threads)
                           | Returned True \<Rightarrow>
                               Some ((Returned Ok, newId), e\<lparr>wakeGeneration := wakeGeneration e + 1\<rparr>, threads))))"

definition Poll :: "u32 \<Rightarrow> engine \<Rightarrow> status \<times> i32" where
  "Poll requestId e =
     (let state = 0 in
      case FindLiveSlotLocked requestId e of
        None \<Rightarrow> (UnknownRequestId, state)
      | Some slot \<Rightarrow> (Ok, if slot_state (slots e ! slot) = Complete then 2 else 1))"

text \<open>
  \<open>Await\<close> waits with the lock released: the engine it finds, and whether the wait timed out, are
  given for each wake-up. \<open>None\<close> means it is still waiting.
\<close>

fun AwaitWakeups :: "u32 \<Rightarrow> (bool \<times> engine) list \<Rightarrow> status option" where
  "AwaitWakeups requestId [] = None"
| "AwaitWakeups requestId ((timed_out, e) # wakeups) =
     (case FindLiveSlotLocked requestId e of
        None \<Rightarrow> Some UnknownRequestId
      | Some slot \<Rightarrow>
          if slot_state (slots e ! slot) = Complete then Some Ok
          else if timed_out then Some WaitTimeout
          else AwaitWakeups requestId wakeups)"

definition resolvedTimeoutMs :: "u32 \<Rightarrow> async_slot \<Rightarrow> u32" where
  "resolvedTimeoutMs waitTimeoutMs slot =
     (if waitTimeoutMs \<noteq> 0 then waitTimeoutMs
      else if totalTimeoutMs (request_options (slot_request slot)) \<noteq> 0
      then totalTimeoutMs (request_options (slot_request slot))
      else kDefaultAwaitTimeoutMs)"

text \<open>The result, and the wait it armed, if any.\<close>

definition Await :: "u32 \<Rightarrow> u32 \<Rightarrow> engine \<Rightarrow> (bool \<times> engine) list \<Rightarrow> status option \<times> u32 option" where
  "Await requestId waitTimeoutMs e wakeups =
     (case FindLiveSlotLocked requestId e of
        None \<Rightarrow> (Some UnknownRequestId, None)
      | Some slot \<Rightarrow>
          if slot_state (slots e ! slot) = Complete then (Some Ok, None)
          else (AwaitWakeups requestId wakeups, Some (resolvedTimeoutMs waitTimeoutMs (slots e ! slot))))"

definition Read ::
  "u32 \<Rightarrow> cbuf \<Rightarrow> u32 \<Rightarrow> engine \<Rightarrow> ((status \<times> cbuf \<times> i32 \<times> i32 \<times> u32) \<times> engine) mem" where
  "Read requestId responseBody responseBodySize e =
     (case FindLiveSlotLocked requestId e of
        None \<Rightarrow> Some ((UnknownRequestId, responseBody, 0, 0, 0), e)
      | Some i \<Rightarrow>
          (let slot = slots e ! i
           in if slot_state slot \<noteq> Complete then Some ((RequestNotComplete, responseBody, 0, 0, 0), e)
              else do {
                let requestStatus = status_word (transportStatus slot);
                let httpStatusCode = statusCode (slot_response slot);
                let responseBodyLength = of_nat (length (response_body (slot_response slot)));
                (copyStatus, responseBody) \<leftarrow>
                  CopyToBuffer (response_body (slot_response slot)) responseBody responseBodySize;
                Some ((copyStatus, responseBody, requestStatus, httpStatusCode, responseBodyLength),
                      if copyStatus = Ok then update_slot i (\<lambda>s. s\<lparr>slot_state := Consumed\<rparr>) e else e)
              }))"

definition Discard :: "u32 \<Rightarrow> engine \<Rightarrow> status \<times> engine" where
  "Discard requestId e =
     (case FindLiveSlotLocked requestId e of
        None \<Rightarrow> (UnknownRequestId, e)
      | Some i \<Rightarrow>
          (Ok, if slot_state (slots e ! i) = Running
               then update_slot i (\<lambda>s. s\<lparr>slot_state := Abandoned, cancel_flag := True\<rparr>) e
               else update_slot i (\<lambda>s. s\<lparr>slot_state := Consumed\<rparr>) e))"

text \<open>The loop of \<open>DiscardAll\<close>: what it does to one slot, and whether it counts as still running.\<close>

definition discard_slot :: "async_slot \<Rightarrow> async_slot" where
  "discard_slot s =
     (if slot_state s \<in> {Pending, Complete, Consumed} then (FreeSlotContentsLocked s)\<lparr>slot_state := Free\<rparr>
      else if slot_state s = Running then s\<lparr>cancel_flag := True, slot_state := Abandoned\<rparr>
      else s)"

definition DiscardAll :: "engine \<Rightarrow> (status \<times> u32) \<times> engine" where
  "DiscardAll e =
     (let stillRunning = of_nat (count_slots (\<lambda>s. slot_state s = Running) (slots e))
      in ((Ok, stillRunning),
          e\<lparr>slots := map discard_slot (slots e), wakeGeneration := wakeGeneration e + 1\<rparr>))"

section \<open>The workers\<close>

text \<open>The head of the loop: take the first pending slot, or start to wait.\<close>

definition WorkerTake :: "nat \<Rightarrow> engine \<Rightarrow> engine \<times> worker" where
  "WorkerTake slot e = (update_slot slot (\<lambda>s. s\<lparr>slot_state := Running\<rparr>) e, Performing slot)"

definition WorkerHead :: "engine \<Rightarrow> engine \<times> worker" where
  "WorkerHead e =
     (case FindPendingSlotLocked e of
        None \<Rightarrow> (e\<lparr>idleWorkers := idleWorkers e + 1\<rparr>, Idle (wakeGeneration e) False)
      | Some slot \<Rightarrow> WorkerTake slot e)"

text \<open>\<open>wait_until\<close> returned, with or without a timeout, a notification or none.\<close>

definition WorkerWake :: "bool \<Rightarrow> u64 \<Rightarrow> engine \<Rightarrow> engine \<times> worker" where
  "WorkerWake timed_out observedGeneration e =
     (case FindPendingSlotLocked e of
        Some slot \<Rightarrow> WorkerTake slot (e\<lparr>idleWorkers := idleWorkers e - 1\<rparr>)
      | None \<Rightarrow>
          if timed_out \<or> wakeGeneration e \<noteq> observedGeneration
          then (e\<lparr>idleWorkers := idleWorkers e - 1, liveWorkers := liveWorkers e - 1, moduleRefs := moduleRefs e - 1\<rparr>,
                Exited)
          else (e, Idle observedGeneration False))"

text \<open>The transfer ended: store the result or drop it, then the head of the loop again.\<close>

definition WorkerFinish :: "nat \<Rightarrow> status \<Rightarrow> HttpResponse \<Rightarrow> engine \<Rightarrow> engine \<times> worker" where
  "WorkerFinish slot result response e =
     WorkerHead
       (if slot_state (slots e ! slot) = Abandoned
        then update_slot slot (\<lambda>s. (FreeSlotContentsLocked s)\<lparr>slot_state := Free\<rparr>) e
        else update_slot slot (\<lambda>s. s\<lparr>slot_response := response, transportStatus := result, slot_state := Complete\<rparr>) e)"

end
