(* ===== verification/Async_Pool.thy ===== *)
theory Async_Pool
  imports Async_Engine
begin

text \<open>
  What the engine's bookkeeping has to get right, on an abstract state: the states of the slots
  and what each worker thread is at. The critical sections of \<open>Async_Engine\<close> move this state in
  nine ways; each keeps the pool invariant.
\<close>

section \<open>Workers\<close>

fun is_idle :: "worker \<Rightarrow> bool" where
  "is_idle (Idle g n) = True"
| "is_idle _ = False"

fun is_performing :: "worker \<Rightarrow> bool" where
  "is_performing (Performing i) = True"
| "is_performing _ = False"

fun notified :: "worker \<Rightarrow> bool" where
  "notified (Idle g n) = n"
| "notified _ = True"

text \<open>\<open>workAvailable_.notify_all()\<close>.\<close>

fun notify :: "worker \<Rightarrow> worker" where
  "notify (Idle g n) = Idle g True"
| "notify w = w"

definition busy :: "SlotState \<Rightarrow> bool" where
  "busy s \<longleftrightarrow> s = Running \<or> s = Abandoned"

lemma busy_simps [simp]:
  "\<not> busy Free" "\<not> busy Pending" "busy Running" "\<not> busy Complete" "\<not> busy Consumed" "busy Abandoned"
  by (simp_all add: busy_def)

lemma notify_simps [simp]:
  "is_idle (notify w) = is_idle w" "is_performing (notify w) = is_performing w" "notified (notify w)"
  "notify w = Starting \<longleftrightarrow> w = Starting" "notify w = Exited \<longleftrightarrow> w = Exited"
  "notify w = Performing i \<longleftrightarrow> w = Performing i" "Performing i = notify w \<longleftrightarrow> Performing i = w"
  by (cases w; auto)+

lemma count_slots_map: "count_slots P (map f xs) = count_slots (\<lambda>x. P (f x)) xs"
  by (induction xs) auto

lemma count_slots_append [simp]: "count_slots P (xs @ ys) = count_slots P xs + count_slots P ys"
  by (simp add: count_slots_def)

lemma count_slots_replicate: "count_slots P (replicate n x) = (if P x then n else 0)"
  by (induction n) auto

lemma count_slots_mono: "(\<And>x. x \<in> set xs \<Longrightarrow> P x \<Longrightarrow> Q x) \<Longrightarrow> count_slots P xs \<le> count_slots Q xs"
  by (induction xs) (auto simp: of_bool_def intro: le_SucI)

lemma worker_partition:
  "count_slots (\<lambda>w. w \<noteq> Exited) ws =
     count_slots is_idle ws + count_slots (\<lambda>w. w = Starting) ws + count_slots is_performing ws"
proof (induction ws)
  case (Cons w ws)
  then show ?case by (cases w) auto
qed simp

section \<open>The invariant\<close>

definition pool_inv :: "SlotState list \<Rightarrow> worker list \<Rightarrow> nat \<Rightarrow> nat \<Rightarrow> nat \<Rightarrow> bool" where
  "pool_inv ss ws live idle refs \<longleftrightarrow>
     length ss = 8
     \<and> live = count_slots (\<lambda>w. w \<noteq> Exited) ws \<and> idle = count_slots is_idle ws \<and> refs = live \<and> live \<le> 8
     \<and> (\<forall>i. count_slots (\<lambda>w. w = Performing i) ws = of_bool (i < 8 \<and> busy (ss ! i)))
     \<and> count_slots is_performing ws = count_slots busy ss
     \<and> count_slots (\<lambda>s. s = Pending) ss \<le> idle + count_slots (\<lambda>w. w = Starting) ws
     \<and> (Pending \<in> set ss \<longrightarrow> (\<forall>w\<in>set ws. notified w))"

lemma pool_invD:
  assumes "pool_inv ss ws live idle refs"
  shows "length ss = 8" "live = count_slots (\<lambda>w. w \<noteq> Exited) ws" "idle = count_slots is_idle ws" "refs = live"
    "live \<le> 8" "count_slots (\<lambda>w. w = Performing i) ws = of_bool (i < 8 \<and> busy (ss ! i))"
    "count_slots is_performing ws = count_slots busy ss"
    "count_slots (\<lambda>s. s = Pending) ss \<le> idle + count_slots (\<lambda>w. w = Starting) ws"
    "Pending \<in> set ss \<Longrightarrow> w \<in> set ws \<Longrightarrow> notified w"
  using assms by (auto simp: pool_inv_def)

lemma pool_inv_start: "pool_inv (replicate 8 Free) [] 0 0 0"
  by (simp add: pool_inv_def count_slots_replicate)

text \<open>A worker that performs a slot's request, and only one such, exists while the slot is busy.\<close>

lemma performer_busy:
  assumes "pool_inv ss ws live idle refs" "Performing i \<in> set ws"
  shows "i < 8 \<and> busy (ss ! i)"
proof -
  have "0 < count_slots (\<lambda>w. w = Performing i) ws" using assms(2) by (simp add: count_slots_pos)
  then show ?thesis using pool_invD(6) [OF assms(1), of i] by (auto split: if_splits)
qed

lemma busy_performer:
  assumes "pool_inv ss ws live idle refs" "i < 8" "busy (ss ! i)"
  shows "Performing i \<in> set ws"
proof -
  have "0 < count_slots (\<lambda>w. w = Performing i) ws" using pool_invD(6) [OF assms(1), of i] assms(2,3) by simp
  then show ?thesis by (simp add: count_slots_pos)
qed

lemma pending_le_room:
  assumes "length ss = 8"
  shows "count_slots (\<lambda>s. s = Pending) ss + count_slots busy ss \<le> 8"
proof -
  have "count_slots (\<lambda>s. s = Pending) xs + count_slots busy xs \<le> length xs" for xs
    by (induction xs) (auto simp: of_bool_def busy_def)
  from this [of ss] show ?thesis using assms by simp
qed

section \<open>The moves\<close>

text \<open>What replacing one slot state or one worker does to the counts.\<close>

lemma count_state:
  "i < length ss \<Longrightarrow> count_slots P (ss[i := x]) = count_slots P ss + of_bool (P x) - of_bool (P (ss ! i))"
  using count_slots_update [of i ss P x] by simp

lemma count_ge: "i < length xs \<Longrightarrow> P (xs ! i) \<Longrightarrow> 0 < count_slots P xs"
  by (auto simp: count_slots_pos)

lemma set_update_other: "x \<in> set (xs[i := y]) \<Longrightarrow> x \<noteq> y \<Longrightarrow> x \<in> set xs"
  by (metis insertE set_update_subset_insert subsetD)

text \<open>A slot that no worker performs gets a state that needs no worker.\<close>

lemma pool_settle:
  assumes "pool_inv ss ws live idle refs" "i < 8" "\<not> busy (ss ! i)" "\<not> busy x" "x \<noteq> Pending"
  shows "pool_inv (ss[i := x]) ws live idle refs"
proof -
  note inv = pool_invD [OF assms(1)]
  have "count_slots (\<lambda>w. w = Performing j) ws = of_bool (j < 8 \<and> busy (ss[i := x] ! j))" for j
    using inv(1) inv(6) [of j] assms(2-4) by (cases "j = i") auto
  moreover have "Pending \<in> set ss" if "Pending \<in> set (ss[i := x])"
    using that assms(5) by (metis set_update_other)
  ultimately show ?thesis using inv(1-5,7-9) assms(2-5)
    by (auto simp: pool_inv_def count_state)
qed

lemma pool_abandon:
  assumes "pool_inv ss ws live idle refs" "i < 8" "ss ! i = Running"
  shows "pool_inv (ss[i := Abandoned]) ws live idle refs"
proof -
  note inv = pool_invD [OF assms(1)]
  have "count_slots (\<lambda>w. w = Performing j) ws = of_bool (j < 8 \<and> busy (ss[i := Abandoned] ! j))" for j
    using inv(1) inv(6) [of j] assms(2,3) by (cases "j = i") auto
  moreover have "Pending \<in> set ss" if "Pending \<in> set (ss[i := Abandoned])"
    using that by (metis set_update_other SlotState.distinct)
  moreover have "0 < count_slots busy ss" using assms inv(1) by (intro count_ge [of i]) auto
  ultimately show ?thesis using inv(1-5,7-9) assms(2,3)
    by (auto simp: pool_inv_def count_state)
qed

text \<open>A request is queued: with a new worker, or without one when the idle ones suffice or the pool is full.\<close>

lemma pool_queue:
  assumes "pool_inv ss ws live idle refs" "i < 8" "\<not> busy (ss ! i)" "ss ! i \<noteq> Pending"
    and "count_slots (\<lambda>s. s = Pending) (ss[i := Pending]) \<le> idle \<or> 8 \<le> live"
  shows "pool_inv (ss[i := Pending]) (map notify ws) live idle refs"
proof -
  note inv = pool_invD [OF assms(1)]
  have "count_slots (\<lambda>w. w = Performing j) ws = of_bool (j < 8 \<and> busy (ss[i := Pending] ! j))" for j
    using inv(1) inv(6) [of j] assms(2-4) by (cases "j = i") auto
  moreover have busy: "count_slots busy (ss[i := Pending]) = count_slots busy ss"
    using assms(2,3) inv(1) by (simp add: count_state)
  moreover have "count_slots (\<lambda>s. s = Pending) (ss[i := Pending]) \<le> idle + count_slots (\<lambda>w. w = Starting) ws"
    using assms(5)
  proof
    assume "8 \<le> live"
    with inv worker_partition [of ws] pending_le_room [of "ss[i := Pending]"] busy show ?thesis by simp
  qed simp
  ultimately show ?thesis using inv(1-5,7)
    by (auto simp: pool_inv_def count_slots_map)
qed

lemma pool_queue_spawn:
  assumes "pool_inv ss ws live idle refs" "i < 8" "\<not> busy (ss ! i)" "ss ! i \<noteq> Pending" "live < 8"
  shows "pool_inv (ss[i := Pending]) (map notify ws @ [Starting]) (live + 1) idle (refs + 1)"
proof -
  note inv = pool_invD [OF assms(1)]
  have "count_slots (\<lambda>w. w = Performing j) ws = of_bool (j < 8 \<and> busy (ss[i := Pending] ! j))" for j
    using inv(1) inv(6) [of j] assms(2-4) by (cases "j = i") auto
  then show ?thesis using inv(1-5,7,8) assms(2-5)
    by (auto simp: pool_inv_def count_slots_map count_state)
qed

text \<open>A worker takes a pending request.\<close>

lemma pool_take:
  assumes "pool_inv ss ws live idle refs" "i < 8" "ss ! i = Pending" "w < length ws"
    and "ws ! w = Starting \<and> idle' = idle \<or> is_idle (ws ! w) \<and> idle' = idle - 1"
  shows "pool_inv (ss[i := Running]) (ws[w := Performing i]) live idle' refs"
proof -
  note inv = pool_invD [OF assms(1)]
  have w: "ws ! w \<noteq> Exited" "\<not> is_performing (ws ! w)" "\<And>j. ws ! w \<noteq> Performing j"
    using assms(5) by (cases "ws ! w"; auto)+
  have "count_slots (\<lambda>v. v = Performing j) (ws[w := Performing i]) = of_bool (j < 8 \<and> busy (ss[i := Running] ! j))" for j
    using inv(1) inv(6) [of j] assms(2-4) w by (cases "j = i") (auto simp: count_state)
  moreover have "0 < count_slots (\<lambda>s. s = Pending) ss" using assms(2,3) inv(1) by (intro count_ge [of i]) auto
  moreover have "0 < count_slots (\<lambda>v. v \<noteq> Exited) ws" using w assms(4) by (intro count_ge [of w]) auto
  moreover have "Pending \<in> set ss" using assms(2,3) inv(1) nth_mem [of i ss] by simp
  then have "notified v" if "v \<in> set (ws[w := Performing i])" for v
    using that inv(9) by (cases "v = Performing i") (auto dest: set_update_other)
  moreover have "is_idle (ws ! w) \<Longrightarrow> 0 < count_slots is_idle ws" using assms(4) by (rule count_ge)
  moreover have "ws ! w = Starting \<Longrightarrow> 0 < count_slots (\<lambda>v. v = Starting) ws" using assms(4) by (rule count_ge)
  ultimately show ?thesis using inv(1-5,7,8) assms(2-5) w
    by (auto simp: pool_inv_def count_state)
qed

text \<open>A worker finds nothing to do and waits, goes on waiting, or leaves.\<close>

lemma no_pending_count: "Pending \<notin> set ss \<Longrightarrow> count_slots (\<lambda>s. s = Pending) ss = 0"
  by (auto simp: count_slots_0)

lemma pool_wait:
  assumes "pool_inv ss ws live idle refs" "Pending \<notin> set ss" "w < length ws" "ws ! w = Starting"
  shows "pool_inv ss (ws[w := Idle g n]) live (idle + 1) refs"
proof -
  note inv = pool_invD [OF assms(1)]
  have "0 < count_slots (\<lambda>v. v \<noteq> Exited) ws" using assms(3,4) by (intro count_ge [of w]) auto
  then show ?thesis using inv(1-8) assms(2-4) no_pending_count [OF assms(2)]
    by (auto simp: pool_inv_def count_state)
qed

lemma pool_wait_on:
  assumes "pool_inv ss ws live idle refs" "Pending \<notin> set ss" "w < length ws" "is_idle (ws ! w)"
  shows "pool_inv ss (ws[w := Idle g n]) live idle refs"
proof -
  note inv = pool_invD [OF assms(1)]
  have w: "ws ! w \<noteq> Exited" "ws ! w \<noteq> Starting" "\<not> is_performing (ws ! w)" "\<And>j. ws ! w \<noteq> Performing j"
    using assms(4) by (cases "ws ! w"; auto)+
  have "0 < count_slots (\<lambda>v. v \<noteq> Exited) ws" "0 < count_slots is_idle ws"
    using assms(3,4) w by (intro count_ge [of w]; simp)+
  then show ?thesis using inv(1-8) assms(2-4) w no_pending_count [OF assms(2)]
    by (auto simp: pool_inv_def count_state)
qed

lemma pool_leave:
  assumes "pool_inv ss ws live idle refs" "Pending \<notin> set ss" "w < length ws" "is_idle (ws ! w)"
  shows "pool_inv ss (ws[w := Exited]) (live - 1) (idle - 1) (refs - 1) \<and> 0 < live \<and> 0 < idle"
proof -
  note inv = pool_invD [OF assms(1)]
  have w: "ws ! w \<noteq> Exited" "ws ! w \<noteq> Starting" "\<not> is_performing (ws ! w)" "\<And>j. ws ! w \<noteq> Performing j"
    using assms(4) by (cases "ws ! w"; auto)+
  have "0 < count_slots (\<lambda>v. v \<noteq> Exited) ws" "0 < count_slots is_idle ws"
    using assms(3,4) w by (intro count_ge [of w]; simp)+
  then show ?thesis using inv(1-8) assms(2-4) w no_pending_count [OF assms(2)]
    by (auto simp: pool_inv_def count_state)
qed

text \<open>A worker ends a transfer: its slot needs no worker any more, the worker is as if just started.\<close>

lemma pool_finish:
  assumes "pool_inv ss ws live idle refs" "w < length ws" "ws ! w = Performing i" "\<not> busy x" "x \<noteq> Pending"
  shows "pool_inv (ss[i := x]) (ws[w := Starting]) live idle refs"
proof -
  note inv = pool_invD [OF assms(1)]
  have i: "i < 8" "busy (ss ! i)" using performer_busy [OF assms(1)] assms(2,3) nth_mem by metis+
  then have p: "ss ! i \<noteq> Pending" by auto
  have "count_slots (\<lambda>v. v = Performing j) (ws[w := Starting]) = of_bool (j < 8 \<and> busy (ss[i := x] ! j))" for j
    using inv(1) inv(6) [of j] assms(2-4) i by (cases "j = i") (auto simp: count_state)
  moreover have "0 < count_slots (\<lambda>v. v \<noteq> Exited) ws" "0 < count_slots is_performing ws"
    using assms(2,3) by (intro count_ge [of w]; simp)+
  moreover have "0 < count_slots busy ss" using inv(1) i by (intro count_ge [of i]) auto
  moreover have "notified v" if "v \<in> set (ws[w := Starting])" "Pending \<in> set (ss[i := x])" for v
  proof (cases "v = Starting")
    case False
    then show ?thesis using that inv(9) assms(5) set_update_other by metis
  qed simp
  ultimately show ?thesis using inv(1-5,7,8) assms(2-5) i p
    by (auto simp: pool_inv_def count_state)
qed

text \<open>Everything is discarded.\<close>

lemma pool_discard_all:
  assumes "pool_inv ss ws live idle refs" "\<And>s. s \<in> set ss \<Longrightarrow> f s \<noteq> Pending \<and> busy (f s) = busy s"
  shows "pool_inv (map f ss) (map notify ws) live idle refs"
proof -
  note inv = pool_invD [OF assms(1)]
  have "count_slots (\<lambda>w. w = Performing j) ws = of_bool (j < 8 \<and> busy (map f ss ! j))" for j
    using inv(1) inv(6) [of j] assms(2) by auto
  moreover have "count_slots (\<lambda>s. busy (f s)) ss = count_slots busy ss"
    using assms(2) by (simp add: count_slots_def cong: filter_cong)
  moreover have "count_slots (\<lambda>s. f s = Pending) ss = 0" using assms(2) by (auto simp: count_slots_0)
  ultimately show ?thesis using inv(1-5,7,8) assms(2)
    by (auto simp: pool_inv_def count_slots_map)
qed

end
