(* ===== verification/Async_System.thy ===== *)
theory Async_System
  imports Async_Pool
begin

text \<open>
  The engine with its workers as a transition system: every call of a CAPL thread and every
  critical section of a worker is one step. The invariant of the reachable states carries the
  engine's correctness: ids, ownership of slots, the worker counts, cancellation and the absence
  of stranded requests.
\<close>

section \<open>One call at a time\<close>

lemma first_index_lt: "first_index P xs = Some i \<Longrightarrow> i < length xs"
  by (simp add: first_index_Some)

lemma update_slot_slots [simp]:
  "slots (update_slot i f e) = (slots e)[i := f (slots e ! i)]"
  "liveWorkers (update_slot i f e) = liveWorkers e" "idleWorkers (update_slot i f e) = idleWorkers e"
  "wakeGeneration (update_slot i f e) = wakeGeneration e" "idSeeded (update_slot i f e) = idSeeded e"
  "nextId (update_slot i f e) = nextId e" "moduleRefs (update_slot i f e) = moduleRefs e"
  by (simp_all add: update_slot_def)

lemma MintIdLocked_eq:
  "MintIdLocked seed e =
     map_option (\<lambda>(i, n). (i, e\<lparr>idSeeded := True, nextId := n\<rparr>))
       (mint_request_id (IsIdLiveLocked e) (if idSeeded e then nextId e else seed))"
proof -
  have "idSeeded e \<Longrightarrow> e\<lparr>idSeeded := True, nextId := n\<rparr> = e\<lparr>nextId := n\<rparr>" for n by (cases e) simp
  moreover have "IsIdLiveLocked (e\<lparr>nextId := n, idSeeded := b\<rparr>) = IsIdLiveLocked e" for n b
    by (rule ext) (simp add: IsIdLiveLocked_def)
  ultimately show ?thesis by (auto simp: MintIdLocked_def Let_def split: option.splits)
qed

lemma IsIdLiveLocked_free:
  assumes "i < length (slots e)" "slot_state (slots e ! i) \<in> {Free, Consumed}" "slot_state s \<in> {Free, Consumed}"
  shows "IsIdLiveLocked (e\<lparr>slots := (slots e)[i := s]\<rparr>) = IsIdLiveLocked e"
proof (rule ext)
  fix k
  have "(\<exists>s' \<in> set ((slots e)[i := s]). async_id s' = k \<and> slot_state s' \<noteq> Free \<and> slot_state s' \<noteq> Consumed) \<longleftrightarrow>
      (\<exists>s' \<in> set (slots e). async_id s' = k \<and> slot_state s' \<noteq> Free \<and> slot_state s' \<noteq> Consumed)"
    using assms by (fastforce simp: in_set_conv_nth nth_list_update)
  then show "IsIdLiveLocked (e\<lparr>slots := (slots e)[i := s]\<rparr>) k = IsIdLiveLocked e k"
    by (simp add: IsIdLiveLocked_def)
qed

text \<open>The slot of a queued request.\<close>

definition queued_slot :: "nat \<Rightarrow> u32 \<Rightarrow> transport \<Rightarrow> HttpRequest \<Rightarrow> async_slot" where
  "queued_slot i newId client request =
     \<lparr>slot_state = Pending, async_id = newId, slot_client = Some client,
      slot_request = request\<lparr>cancelFlag := Some i\<rparr>, cancel_flag = False,
      slot_response = HttpResponse_default, transportStatus = Ok\<rparr>"

definition queue_in :: "nat \<Rightarrow> u32 \<Rightarrow> u32 \<Rightarrow> transport \<Rightarrow> HttpRequest \<Rightarrow> engine \<Rightarrow> engine" where
  "queue_in i newId n client request e =
     e\<lparr>slots := (slots e)[i := queued_slot i newId client request], idSeeded := True, nextId := n\<rparr>"

definition needs_worker :: "engine \<Rightarrow> bool" where
  "needs_worker e \<longleftrightarrow> CountPendingSlotsLocked e > idleWorkers e \<and> liveWorkers e < 8"

lemma Dispatch_cases [consumes 1, case_names Full CopyThrows Spare Spawned Refused Stranded]:
  assumes "Dispatch client request seed copy_throws start e = Some (r, e', new)"
  obtains
    "FindSlotForDispatchLocked e = None" "r = (Returned NoFreeRequestSlot, 0)" "e' = e" "new = []"
  | i newId n where "FindSlotForDispatchLocked e = Some i"
      "mint_request_id (IsIdLiveLocked e) (if idSeeded e then nextId e else seed) = Some (newId, n)"
      "copy_throws" "r = (Threw, 0)" "new = []"
      "e' = e\<lparr>slots := (slots e)[i := (FreeSlotContentsLocked (slots e ! i))\<lparr>async_id := newId, slot_client := Some client\<rparr>],
               idSeeded := True, nextId := n\<rparr>"
  | i newId n where "FindSlotForDispatchLocked e = Some i"
      "mint_request_id (IsIdLiveLocked e) (if idSeeded e then nextId e else seed) = Some (newId, n)"
      "\<not> needs_worker (queue_in i newId n client request e)" "r = (Returned Ok, newId)" "new = []"
      "e' = (queue_in i newId n client request e)\<lparr>wakeGeneration := wakeGeneration e + 1\<rparr>" "\<not> copy_throws"
  | i newId n where "FindSlotForDispatchLocked e = Some i"
      "mint_request_id (IsIdLiveLocked e) (if idSeeded e then nextId e else seed) = Some (newId, n)"
      "needs_worker (queue_in i newId n client request e)" "start = Started" "r = (Returned Ok, newId)" "new = [Starting]"
      "e' = (queue_in i newId n client request e)\<lparr>liveWorkers := liveWorkers e + 1, moduleRefs := moduleRefs e + 1,
              wakeGeneration := wakeGeneration e + 1\<rparr>" "\<not> copy_throws"
  | i newId n where "FindSlotForDispatchLocked e = Some i"
      "mint_request_id (IsIdLiveLocked e) (if idSeeded e then nextId e else seed) = Some (newId, n)"
      "needs_worker (queue_in i newId n client request e)" "start = NoModule \<or> start = NoThread"
      "r = (Returned AsyncStartFailed, 0)" "new = []"
      "e' = e\<lparr>slots := (slots e)[i := empty_slot], idSeeded := True, nextId := n\<rparr>" "\<not> copy_throws"
  | i newId n where "FindSlotForDispatchLocked e = Some i"
      "mint_request_id (IsIdLiveLocked e) (if idSeeded e then nextId e else seed) = Some (newId, n)"
      "needs_worker (queue_in i newId n client request e)" "start = ContextThrows" "r = (Threw, 0)" "new = []"
      "e' = (queue_in i newId n client request e)\<lparr>moduleRefs := moduleRefs e + 1\<rparr>" "\<not> copy_throws"
proof (cases "FindSlotForDispatchLocked e")
  case None
  with assms have "r = (Returned NoFreeRequestSlot, 0)" "e' = e" "new = []" by (auto simp: Dispatch_def)
  with None show thesis by (rule that(1))
next
  case (Some i)
  then have i: "i < length (slots e)" "slot_state (slots e ! i) \<in> {Free, Consumed}"
    unfolding FindSlotForDispatchLocked_def by (auto dest: first_indexD)
  let ?f = "FreeSlotContentsLocked (slots e ! i)"
  have "slot_state ?f \<in> {Free, Consumed}" using i(2) by (simp add: FreeSlotContentsLocked_def)
  note live = IsIdLiveLocked_free [OF i this]
  define e1 where "e1 = e\<lparr>slots := (slots e)[i := ?f]\<rparr>"
  have e1: "update_slot i FreeSlotContentsLocked e = e1" by (simp add: e1_def update_slot_def)
  have "MintIdLocked seed e1 \<noteq> None"
  proof
    assume "MintIdLocked seed e1 = None"
    then have "Dispatch client request seed copy_throws start e = None" by (simp add: Dispatch_def Some e1)
    with assms show False by simp
  qed
  moreover have "MintIdLocked seed e1 = map_option (\<lambda>(i, n). (i, e1\<lparr>idSeeded := True, nextId := n\<rparr>))
      (mint_request_id (IsIdLiveLocked e) (if idSeeded e then nextId e else seed))"
    unfolding MintIdLocked_eq [of seed e1] by (simp add: e1_def live)
  ultimately obtain newId n where mint:
    "mint_request_id (IsIdLiveLocked e) (if idSeeded e then nextId e else seed) = Some (newId, n)"
    "MintIdLocked seed e1 = Some (newId, e1\<lparr>idSeeded := True, nextId := n\<rparr>)"
    by (cases "mint_request_id (IsIdLiveLocked e) (if idSeeded e then nextId e else seed)") auto
  have "?f\<lparr>async_id := newId, slot_client := Some client, slot_request := request\<lparr>cancelFlag := Some i\<rparr>,
      slot_state := Pending\<rparr> = queued_slot i newId client request"
    by (cases "slots e ! i") (simp add: FreeSlotContentsLocked_def queued_slot_def)
  then have q: "update_slot i (\<lambda>s. s\<lparr>slot_request := request\<lparr>cancelFlag := Some i\<rparr>, slot_state := Pending\<rparr>)
        (update_slot i (\<lambda>s. s\<lparr>async_id := newId, slot_client := Some client\<rparr>) (e1\<lparr>idSeeded := True, nextId := n\<rparr>)) =
      queue_in i newId n client request e"
    using i by (cases e) (simp add: update_slot_def queue_in_def e1_def)
  let ?q = "queue_in i newId n client request e"
  note D = assms [unfolded Dispatch_def Let_def, unfolded Some option.case e1 mint(2) prod.case q]
  have qi: "slots ?q ! i = queued_slot i newId client request" using i by (simp add: queue_in_def)
  have freed: "(FreeSlotContentsLocked (queued_slot i newId client request))\<lparr>slot_state := Free\<rparr> = empty_slot"
    by (simp add: FreeSlotContentsLocked_def queued_slot_def empty_slot_def)
  consider "copy_throws" | "\<not> copy_throws" "\<not> needs_worker ?q" | "\<not> copy_throws" "needs_worker ?q" by blast
  then show thesis
  proof cases
    case 1
    then show thesis using D i by (intro that(2) [OF Some mint(1)]) (auto simp: update_slot_def e1_def)
  next
    case 2
    have no: "\<not> (CountPendingSlotsLocked ?q > idleWorkers ?q \<and> liveWorkers ?q < of_nat kAsyncRequestSlotCount)"
      using 2(2) by (simp add: needs_worker_def kAsyncRequestSlotCount_def)
    from D 2(1) no show thesis
      by (intro that(3) [OF Some mint(1) 2(2)]) (auto simp: queue_in_def split: if_splits)
  next
    case 3
    have yes: "CountPendingSlotsLocked ?q > idleWorkers ?q \<and> liveWorkers ?q < of_nat kAsyncRequestSlotCount"
      using 3(2) by (simp add: needs_worker_def kAsyncRequestSlotCount_def)
    have D': "(case StartWorkerLocked start ?q of (started, e, threads) \<Rightarrow>
        (case started of Threw \<Rightarrow> Some ((Threw, 0), e, threads)
         | Returned False \<Rightarrow> Some ((Returned AsyncStartFailed, 0),
             update_slot i (\<lambda>s. (FreeSlotContentsLocked s)\<lparr>slot_state := Free\<rparr>) e, threads)
         | Returned True \<Rightarrow> Some ((Returned Ok, newId), e\<lparr>wakeGeneration := wakeGeneration e + 1\<rparr>, threads))) =
        Some (r, e', new)"
      using D 3(1) yes by simp
    show thesis
    proof (cases start)
      case NoModule
      then show thesis using D' yes 3(1) qi freed
        by (intro that(5) [OF Some mint(1) 3(2)]) (auto simp: StartWorkerLocked_def update_slot_def queue_in_def)
    next
      case ContextThrows
      then show thesis using D' yes 3(1)
        by (intro that(6) [OF Some mint(1) 3(2)]) (auto simp: StartWorkerLocked_def Let_def queue_in_def)
    next
      case NoThread
      then show thesis using D' yes 3(1) qi freed
        by (intro that(5) [OF Some mint(1) 3(2)]) (auto simp: StartWorkerLocked_def Let_def update_slot_def queue_in_def)
    next
      case Started
      then show thesis using D' yes 3(1)
        by (intro that(4) [OF Some mint(1) 3(2)]) (auto simp: StartWorkerLocked_def Let_def queue_in_def)
    qed
  qed
qed

section \<open>The system\<close>

type_synonym system = "engine \<times> worker list"

text \<open>
  One step: a call of a CAPL thread that changes the table, or a worker's next critical section.
  Two premises describe the environment: memory for a thread's start context is found, and a
  transfer reports itself cancelled only if its flag was set. (A flag once set stays set until the
  slot is freed, so the flag's value when the transfer ends is what the transfer could have seen;
  for the libcurl transport this is \<open>transport_outcome\<close>.)
\<close>

inductive engine_step :: "system \<Rightarrow> system \<Rightarrow> bool" where
  dispatch: "Dispatch client request seed copy_throws start e = Some ((st, i), e', new) \<Longrightarrow>
    start \<noteq> ContextThrows \<Longrightarrow>
    engine_step (e, ws) (e', (if st = Returned Ok then map notify ws else ws) @ new)"
| read: "Read requestId buffer n e = Some (r, e') \<Longrightarrow> engine_step (e, ws) (e', ws)"
| discard: "Discard requestId e = (st, e') \<Longrightarrow> engine_step (e, ws) (e', ws)"
| discard_all: "DiscardAll e = (r, e') \<Longrightarrow> engine_step (e, ws) (e', map notify ws)"
| head: "w < length ws \<Longrightarrow> ws ! w = Starting \<Longrightarrow> WorkerHead e = (e', x) \<Longrightarrow>
    engine_step (e, ws) (e', ws[w := x])"
| wake: "w < length ws \<Longrightarrow> ws ! w = Idle g woken \<Longrightarrow> WorkerWake timed_out g e = (e', x) \<Longrightarrow>
    engine_step (e, ws) (e', ws[w := x])"
| finish: "w < length ws \<Longrightarrow> ws ! w = Performing i \<Longrightarrow>
    (result = RequestCancelled \<longrightarrow> cancel_flag (slots e ! i)) \<Longrightarrow>
    WorkerFinish i result response e = (e', x) \<Longrightarrow>
    engine_step (e, ws) (e', ws[w := x])"

inductive reachable :: "system \<Rightarrow> bool" where
  start: "reachable (AsyncEngine, [])"
| step: "reachable s \<Longrightarrow> engine_step s s' \<Longrightarrow> reachable s'"

inductive_cases engine_stepE: "engine_step (e, ws) s'"

section \<open>The table's invariant\<close>

definition occupied :: "async_slot \<Rightarrow> bool" where
  "occupied s \<longleftrightarrow> slot_state s \<noteq> Free \<and> slot_state s \<noteq> Consumed"

definition slot_ok :: "nat \<Rightarrow> async_slot \<Rightarrow> bool" where
  "slot_ok i s \<longleftrightarrow>
     (cancel_flag s \<longleftrightarrow> slot_state s = Abandoned)
     \<and> (slot_state s \<in> {Pending, Running, Abandoned} \<longrightarrow> slot_client s \<noteq> None \<and> cancelFlag (slot_request s) = Some i)
     \<and> (occupied s \<longrightarrow> async_id s \<noteq> 0)
     \<and> (slot_state s = Complete \<longrightarrow> transportStatus s \<noteq> RequestCancelled)"

definition table_ok :: "async_slot list \<Rightarrow> bool" where
  "table_ok ss \<longleftrightarrow> length ss = 8 \<and> (\<forall>i < 8. slot_ok i (ss ! i))
     \<and> (\<forall>i < 8. \<forall>j < 8. occupied (ss ! i) \<and> occupied (ss ! j) \<and> async_id (ss ! i) = async_id (ss ! j) \<longrightarrow> i = j)"

definition pool_of :: "system \<Rightarrow> bool" where
  "pool_of s = (case s of (e, ws) \<Rightarrow>
     pool_inv (map slot_state (slots e)) ws (unat (liveWorkers e)) (unat (idleWorkers e)) (moduleRefs e))"

definition engine_inv :: "system \<Rightarrow> bool" where
  "engine_inv s \<longleftrightarrow> table_ok (slots (fst s)) \<and> pool_of s"

lemma table_update:
  assumes "table_ok ss" "slot_ok i s"
    and "\<not> occupied s \<or> occupied (ss ! i) \<and> async_id s = async_id (ss ! i)
      \<or> (\<forall>j < 8. occupied (ss ! j) \<longrightarrow> async_id (ss ! j) \<noteq> async_id s)"
  shows "table_ok (ss[i := s])"
proof (cases "i < length ss")
  case True
  then show ?thesis using assms unfolding table_ok_def
    by (simp add: nth_list_update) metis
qed (use assms in \<open>simp add: list_update_beyond\<close>)

lemma table_okD: "table_ok ss \<Longrightarrow> i < 8 \<Longrightarrow> slot_ok i (ss ! i)" "table_ok ss \<Longrightarrow> length ss = 8"
  by (simp_all add: table_ok_def)

lemma slot_ok_free: "slot_ok i ((FreeSlotContentsLocked s)\<lparr>slot_state := Free\<rparr>)"
  by (simp add: slot_ok_def FreeSlotContentsLocked_def occupied_def)

lemma occupied_simps [simp]:
  "occupied (s\<lparr>slot_state := x\<rparr>) \<longleftrightarrow> x \<noteq> Free \<and> x \<noteq> Consumed"
  "async_id (s\<lparr>slot_state := x\<rparr>) = async_id s"
  by (simp_all add: occupied_def)

lemma IsIdLiveLocked_iff:
  assumes "length (slots e) = 8"
  shows "IsIdLiveLocked e k \<longleftrightarrow> (\<exists>j < 8. occupied (slots e ! j) \<and> async_id (slots e ! j) = k)"
  using assms unfolding IsIdLiveLocked_def occupied_def by (metis in_set_conv_nth)

text \<open>An id to mint always exists: eight slots cannot use them all.\<close>

lemma request_id_mints:
  assumes "length (slots e) = 8"
  shows "\<exists>k. mint_request_id (IsIdLiveLocked e) c = Some (k, k + 1) \<and> k \<noteq> 0 \<and> \<not> IsIdLiveLocked e k"
proof -
  obtain free where "free \<noteq> 0" "\<not> IsIdLiveLocked e free"
    by (rule free_id_exists [of "IsIdLiveLocked e" "map async_id (slots e)"])
      (use assms in \<open>auto simp: IsIdLiveLocked_def\<close>)
  then show ?thesis using req.mint_returns by blast
qed

lemma FindSlotForDispatch_Some:
  "FindSlotForDispatchLocked e = Some i \<Longrightarrow> i < length (slots e) \<and> \<not> occupied (slots e ! i)"
  unfolding FindSlotForDispatchLocked_def occupied_def by (auto dest: first_indexD)

lemma FindLiveSlot_Some:
  "FindLiveSlotLocked k e = Some i \<Longrightarrow>
     i < length (slots e) \<and> async_id (slots e ! i) = k \<and> slot_state (slots e ! i) \<in> {Pending, Running, Complete} \<and> k \<noteq> 0"
  unfolding FindLiveSlotLocked_def by (auto dest!: first_indexD split: if_splits)

lemma FindPendingSlot_Some:
  "FindPendingSlotLocked e = Some i \<Longrightarrow> i < length (slots e) \<and> slot_state (slots e ! i) = Pending"
  unfolding FindPendingSlotLocked_def by (auto dest: first_indexD)

lemma FindPendingSlot_None:
  "FindPendingSlotLocked e = None \<longleftrightarrow> Pending \<notin> set (map slot_state (slots e))"
  by (auto simp: FindPendingSlotLocked_def first_index_None image_iff)

section \<open>Every step keeps it\<close>

text \<open>The counters as numbers.\<close>

lemma unat_inc: "unat (w :: u32) \<le> 8 \<Longrightarrow> unat (w + 1) = unat w + 1"
  by (simp add: unat_word_ariths(1))

lemma unat_dec: "0 < unat (w :: u32) \<Longrightarrow> unat (w - 1) = unat w - 1"
  using unat_sub [of 1 w] by (simp add: word_le_nat_alt)

lemma pending_count: "count_slots (\<lambda>s. slot_state s = Pending) xs = count_slots (\<lambda>s. s = Pending) (map slot_state xs)"
  by (simp add: count_slots_map)

lemma needs_worker_iff:
  assumes "length (slots e) = 8"
  shows "needs_worker e \<longleftrightarrow>
    unat (idleWorkers e) < count_slots (\<lambda>s. s = Pending) (map slot_state (slots e)) \<and> unat (liveWorkers e) < 8"
proof -
  let ?c = "count_slots (\<lambda>s. slot_state s = Pending) (slots e)"
  have "?c \<le> 8" using count_slots_le [of _ "slots e"] assms by simp
  then have "unat (of_nat ?c :: u32) = ?c" by (simp add: unsigned_of_nat take_bit_nat_eq_self)
  then show ?thesis
    by (simp add: needs_worker_def CountPendingSlotsLocked_def word_less_nat_alt pending_count)
qed

lemma pool_ofD: "pool_of (e, ws) \<Longrightarrow>
  pool_inv (map slot_state (slots e)) ws (unat (liveWorkers e)) (unat (idleWorkers e)) (moduleRefs e)"
  by (simp add: pool_of_def)

lemma engine_invD:
  assumes "engine_inv (e, ws)"
  shows "table_ok (slots e)" "length (slots e) = 8"
    "pool_inv (map slot_state (slots e)) ws (unat (liveWorkers e)) (unat (idleWorkers e)) (moduleRefs e)"
  using assms by (auto simp: engine_inv_def pool_of_def table_ok_def)

text \<open>Queuing a request keeps the table; the pool is asked for a worker or has one.\<close>

lemma queued_table:
  assumes inv: "engine_inv (e, ws)"
    and i: "FindSlotForDispatchLocked e = Some i"
    and mint: "mint_request_id (IsIdLiveLocked e) c = Some (newId, n)"
  shows "table_ok (slots (queue_in i newId n client request e))"
    "map slot_state (slots (queue_in i newId n client request e)) = (map slot_state (slots e))[i := Pending]"
    "i < 8" "\<not> busy (map slot_state (slots e) ! i)" "map slot_state (slots e) ! i \<noteq> Pending"
proof -
  note len = engine_invD(2) [OF inv]
  have newId: "newId \<noteq> 0" "\<not> IsIdLiveLocked e newId"
    using request_id_mints [OF len, of c] mint by auto
  show "table_ok (slots (queue_in i newId n client request e))"
    unfolding queue_in_def using newId
    by (simp, intro table_update [OF engine_invD(1) [OF inv]])
      (auto simp: slot_ok_def queued_slot_def IsIdLiveLocked_iff [OF len])
  show "map slot_state (slots (queue_in i newId n client request e)) = (map slot_state (slots e))[i := Pending]"
    by (simp add: queue_in_def queued_slot_def map_update)
  show "i < 8" "\<not> busy (map slot_state (slots e) ! i)" "map slot_state (slots e) ! i \<noteq> Pending"
    using FindSlotForDispatch_Some [OF i] len by (auto simp: occupied_def busy_def)
qed

lemma dispatch_inv:
  assumes inv: "engine_inv (e, ws)"
    and d: "Dispatch client request seed copy_throws start e = Some ((st, k), e', new)" "start \<noteq> ContextThrows"
  shows "engine_inv (e', (if st = Returned Ok then map notify ws else ws) @ new)"
  using d(1)
proof (cases rule: Dispatch_cases)
  case Full
  then show ?thesis using inv by simp
next
  case (CopyThrows i newId n)
  note i = FindSlotForDispatch_Some [OF CopyThrows(1)]
  let ?s = "(FreeSlotContentsLocked (slots e ! i))\<lparr>async_id := newId, slot_client := Some client\<rparr>"
  have st: "slot_state ?s = slot_state (slots e ! i)" by (simp add: FreeSlotContentsLocked_def)
  then have "slot_ok i ?s" "\<not> occupied ?s" using i
    by (auto simp: slot_ok_def occupied_def FreeSlotContentsLocked_def)
  then have "table_ok ((slots e)[i := ?s])" by (intro table_update [OF engine_invD(1) [OF inv]]) auto
  moreover have "map slot_state ((slots e)[i := ?s]) = map slot_state (slots e)"
    using st i by (simp add: map_update list_update_same_conv)
  ultimately show ?thesis using CopyThrows engine_invD(3) [OF inv]
    by (simp add: engine_inv_def pool_of_def)
next
  case (Refused i newId n)
  note i = FindSlotForDispatch_Some [OF Refused(1)]
  have e: "slot_ok i empty_slot" "\<not> occupied empty_slot" "slot_state empty_slot = Free"
    by (auto simp: slot_ok_def occupied_def empty_slot_def)
  have "table_ok ((slots e)[i := empty_slot])" by (intro table_update [OF engine_invD(1) [OF inv] e(1)]) (simp add: e)
  moreover have "pool_inv ((map slot_state (slots e))[i := Free]) ws (unat (liveWorkers e)) (unat (idleWorkers e)) (moduleRefs e)"
    using i engine_invD(2) [OF inv] by (intro pool_settle [OF engine_invD(3) [OF inv]]) (auto simp: occupied_def busy_def)
  ultimately show ?thesis using Refused e by (simp add: engine_inv_def pool_of_def map_update)
next
  case (Spare i newId n)
  note q = queued_table(1,2) [OF inv Spare(1,2), of client request] queued_table(3-5) [OF inv Spare(1,2)]
  let ?q = "queue_in i newId n client request e"
  have "unat (liveWorkers ?q) = unat (liveWorkers e)" "unat (idleWorkers ?q) = unat (idleWorkers e)"
    by (simp_all add: queue_in_def)
  then have "pool_inv ((map slot_state (slots e))[i := Pending]) (map notify ws) (unat (liveWorkers e)) (unat (idleWorkers e)) (moduleRefs e)"
    using Spare(3) needs_worker_iff [of ?q] table_okD(2) [OF q(1)] q(2)
    by (intro pool_queue [OF engine_invD(3) [OF inv] q(3-5)]) auto
  then show ?thesis using Spare q(1,2) by (simp add: engine_inv_def pool_of_def queue_in_def)
next
  case (Spawned i newId n)
  note q = queued_table(1,2) [OF inv Spawned(1,2), of client request] queued_table(3-5) [OF inv Spawned(1,2)]
  let ?q = "queue_in i newId n client request e"
  have "unat (liveWorkers e) < 8"
    using Spawned(3) needs_worker_iff [of ?q] table_okD(2) [OF q(1)] by (simp add: queue_in_def)
  moreover from this have "unat (liveWorkers e + 1) = unat (liveWorkers e) + 1" by (intro unat_inc) simp
  moreover have "pool_inv ((map slot_state (slots e))[i := Pending]) (map notify ws @ [Starting])
      (unat (liveWorkers e) + 1) (unat (idleWorkers e)) (moduleRefs e + 1)"
    by (rule pool_queue_spawn [OF engine_invD(3) [OF inv] q(3-5)]) fact
  ultimately show ?thesis using Spawned q(1,2) by (simp add: engine_inv_def pool_of_def queue_in_def)
qed (use d(2) in simp)

text \<open>A slot no worker performs is released or kept, but not queued.\<close>

lemma settle_inv:
  assumes inv: "engine_inv (e, ws)" and "i < 8" "\<not> busy (slot_state (slots e ! i))"
    and "slot_ok i s" "\<not> occupied s \<or> occupied (slots e ! i) \<and> async_id s = async_id (slots e ! i)"
    and "\<not> busy (slot_state s)" "slot_state s \<noteq> Pending"
  shows "engine_inv (update_slot i (\<lambda>_. s) e, ws)"
proof -
  have "table_ok ((slots e)[i := s])"
    using assms(5) by (intro table_update [OF engine_invD(1) [OF inv] assms(4)]) blast
  moreover have "pool_inv ((map slot_state (slots e))[i := slot_state s]) ws (unat (liveWorkers e)) (unat (idleWorkers e)) (moduleRefs e)"
    using assms engine_invD(2) [OF inv] by (intro pool_settle [OF engine_invD(3) [OF inv]]) auto
  ultimately show ?thesis by (simp add: engine_inv_def pool_of_def map_update)
qed

lemma update_slot_const: "update_slot i f e = update_slot i (\<lambda>_. f (slots e ! i)) e"
  by (simp add: update_slot_def)

lemma slot_ok_consume: "slot_ok i s \<Longrightarrow> slot_state s \<noteq> Abandoned \<Longrightarrow> slot_ok i (s\<lparr>slot_state := Consumed\<rparr>)"
  by (auto simp: slot_ok_def occupied_def)

lemma consume_inv:
  assumes "engine_inv (e, ws)" "i < 8" "slot_state (slots e ! i) \<in> {Pending, Complete}"
  shows "engine_inv (update_slot i (\<lambda>s. s\<lparr>slot_state := Consumed\<rparr>) e, ws)"
  using assms table_okD(1) [OF engine_invD(1) [OF assms(1)] assms(2)]
  by (subst update_slot_const, intro settle_inv slot_ok_consume) auto

lemma read_inv:
  assumes "engine_inv (e, ws)" "Read requestId buffer n e = Some (r, e')"
  shows "engine_inv (e', ws)"
proof (cases "e' = e")
  case False
  then obtain i where i: "FindLiveSlotLocked requestId e = Some i" "slot_state (slots e ! i) = Complete"
    "e' = update_slot i (\<lambda>s. s\<lparr>slot_state := Consumed\<rparr>) e"
    using assms(2) by (auto simp: Read_def Let_def split: option.splits if_splits Option.bind_splits prod.splits)
  then show ?thesis using consume_inv [OF assms(1), of i] FindLiveSlot_Some [OF i(1)] engine_invD(2) [OF assms(1)]
    by simp
qed (use assms in simp)

lemma discard_inv:
  assumes inv: "engine_inv (e, ws)" and d: "Discard requestId e = (st, e')"
  shows "engine_inv (e', ws)"
proof (cases "FindLiveSlotLocked requestId e")
  case (Some i)
  note live = FindLiveSlot_Some [OF Some]
  then have i: "i < 8" using engine_invD(2) [OF inv] by simp
  show ?thesis
  proof (cases "slot_state (slots e ! i) = Running")
    case True
    let ?s = "(slots e ! i)\<lparr>slot_state := Abandoned, cancel_flag := True\<rparr>"
    have "slot_ok i ?s" "occupied ?s" "occupied (slots e ! i)"
      using table_okD(1) [OF engine_invD(1) [OF inv] i] True by (auto simp: slot_ok_def occupied_def)
    then have "table_ok ((slots e)[i := ?s])" by (intro table_update [OF engine_invD(1) [OF inv]]) auto
    moreover have "pool_inv ((map slot_state (slots e))[i := Abandoned]) ws (unat (liveWorkers e)) (unat (idleWorkers e)) (moduleRefs e)"
      using True i engine_invD(2) [OF inv] by (intro pool_abandon [OF engine_invD(3) [OF inv]]) auto
    ultimately show ?thesis using d Some True
      by (auto simp: Discard_def engine_inv_def pool_of_def map_update)
  next
    case False
    with d Some live consume_inv [OF inv i] show ?thesis by (auto simp: Discard_def)
  qed
qed (use assms in \<open>simp add: Discard_def\<close>)

lemma discard_slot_simps:
  "slot_state (discard_slot s) \<in> {Free, Abandoned}" "busy (slot_state (discard_slot s)) = busy (slot_state s)"
  "occupied (discard_slot s) \<Longrightarrow> occupied s \<and> async_id (discard_slot s) = async_id s"
  "slot_ok i s \<Longrightarrow> slot_ok i (discard_slot s)"
  by (cases "slot_state s"; auto simp: discard_slot_def occupied_def slot_ok_def FreeSlotContentsLocked_def)+

lemma discard_all_inv:
  assumes inv: "engine_inv (e, ws)" and d: "DiscardAll e = (r, e')"
  shows "engine_inv (e', map notify ws)"
proof -
  have e': "slots e' = map discard_slot (slots e)" "liveWorkers e' = liveWorkers e" "idleWorkers e' = idleWorkers e"
    "moduleRefs e' = moduleRefs e"
    using d by (auto simp: DiscardAll_def Let_def)
  have "table_ok (slots e')" using engine_invD(1,2) [OF inv] discard_slot_simps
    unfolding e' table_ok_def by (auto simp: nth_map)
  moreover have "pool_inv (map (\<lambda>x. if busy x then Abandoned else Free) (map slot_state (slots e))) (map notify ws)
      (unat (liveWorkers e)) (unat (idleWorkers e)) (moduleRefs e)"
    by (rule pool_discard_all [OF engine_invD(3) [OF inv]]) auto
  moreover have "slot_state (discard_slot s) = (if busy (slot_state s) then Abandoned else Free)" for s
    using discard_slot_simps(1,2) [of s] by (auto simp: busy_def)
  ultimately show ?thesis using e' by (simp add: engine_inv_def pool_of_def comp_def)
qed

section \<open>The workers' steps\<close>

lemma take_inv:
  assumes inv: "engine_inv (e, ws)" and f: "FindPendingSlotLocked e = Some i" and w: "w < length ws"
    and idle: "ws ! w = Starting \<and> e1 = e \<or> is_idle (ws ! w) \<and> e1 = e\<lparr>idleWorkers := idleWorkers e - 1\<rparr>"
    and t: "WorkerTake i e1 = (e', x)"
  shows "engine_inv (e', ws[w := x])"
proof -
  note pool = engine_invD(3) [OF inv]
  have i: "i < 8" "slot_state (slots e ! i) = Pending" using FindPendingSlot_Some [OF f] engine_invD(2) [OF inv] by auto
  let ?s = "(slots e ! i)\<lparr>slot_state := Running\<rparr>"
  have "slot_ok i ?s" "occupied (slots e ! i)" using table_okD(1) [OF engine_invD(1) [OF inv] i(1)] i(2)
    by (auto simp: slot_ok_def occupied_def)
  then have table: "table_ok ((slots e)[i := ?s])" by (intro table_update [OF engine_invD(1) [OF inv]]) auto
  have "is_idle (ws ! w) \<Longrightarrow> 0 < unat (idleWorkers e)"
    using pool_invD(3) [OF pool] count_ge [OF w, of is_idle] by simp
  then have "ws ! w = Starting \<and> unat (idleWorkers e1) = unat (idleWorkers e)
      \<or> is_idle (ws ! w) \<and> unat (idleWorkers e1) = unat (idleWorkers e) - 1"
    using idle by (auto simp: unat_dec)
  then have "pool_inv ((map slot_state (slots e))[i := Running]) (ws[w := Performing i])
      (unat (liveWorkers e)) (unat (idleWorkers e1)) (moduleRefs e)"
    using i engine_invD(2) [OF inv] by (intro pool_take [OF pool _ _ w]) auto
  then show ?thesis using t idle table
    by (auto simp: WorkerTake_def engine_inv_def pool_of_def map_update)
qed

lemma head_inv:
  assumes inv: "engine_inv (e, ws)" and w: "w < length ws" "ws ! w = Starting" and h: "WorkerHead e = (e', x)"
  shows "engine_inv (e', ws[w := x])"
proof (cases "FindPendingSlotLocked e")
  case (Some i)
  with h show ?thesis by (intro take_inv [OF inv Some w(1)]) (simp_all add: WorkerHead_def w)
next
  case None
  note pool = engine_invD(3) [OF inv]
  have "unat (idleWorkers e) \<le> 8"
    using pool_invD(2,3,5) [OF pool] worker_partition [of ws] by simp
  then show ?thesis
    using pool_wait [OF pool None [unfolded FindPendingSlot_None] w] None h engine_invD(1) [OF inv]
    by (auto simp: WorkerHead_def engine_inv_def pool_of_def unat_inc)
qed

lemma wake_inv:
  assumes inv: "engine_inv (e, ws)" and w: "w < length ws" "ws ! w = Idle g woken" and h: "WorkerWake timed_out g e = (e', x)"
  shows "engine_inv (e', ws[w := x])"
proof (cases "FindPendingSlotLocked e")
  case (Some i)
  with h show ?thesis by (intro take_inv [OF inv Some w(1)]) (simp_all add: WorkerWake_def w)
next
  case None
  note pool = engine_invD(3) [OF inv]
  have idle: "is_idle (ws ! w)" using w by simp
  note p = None [unfolded FindPendingSlot_None]
  show ?thesis using pool_leave [OF pool p w(1) idle] pool_wait_on [OF pool p w(1) idle] None h engine_invD(1) [OF inv]
    by (auto simp: WorkerWake_def engine_inv_def pool_of_def unat_dec split: if_splits)
qed

lemma finish_inv:
  assumes inv: "engine_inv (e, ws)" and w: "w < length ws" "ws ! w = Performing i"
    and result: "result = RequestCancelled \<longrightarrow> cancel_flag (slots e ! i)"
    and h: "WorkerFinish i result response e = (e', x)"
  shows "engine_inv (e', ws[w := x])"
proof -
  note pool = engine_invD(3) [OF inv]
  let ?s = "if slot_state (slots e ! i) = Abandoned then (FreeSlotContentsLocked (slots e ! i))\<lparr>slot_state := Free\<rparr>
    else (slots e ! i)\<lparr>slot_response := response, transportStatus := result, slot_state := Complete\<rparr>"
  have i: "i < 8" "busy (slot_state (slots e ! i))"
    using performer_busy [OF pool, of i] w engine_invD(2) [OF inv] nth_mem [OF w(1)] by auto
  have "slot_ok i ?s" using table_okD(1) [OF engine_invD(1) [OF inv] i(1)] i(2) result slot_ok_free
    by (auto simp: slot_ok_def occupied_def busy_def)
  moreover have "\<not> occupied ?s \<or> occupied (slots e ! i) \<and> async_id ?s = async_id (slots e ! i)"
    using i(2) by (auto simp: occupied_def busy_def)
  ultimately have table: "table_ok ((slots e)[i := ?s])" by (intro table_update [OF engine_invD(1) [OF inv]]) auto
  have "pool_inv ((map slot_state (slots e))[i := slot_state ?s]) (ws[w := Starting])
      (unat (liveWorkers e)) (unat (idleWorkers e)) (moduleRefs e)"
    by (rule pool_finish [OF pool w]) simp_all
  with table have "engine_inv (update_slot i (\<lambda>_. ?s) e, ws[w := Starting])"
    by (simp add: engine_inv_def pool_of_def map_update)
  moreover have "WorkerHead (update_slot i (\<lambda>_. ?s) e) = (e', x)"
    using h by (auto simp: WorkerFinish_def update_slot_def split: if_splits)
  ultimately show ?thesis using head_inv [of _ "ws[w := Starting]" w] w(1) by simp
qed

lemma step_inv: "engine_step s s' \<Longrightarrow> engine_inv s \<Longrightarrow> engine_inv s'"
  by (induction rule: engine_step.induct)
    (blast intro: dispatch_inv read_inv discard_inv discard_all_inv head_inv wake_inv finish_inv)+

lemma start_inv: "engine_inv (AsyncEngine, [])"
proof -
  have "slot_ok i empty_slot" "\<not> occupied empty_slot" "slot_state empty_slot = Free" for i
    by (auto simp: slot_ok_def occupied_def empty_slot_def)
  then show ?thesis using pool_inv_start
    by (simp add: engine_inv_def pool_of_def AsyncEngine_def table_ok_def kAsyncRequestSlotCount_def)
qed

lemma reachable_inv: "reachable s \<Longrightarrow> engine_inv s"
  by (induction rule: reachable.induct) (auto intro: start_inv step_inv)

end
