(* ===== verification/Async_Properties.thy ===== *)
theory Async_Properties
  imports Async_System
begin

text \<open>
  What the engine promises to CAPL and to its workers, from the invariant of its reachable states.
\<close>

section \<open>Counting by position\<close>

lemma count_slots_card: "count_slots P xs = card {i. i < length xs \<and> P (xs ! i)}"
  by (simp add: count_slots_def length_filter_conv_card)

lemma count_one_unique:
  assumes "count_slots P xs \<le> 1" "a < length xs" "P (xs ! a)" "b < length xs" "P (xs ! b)"
  shows "a = b"
  using assms card_le_Suc0_iff_eq [of "{i. i < length xs \<and> P (xs ! i)}"] by (auto simp: count_slots_card)

lemma performer_unique:
  assumes "engine_inv (e, ws)" "w < length ws" "ws ! w = Performing i" "v < length ws" "ws ! v = Performing i"
  shows "w = v"
  using pool_invD(6) [OF engine_invD(3) [OF assms(1)], of i] assms(2-5)
  by (intro count_one_unique [of "\<lambda>w. w = Performing i" ws]) auto

lemma performer_slot:
  assumes "engine_inv (e, ws)" "w < length ws" "ws ! w = Performing i"
  shows "i < 8" "busy (slot_state (slots e ! i))" "slot_ok i (slots e ! i)" "occupied (slots e ! i)"
proof -
  have "Performing i \<in> set ws" using assms(2,3) nth_mem by metis
  from performer_busy [OF engine_invD(3) [OF assms(1)] this] engine_invD(2) [OF assms(1)]
  show i: "i < 8" and b: "busy (slot_state (slots e ! i))" by auto
  show "slot_ok i (slots e ! i)" by (rule table_okD(1) [OF engine_invD(1) [OF assms(1)] i])
  show "occupied (slots e ! i)" using b by (auto simp: occupied_def busy_def)
qed

text \<open>What the worker of a transfer reads without the lock.\<close>

definition held :: "async_slot \<Rightarrow> transport option \<times> HttpRequest" where
  "held s = (slot_client s, slot_request s)"

lemma held_simps [simp]:
  "held (s\<lparr>slot_state := x\<rparr>) = held s" "held (s\<lparr>cancel_flag := b\<rparr>) = held s"
  by (simp_all add: held_def)

lemma held_update: "held (s') = held (xs ! j) \<Longrightarrow> held (xs[j := s'] ! i) = held (xs ! i)"
  by (cases "i = j"; cases "j < length xs") (simp_all add: list_update_beyond)

lemma take_keeps: "WorkerTake j e = (e', x) \<Longrightarrow> held (slots e' ! i) = held (slots e ! i)"
  by (auto simp: WorkerTake_def held_update)

lemma head_keeps: "WorkerHead e = (e', x) \<Longrightarrow> held (slots e' ! i) = held (slots e ! i)"
  by (auto simp: WorkerHead_def split: option.splits dest: take_keeps)

lemma wake_keeps: "WorkerWake t g e = (e', x) \<Longrightarrow> held (slots e' ! i) = held (slots e ! i)"
  by (auto simp: WorkerWake_def split: option.splits if_splits dest: take_keeps)

lemma finish_keeps:
  assumes "WorkerFinish j result response e = (e', x)" "i \<noteq> j"
  shows "held (slots e' ! i) = held (slots e ! i)"
proof (cases "slot_state (slots e ! j) = Abandoned")
  case True
  with assms(1) have "WorkerHead (update_slot j (\<lambda>s. (FreeSlotContentsLocked s)\<lparr>slot_state := Free\<rparr>) e) = (e', x)"
    by (simp add: WorkerFinish_def)
  from head_keeps [OF this, of i] assms(2) show ?thesis by simp
next
  case False
  with assms(1) have "WorkerHead (update_slot j (\<lambda>s. s\<lparr>slot_response := response, transportStatus := result,
      slot_state := Complete\<rparr>) e) = (e', x)"
    by (simp add: WorkerFinish_def)
  from head_keeps [OF this, of i] assms(2) show ?thesis by simp
qed

lemma dispatch_keeps:
  assumes "Dispatch client request seed copy_throws start e = Some (r, e', new)" "occupied (slots e ! i)"
  shows "slots e' ! i = slots e ! i"
  using assms(1)
proof (cases rule: Dispatch_cases)
qed (use assms(2) in \<open>auto simp: queue_in_def nth_list_update dest!: FindSlotForDispatch_Some\<close>)

lemma read_keeps: "Read k buffer n e = Some (r, e') \<Longrightarrow> held (slots e' ! i) = held (slots e ! i)"
  by (auto simp: Read_def Let_def held_update split: option.splits if_splits Option.bind_splits prod.splits)

lemma discard_keeps: "Discard k e = (st, e') \<Longrightarrow> held (slots e' ! i) = held (slots e ! i)"
  by (auto simp: Discard_def held_update split: option.splits if_splits)

lemma discard_all_keeps:
  assumes "DiscardAll e = (r, e')" "i < length (slots e)" "busy (slot_state (slots e ! i))"
  shows "held (slots e' ! i) = held (slots e ! i)"
  using assms by (auto simp: DiscardAll_def Let_def discard_slot_def busy_def)

lemma nth_append_left: "w < length ws \<Longrightarrow> (map notify ws @ new) ! w = notify (ws ! w)" "w < length ws \<Longrightarrow> (ws @ new) ! w = ws ! w"
  by (simp_all add: nth_append)

lemma finish_moves_on:
  assumes inv: "engine_inv (e, ws)" and w: "w < length ws" "ws ! w = Performing i" and h: "WorkerFinish i result response e = (e', x)"
  shows "x \<noteq> Performing i"
proof
  assume x: "x = Performing i"
  let ?e = "if slot_state (slots e ! i) = Abandoned
        then update_slot i (\<lambda>s. (FreeSlotContentsLocked s)\<lparr>slot_state := Free\<rparr>) e
        else update_slot i (\<lambda>s. s\<lparr>slot_response := response, transportStatus := result, slot_state := Complete\<rparr>) e"
  have "FindPendingSlotLocked ?e = Some i"
    using h x by (auto simp: WorkerFinish_def WorkerHead_def WorkerTake_def split: option.splits)
  from FindPendingSlot_Some [OF this] show False by (auto split: if_splits)
qed

section \<open>A sample run\<close>

text \<open>A run that the witnesses use: one dispatch, the started worker takes the request.\<close>

definition sample_transport :: transport where
  "sample_transport request response = (Returned Ok, response\<lparr>statusCode := 200\<rparr>)"

definition dispatched :: "engine \<times> worker list" where
  "dispatched =
     (AsyncEngine\<lparr>slots := (slots AsyncEngine)[0 := queued_slot 0 7 sample_transport HttpRequest_default],
        liveWorkers := 1, wakeGeneration := 1, idSeeded := True, nextId := 8, moduleRefs := 1\<rparr>, [Starting])"

definition performing :: "engine \<times> worker list" where
  "performing = (fst (WorkerHead (fst dispatched)), [Performing 0])"

lemma eight_slots: "replicate 8 x = [x, x, x, x, x, x, x, x]"
  by (simp add: numeral_eq_Suc)

lemma mint_seven: "mint_request_id (IsIdLiveLocked e) 7 = Some (7, 8)" if "\<not> IsIdLiveLocked e 7"
  using req.mint_hit [of 7 "IsIdLiveLocked e"] that by simp

lemma start_not_live: "\<not> IsIdLiveLocked AsyncEngine k"
  by (simp add: IsIdLiveLocked_def AsyncEngine_def empty_slot_def)

lemma start_freed: "update_slot 0 FreeSlotContentsLocked AsyncEngine = AsyncEngine"
  by (simp add: update_slot_def AsyncEngine_def FreeSlotContentsLocked_def empty_slot_def kAsyncRequestSlotCount_def eight_slots)

lemma start_mints: "MintIdLocked 7 AsyncEngine = Some (7, AsyncEngine\<lparr>idSeeded := True, nextId := 8\<rparr>)"
  using mint_seven [OF start_not_live] by (simp add: MintIdLocked_eq AsyncEngine_def)

lemma sample_dispatch:
  "Dispatch sample_transport HttpRequest_default 7 False Started AsyncEngine =
     Some ((Returned Ok, 7), fst dispatched, [Starting])"
proof -
  have find: "FindSlotForDispatchLocked AsyncEngine = Some 0" by code_simp
  show ?thesis
    unfolding Dispatch_def Let_def find option.case start_freed start_mints prod.case
    by (simp add: update_slot_def CountPendingSlotsLocked_def StartWorkerLocked_def Let_def
        kAsyncRequestSlotCount_def dispatched_def queued_slot_def AsyncEngine_def empty_slot_def eight_slots)
qed

lemma reachable_dispatched: "reachable dispatched"
proof -
  have "engine_step (AsyncEngine, []) (fst dispatched, [Starting])"
    using engine_step.dispatch [OF sample_dispatch, of "[]"] by simp
  then show ?thesis using reachable.intros by (metis dispatched_def fst_conv)
qed

lemma reachable_performing: "reachable performing"
proof -
  have "FindPendingSlotLocked (fst dispatched) = Some 0" by code_simp
  then have "WorkerHead (fst dispatched) = (fst performing, Performing 0)"
    by (simp add: performing_def WorkerHead_def WorkerTake_def)
  then have "engine_step (fst dispatched, [Starting]) (fst performing, [Starting][0 := Performing 0])"
    by (intro engine_step.head) simp_all
  then show ?thesis using reachable.step [OF reachable_dispatched]
    by (simp add: dispatched_def performing_def)
qed

definition sample_body :: HttpResponse where
  "sample_body = \<lparr>statusCode = 200, response_body = ''hello'', response_headers = []\<rparr>"

definition completed :: "engine \<times> worker list" where
  "completed = (fst (WorkerFinish 0 Ok sample_body (fst performing)), [Idle 1 False])"

lemma performing_slots:
  "slots (fst performing) =
    (queued_slot 0 7 sample_transport HttpRequest_default)\<lparr>slot_state := Running\<rparr> # replicate 7 empty_slot"
  by (simp add: performing_def dispatched_def WorkerHead_def WorkerTake_def FindPendingSlotLocked_def AsyncEngine_def
      kAsyncRequestSlotCount_def eight_slots queued_slot_def numeral_eq_Suc)

lemma sample_finish: "WorkerFinish 0 Ok sample_body (fst performing) = (fst completed, Idle 1 False)"
proof -
  have "snd (WorkerFinish 0 Ok sample_body (fst performing)) = Idle 1 False" by code_simp
  then show ?thesis by (simp add: completed_def prod_eq_iff)
qed

lemma reachable_completed: "reachable completed"
proof -
  have "engine_step (fst performing, [Performing 0]) (fst completed, [Performing 0][0 := Idle 1 False])"
    by (rule engine_step.finish [OF _ _ _ sample_finish]) simp_all
  then show ?thesis using reachable.step [OF reachable_performing]
    by (simp add: performing_def completed_def)
qed

lemma sample_read:
  "\<exists>e'. Read 7 (Buf ''12345678'') 8 (fst completed) =
     Some ((Ok, Buf (''hello'' @ NUL # ''78''), status_word Ok, 200, 5), e')"
proof -
  have "map_option fst (Read 7 (Buf ''12345678'') 8 (fst completed)) =
      Some (Ok, Buf (''hello'' @ NUL # ''78''), status_word Ok, 200, 5)"
    by code_simp
  then show ?thesis by auto
qed

lemma completed_polls: "Poll 7 (fst completed) = (Ok, 2)"
  by code_simp

section \<open>Dispatching\<close>

lemma Dispatch_returns:
  assumes "length (slots e) = 8"
  shows "Dispatch client request seed copy_throws start e \<noteq> None"
proof (cases "FindSlotForDispatchLocked e")
  case (Some i)
  have "length (slots (update_slot i FreeSlotContentsLocked e)) = 8" using assms by simp
  from request_id_mints [OF this, of "if idSeeded e then nextId e else seed"]
  have "MintIdLocked seed (update_slot i FreeSlotContentsLocked e) \<noteq> None"
    by (auto simp: MintIdLocked_eq)
  then obtain newId e1 where "MintIdLocked seed (update_slot i FreeSlotContentsLocked e) = Some (newId, e1)" by auto
  then show ?thesis using Some by (auto simp: Dispatch_def Let_def split: prod.splits outcome.splits bool.splits)
qed (simp add: Dispatch_def)

lemma queued_found:
  assumes "length (slots e) = 8" "i < 8" "k \<noteq> 0" "\<not> IsIdLiveLocked e k"
    and "slots e' = (slots e)[i := queued_slot i k client request]"
  shows "FindLiveSlotLocked k e' = Some i"
proof -
  have "\<not> (async_id (slots e ! j) = k \<and> slot_state (slots e ! j) \<in> {Pending, Running, Complete})" if "j < 8" for j
    using assms(4) that by (auto simp: IsIdLiveLocked_iff [OF assms(1)] occupied_def)
  then show ?thesis using assms(1-3,5)
    by (auto simp: FindLiveSlotLocked_def first_index_Some queued_slot_def)
qed

lemma queued_polls:
  assumes "length (slots e) = 8" "i < 8 \<and> \<not> occupied (slots e ! i) \<and> k \<noteq> 0 \<and> \<not> IsIdLiveLocked e k"
    and "slots e' = (slots e)[i := queued_slot i k client request]"
  shows "Poll k e' = (Ok, 1)"
  using queued_found [OF assms(1) _ _ _ assms(3)] assms by (simp add: Poll_def queued_slot_def)

section \<open>Ids seen from CAPL\<close>

abbreviation live_state :: "SlotState \<Rightarrow> bool" where
  "live_state x \<equiv> x = Pending \<or> x = Running \<or> x = Complete"

lemma live_state_occupied: "live_state (slot_state s) \<Longrightarrow> occupied s"
  by (auto simp: occupied_def)

lemma found_iff:
  assumes "table_ok (slots e)"
  shows "FindLiveSlotLocked k e = Some i \<longleftrightarrow>
    i < 8 \<and> k \<noteq> 0 \<and> async_id (slots e ! i) = k \<and> live_state (slot_state (slots e ! i))"
proof
  assume "FindLiveSlotLocked k e = Some i"
  from FindLiveSlot_Some [OF this] table_okD(2) [OF assms]
  show "i < 8 \<and> k \<noteq> 0 \<and> async_id (slots e ! i) = k \<and> live_state (slot_state (slots e ! i))" by auto
next
  assume i: "i < 8 \<and> k \<noteq> 0 \<and> async_id (slots e ! i) = k \<and> live_state (slot_state (slots e ! i))"
  have "j = i" if "j < 8" "async_id (slots e ! j) = k" "live_state (slot_state (slots e ! j))" for j
    using assms that i live_state_occupied unfolding table_ok_def by blast
  then have "\<not> (async_id (slots e ! j) = k \<and> live_state (slot_state (slots e ! j)))" if "j < i" for j
    using that i by (metis less_irrefl less_trans)
  then show "FindLiveSlotLocked k e = Some i"
    using i table_okD(2) [OF assms] by (simp add: FindLiveSlotLocked_def first_index_Some)
qed

lemma not_found_iff:
  assumes "table_ok (slots e)"
  shows "FindLiveSlotLocked k e = None \<longleftrightarrow>
    (\<forall>i < 8. k \<noteq> 0 \<longrightarrow> async_id (slots e ! i) = k \<longrightarrow> \<not> live_state (slot_state (slots e ! i)))"
  using found_iff [OF assms, of k] by (metis not_Some_eq)

lemma Poll_unknown: "Poll k e = (UnknownRequestId, 0) \<longleftrightarrow> FindLiveSlotLocked k e = None"
  by (auto simp: Poll_def split: option.split)

lemma Poll_complete:
  "Poll k e = (Ok, 2) \<longleftrightarrow> (\<exists>i. FindLiveSlotLocked k e = Some i \<and> slot_state (slots e ! i) = Complete)"
  by (auto simp: Poll_def split: option.split)

lemma Poll_range: "Poll k e \<in> {(Ok, 1), (Ok, 2), (UnknownRequestId, 0)}"
  by (auto simp: Poll_def split: option.split)

text \<open>A slot that stops being live ends its id.\<close>

lemma id_gone:
  assumes "table_ok (slots e)" "table_ok (slots e')" "FindLiveSlotLocked k e = Some i"
    and "\<not> live_state (slot_state (slots e' ! i))"
    and "\<And>j. j \<noteq> i \<Longrightarrow> live_state (slot_state (slots e' ! j)) \<Longrightarrow>
      live_state (slot_state (slots e ! j)) \<and> async_id (slots e' ! j) = async_id (slots e ! j)"
  shows "FindLiveSlotLocked k e' = None"
  unfolding not_found_iff [OF assms(2)]
proof (intro allI impI notI)
  fix j assume j: "j < 8" "k \<noteq> 0" "async_id (slots e' ! j) = k" "live_state (slot_state (slots e' ! j))"
  then have "j \<noteq> i" using assms(4) by blast
  from assms(5) [OF this j(4)] j(1-3) have "FindLiveSlotLocked k e = Some j" by (simp add: found_iff [OF assms(1)])
  with assms(3) \<open>j \<noteq> i\<close> show False by simp
qed

lemma update_other: "j \<noteq> i \<Longrightarrow> slots (update_slot i f e) ! j = slots e ! j"
  by simp

lemma consumed_gone:
  assumes "table_ok (slots e)" "table_ok (slots (update_slot i f e))" "FindLiveSlotLocked k e = Some i"
    and "\<And>s. \<not> live_state (slot_state (f s))"
  shows "FindLiveSlotLocked k (update_slot i f e) = None"
  by (rule id_gone [OF assms(1-3)])
    (use assms(4) found_iff [OF assms(1), of k i] assms(3) table_okD(2) [OF assms(1)] in auto)

lemma head_spares: "WorkerHead e = (e', x) \<Longrightarrow> slot_state (slots e ! i) \<noteq> Pending \<Longrightarrow> slots e' ! i = slots e ! i"
  by (auto simp: WorkerHead_def WorkerTake_def nth_list_update dest!: FindPendingSlot_Some split: option.splits)

lemma wake_spares: "WorkerWake t g e = (e', x) \<Longrightarrow> slot_state (slots e ! i) \<noteq> Pending \<Longrightarrow> slots e' ! i = slots e ! i"
  by (auto simp: WorkerWake_def WorkerTake_def nth_list_update dest!: FindPendingSlot_Some split: option.splits if_splits)

lemma finish_spares:
  assumes "WorkerFinish j result response e = (e', x)" "i \<noteq> j" "slot_state (slots e ! i) \<noteq> Pending"
  shows "slots e' ! i = slots e ! i"
proof -
  obtain f where "WorkerHead (update_slot j f e) = (e', x)" using assms(1) by (auto simp: WorkerFinish_def split: if_splits)
  from head_spares [OF this, of i] assms(2,3) show ?thesis by simp
qed

text \<open>What a reading or discarding call does to the slots of other ids.\<close>

lemma read_spares:
  assumes "Read k' buffer n e = Some (r, e')"
  shows "slots e' ! i = slots e ! i \<or> e' = update_slot i (\<lambda>s. s\<lparr>slot_state := Consumed\<rparr>) e"
proof (cases "e' = e")
  case False
  then obtain j where "e' = update_slot j (\<lambda>s. s\<lparr>slot_state := Consumed\<rparr>) e"
    using assms by (auto simp: Read_def Let_def split: option.splits if_splits Option.bind_splits prod.splits)
  then show ?thesis by (cases "j = i") auto
qed simp

lemma discard_spares:
  assumes "Discard k' e = (st, e')" "slot_state (slots e ! i) = Complete"
  shows "slots e' ! i = slots e ! i \<or> e' = update_slot i (\<lambda>s. s\<lparr>slot_state := Consumed\<rparr>) e"
proof (cases "FindLiveSlotLocked k' e")
  case (Some j)
  then show ?thesis using assms by (cases "j = i") (auto simp: Discard_def split: if_splits)
qed (use assms in \<open>simp add: Discard_def\<close>)

lemma discard_all_unknown:
  assumes "engine_inv (e, ws)" "DiscardAll e = (r, e')"
  shows "Poll k e' = (UnknownRequestId, 0)"
proof -
  have e': "slots e' = map discard_slot (slots e)" using assms(2) by (auto simp: DiscardAll_def Let_def)
  have table': "table_ok (slots e')" using discard_all_inv [OF assms] by (simp add: engine_inv_def)
  have "\<not> live_state (slot_state (discard_slot s))" for s using discard_slot_simps(1) [of s] by auto
  then show ?thesis using engine_invD(2) [OF assms(1)]
    by (auto simp: Poll_unknown not_found_iff [OF table'] e')
qed

section \<open>Properties\<close>

text \<open>C16: While a worker performs a slot's request, and until that worker itself ends the transfer, no
  call and no other worker touches the client or the request it reads without holding the lock;
  the client is there, and the request's cancel flag is the slot's own.
\<close>

theorem worker_owns_request:
  assumes "reachable (e, ws)" "engine_step (e, ws) (e', ws')"
    and "w < length ws" "ws ! w = Performing i" "ws' ! w = Performing i"
  shows "slot_client (slots e' ! i) = slot_client (slots e ! i) \<and> slot_client (slots e ! i) \<noteq> None
    \<and> slot_request (slots e' ! i) = slot_request (slots e ! i)
    \<and> cancelFlag (slot_request (slots e ! i)) = Some i"
proof -
  have inv: "engine_inv (e, ws)" by (rule reachable_inv [OF assms(1)])
  note slot = performer_slot [OF inv assms(3,4)]
  have "held (slots e' ! i) = held (slots e ! i)"
    using assms(2)
  proof (cases rule: engine_step.cases)
    case (dispatch client request seed copy_throws start st k new)
    then show ?thesis using dispatch_keeps [OF _ slot(4)] by simp
  next
    case (finish v j result response x)
    have "i \<noteq> j"
    proof
      assume "i = j"
      with finish performer_unique [OF inv assms(3,4), of v] have "v = w" by simp
      with finish assms(5) \<open>i = j\<close> have "x = Performing i" by simp
      with finish_moves_on [OF inv finish(2,3)] finish(5) \<open>i = j\<close> show False by blast
    qed
    with finish_keeps finish(5) show ?thesis by blast
  qed (use slot engine_invD(2) [OF inv] in \<open>auto intro: read_keeps discard_keeps discard_all_keeps head_keeps wake_keeps\<close>)
  moreover have "slot_client (slots e ! i) \<noteq> None" "cancelFlag (slot_request (slots e ! i)) = Some i"
    using slot(2,3) by (auto simp: slot_ok_def busy_def)
  ultimately show ?thesis by (simp add: held_def)
qed

theorem worker_owns_request_witness:
  "slot_request (slots (snd (Discard 7 (fst performing))) ! 0) = slot_request (slots (fst performing) ! 0)"
proof -
  have "engine_step (fst performing, snd performing) (snd (Discard 7 (fst performing)), snd performing)"
    by (rule engine_step.discard [of 7 _ "fst (Discard 7 (fst performing))"]) simp
  from worker_owns_request [OF _ this, of 0 0] reachable_performing show ?thesis
    by (simp add: performing_def)
qed

text \<open>C2: The engine's invariant, at every moment between two critical sections. Every id in use is
  nonzero and names one slot; the worker counters are the numbers of threads alive and waiting, at
  most eight threads are alive and each holds one reference to the module, so that the library is
  never unloaded under a running worker; a running or abandoned request has exactly one worker,
  any other slot none; and a cancel flag is set exactly on the abandoned slots.
\<close>

theorem engine_invariant:
  assumes "reachable (e, ws)"
  shows "length (slots e) = 8
    \<and> (\<forall>i < 8. \<forall>j < 8. occupied (slots e ! i) \<and> occupied (slots e ! j) \<and> async_id (slots e ! i) = async_id (slots e ! j)
         \<longrightarrow> i = j \<and> async_id (slots e ! i) \<noteq> 0)
    \<and> unat (liveWorkers e) = count_slots (\<lambda>w. w \<noteq> Exited) ws \<and> unat (liveWorkers e) \<le> 8
    \<and> moduleRefs e = unat (liveWorkers e)
    \<and> unat (idleWorkers e) = count_slots is_idle ws
    \<and> (\<forall>i < 8. count_slots (\<lambda>w. w = Performing i) ws =
         (if slot_state (slots e ! i) \<in> {Running, Abandoned} then 1 else 0))
    \<and> (\<forall>i < 8. cancel_flag (slots e ! i) \<longleftrightarrow> slot_state (slots e ! i) = Abandoned)"
proof -
  have inv: "engine_inv (e, ws)" by (rule reachable_inv [OF assms])
  note pool = engine_invD(3) [OF inv] and table = engine_invD(1) [OF inv] and len = engine_invD(2) [OF inv]
  have "count_slots (\<lambda>w. w = Performing i) ws = (if slot_state (slots e ! i) \<in> {Running, Abandoned} then 1 else 0)"
    if "i < 8" for i using pool_invD(6) [OF pool, of i] that len by (simp add: busy_def)
  moreover have "cancel_flag (slots e ! i) \<longleftrightarrow> slot_state (slots e ! i) = Abandoned" if "i < 8" for i
    using table_okD(1) [OF table that] by (simp add: slot_ok_def)
  moreover have "occupied (slots e ! i) \<Longrightarrow> async_id (slots e ! i) \<noteq> 0" if "i < 8" for i
    using table_okD(1) [OF table that] by (simp add: slot_ok_def)
  ultimately show ?thesis using len pool_invD(2-5) [OF pool] table by (simp add: table_ok_def)
qed

theorem engine_invariant_witness:
  "unat (liveWorkers (fst dispatched)) = count_slots (\<lambda>w. w \<noteq> Exited) [Starting]"
  using engine_invariant [of "fst dispatched" "snd dispatched"] reachable_dispatched
  by (simp add: dispatched_def)

text \<open>C5: No request is ever stranded. There are at least as many workers on their way to the table,
  newly started or notified out of their wait, as requests queued, and any such worker, woken in
  time or not, takes one: its next critical section ends with it performing a queued request.
\<close>

theorem no_request_stranded:
  assumes "reachable (e, ws)"
  shows "count_slots (\<lambda>s. slot_state s = Pending) (slots e)
      \<le> count_slots (\<lambda>w. w = Starting \<or> is_idle w \<and> notified w) ws
    \<and> (0 < count_slots (\<lambda>s. slot_state s = Pending) (slots e) \<longrightarrow>
        (\<exists>i. slot_state (slots e ! i) = Pending \<and> snd (WorkerHead e) = Performing i
           \<and> (\<forall>timed_out g. snd (WorkerWake timed_out g e) = Performing i)))"
proof (intro conjI impI)
  have inv: "engine_inv (e, ws)" by (rule reachable_inv [OF assms])
  note pool = engine_invD(3) [OF inv]
  show "count_slots (\<lambda>s. slot_state s = Pending) (slots e)
      \<le> count_slots (\<lambda>w. w = Starting \<or> is_idle w \<and> notified w) ws"
  proof (cases "Pending \<in> set (map slot_state (slots e))")
    case True
    have "count_slots (\<lambda>w. w = Starting \<or> is_idle w \<and> notified w) vs = count_slots is_idle vs + count_slots (\<lambda>w. w = Starting) vs"
      if "\<forall>w\<in>set vs. notified w" for vs using that
    proof (induction vs)
      case (Cons v vs)
      then show ?case by (cases v) auto
    qed simp
    then show ?thesis using pool_invD(3,8,9) [OF pool] True by (simp add: pending_count)
  next
    case False
    then have "count_slots (\<lambda>s. slot_state s = Pending) (slots e) = 0"
      unfolding pending_count count_slots_0 by blast
    then show ?thesis by simp
  qed
  assume "0 < count_slots (\<lambda>s. slot_state s = Pending) (slots e)"
  then obtain i where i: "FindPendingSlotLocked e = Some i"
    by (cases "FindPendingSlotLocked e") (auto simp: FindPendingSlot_None count_slots_pos image_iff)
  then show "\<exists>i. slot_state (slots e ! i) = Pending \<and> snd (WorkerHead e) = Performing i
      \<and> (\<forall>timed_out g. snd (WorkerWake timed_out g e) = Performing i)"
    using FindPendingSlot_Some [OF i] by (auto simp: WorkerHead_def WorkerWake_def WorkerTake_def)
qed

theorem no_request_stranded_witness:
  "count_slots (\<lambda>s. slot_state s = Pending) (slots (fst dispatched))
     \<le> count_slots (\<lambda>w. w = Starting \<or> is_idle w \<and> notified w) [Starting]"
  using no_request_stranded [of "fst dispatched" "snd dispatched"] reachable_dispatched
  by (simp add: dispatched_def)

text \<open>
  When a dispatch needs a new thread: with the new request there are more queued requests than idle
  workers, and the pool is not full.
\<close>

definition thread_needed :: "engine \<Rightarrow> bool" where
  "thread_needed e \<longleftrightarrow>
     unat (idleWorkers e) \<le> count_slots (\<lambda>s. slot_state s = Pending) (slots e) \<and> unat (liveWorkers e) < 8"

lemma needs_worker_queue:
  assumes "length (slots e) = 8" "FindSlotForDispatchLocked e = Some i"
  shows "needs_worker (queue_in i newId n client request e) \<longleftrightarrow> thread_needed e"
proof -
  have i: "i < length (map slot_state (slots e))" "map slot_state (slots e) ! i \<noteq> Pending"
    using FindSlotForDispatch_Some [OF assms(2)] by (auto simp: occupied_def)
  have "map slot_state (slots (queue_in i newId n client request e)) = (map slot_state (slots e))[i := Pending]"
    by (simp add: queue_in_def queued_slot_def map_update)
  then have "count_slots (\<lambda>s. s = Pending) (map slot_state (slots (queue_in i newId n client request e))) =
      count_slots (\<lambda>s. slot_state s = Pending) (slots e) + 1"
    using count_state [OF i(1), of "\<lambda>s. s = Pending" Pending] i(2) by (simp add: pending_count)
  moreover have "length (slots (queue_in i newId n client request e)) = 8" using assms(1) by (simp add: queue_in_def)
  moreover have "idleWorkers (queue_in i newId n client request e) = idleWorkers e"
    "liveWorkers (queue_in i newId n client request e) = liveWorkers e" by (simp_all add: queue_in_def)
  ultimately show ?thesis using needs_worker_iff [of "queue_in i newId n client request e"]
    by (simp add: thread_needed_def less_Suc_eq_le)
qed

lemma empty_slot_free: "\<not> occupied empty_slot"
  by (simp add: occupied_def empty_slot_def)

text \<open>What a dispatch leaves behind, by its outcome.\<close>

lemma dispatch_outcomes:
  assumes "length (slots e) = 8" "Dispatch client request seed copy_throws start e = Some ((st, k), e', new)"
  shows "st = (if list_all occupied (slots e) then Returned NoFreeRequestSlot
         else if copy_throws then Threw
         else if \<not> thread_needed e \<or> start = Started then Returned Ok
         else if start = ContextThrows then Threw else Returned AsyncStartFailed)
    \<and> (st = Returned NoFreeRequestSlot \<longrightarrow> e' = e)
    \<and> (st \<noteq> Returned Ok \<longrightarrow> k = 0 \<and> new = [] \<and> liveWorkers e' = liveWorkers e)
    \<and> (st = Returned AsyncStartFailed \<longrightarrow>
        (\<exists>i < 8. \<not> occupied (slots e ! i) \<and> slots e' = (slots e)[i := empty_slot]) \<and> moduleRefs e' = moduleRefs e)
    \<and> (st = Threw \<and> copy_throws \<longrightarrow>
        (\<exists>i < 8. \<exists>s. \<not> occupied (slots e ! i) \<and> \<not> occupied s \<and> slots e' = (slots e)[i := s]) \<and> moduleRefs e' = moduleRefs e)
    \<and> (st = Threw \<and> \<not> copy_throws \<longrightarrow>
        (\<exists>i < 8. \<exists>newId. \<not> occupied (slots e ! i) \<and> newId \<noteq> 0 \<and> \<not> IsIdLiveLocked e newId
           \<and> slots e' = (slots e)[i := queued_slot i newId client request]) \<and> moduleRefs e' = moduleRefs e + 1)
    \<and> (st = Returned Ok \<longrightarrow> k \<noteq> 0 \<and> \<not> IsIdLiveLocked e k \<and> Poll k e' = (Ok, 1)
        \<and> new = (if thread_needed e then [Starting] else [])
        \<and> (\<exists>i < 8. \<not> occupied (slots e ! i) \<and> slots e' = (slots e)[i := queued_slot i k client request]))"
proof -
  have occ: "FindSlotForDispatchLocked e = None \<longleftrightarrow> list_all occupied (slots e)"
    by (auto simp: FindSlotForDispatchLocked_def first_index_None occupied_def list_all_iff)
  have free: "i < 8 \<and> \<not> occupied (slots e ! i) \<and> \<not> list_all occupied (slots e)" if "FindSlotForDispatchLocked e = Some i" for i
    using FindSlotForDispatch_Some [OF that] occ that assms(1) by auto
  have fresh: "k \<noteq> 0 \<and> \<not> IsIdLiveLocked e k" if "mint_request_id (IsIdLiveLocked e) c = Some (k, n)" for k n c
    using request_id_mints [OF assms(1), of c] that by auto
  from assms(2) show ?thesis
  proof (cases rule: Dispatch_cases)
    case Full
    then show ?thesis using occ by simp
  next
    case (CopyThrows i newId n)
    have "\<not> occupied ((FreeSlotContentsLocked (slots e ! i))\<lparr>async_id := newId, slot_client := Some client\<rparr>)"
      using free [OF CopyThrows(1)] by (simp add: FreeSlotContentsLocked_def occupied_def)
    then show ?thesis using CopyThrows(3-6) free [OF CopyThrows(1)] by auto
  next
    case (Spare i newId n)
    then have "Poll newId e' = (Ok, 1)"
      using queued_polls [OF assms(1), of i newId] free [OF Spare(1)] fresh [OF Spare(2)] by (simp add: queue_in_def)
    then show ?thesis using Spare free [OF Spare(1)] fresh [OF Spare(2)] needs_worker_queue [OF assms(1) Spare(1)]
      by (auto simp: queue_in_def)
  next
    case (Spawned i newId n)
    then have "Poll newId e' = (Ok, 1)"
      using queued_polls [OF assms(1), of i newId] free [OF Spawned(1)] fresh [OF Spawned(2)] by (simp add: queue_in_def)
    then show ?thesis using Spawned free [OF Spawned(1)] fresh [OF Spawned(2)] needs_worker_queue [OF assms(1) Spawned(1)]
      by (auto simp: queue_in_def)
  next
    case (Refused i newId n)
    then show ?thesis using free [OF Refused(1)] needs_worker_queue [OF assms(1) Refused(1)] by auto
  next
    case (Stranded i newId n)
    then show ?thesis using free [OF Stranded(1)] fresh [OF Stranded(2)] needs_worker_queue [OF assms(1) Stranded(1)]
      by (auto simp: queue_in_def)
  qed
qed

text \<open>C19: Dispatching, on every branch. The call always returns or throws: with eight slots there is an
  id to mint. Its outcome is a function of the table and of what the environment answers: if all
  eight slots hold requests, \<open>NoFreeRequestSlot\<close>, and then nothing changes; else if the copy of
  the request finds no memory it throws, with its slot free as before; else success, unless a
  thread is needed (with the new request there are more queued requests than idle workers, and
  the pool is not full) and does not start. Then it is \<open>AsyncStartFailed\<close>, with the slot free and
  empty again and no module reference kept, or, if the start context found no memory, it throws:
  this one failure leaves the request queued under an id nobody was told, and keeps the module
  reference. In every failure the id handed out is 0 and no thread was started, and in all but the
  last no request is queued. On success the id is new and nonzero, the request is in the table
  unchanged but for the slot's cancel flag, is not complete, and every other slot is as before; a
  thread is started exactly when one is needed.
\<close>

theorem dispatch_exact:
  assumes "reachable (e, ws)"
  shows "\<exists>st k e' new. Dispatch client request seed copy_throws start e = Some ((st, k), e', new)
    \<and> st = (if list_all occupied (slots e) then Returned NoFreeRequestSlot
         else if copy_throws then Threw
         else if \<not> thread_needed e \<or> start = Started then Returned Ok
         else if start = ContextThrows then Threw else Returned AsyncStartFailed)
    \<and> (st = Returned NoFreeRequestSlot \<longrightarrow> e' = e)
    \<and> (st = Returned AsyncStartFailed \<longrightarrow> start \<in> {NoModule, NoThread}
        \<and> (\<exists>i < 8. \<not> occupied (slots e ! i) \<and> slots e' = (slots e)[i := empty_slot]) \<and> moduleRefs e' = moduleRefs e)
    \<and> (st = Threw \<and> copy_throws \<longrightarrow>
        (\<exists>i < 8. \<exists>s. \<not> occupied (slots e ! i) \<and> \<not> occupied s \<and> slots e' = (slots e)[i := s]) \<and> moduleRefs e' = moduleRefs e)
    \<and> (st = Threw \<and> \<not> copy_throws \<longrightarrow>
        (\<exists>i < 8. \<exists>newId. \<not> occupied (slots e ! i) \<and> newId \<noteq> 0 \<and> \<not> IsIdLiveLocked e newId
           \<and> slots e' = (slots e)[i := queued_slot i newId client request]) \<and> moduleRefs e' = moduleRefs e + 1)
    \<and> (st \<noteq> Returned Ok \<longrightarrow> k = 0 \<and> new = [] \<and> liveWorkers e' = liveWorkers e)
    \<and> (st \<noteq> Returned Ok \<and> (st = Threw \<longrightarrow> copy_throws) \<longrightarrow>
        count_slots (\<lambda>s. slot_state s = Pending) (slots e') = count_slots (\<lambda>s. slot_state s = Pending) (slots e))
    \<and> (st = Returned Ok \<longrightarrow> k \<noteq> 0 \<and> \<not> IsIdLiveLocked e k \<and> Poll k e' = (Ok, 1)
        \<and> new = (if thread_needed e then [Starting] else [])
        \<and> (\<exists>i < 8. \<not> occupied (slots e ! i) \<and> slots e' = (slots e)[i := queued_slot i k client request]))"
proof -
  note len = engine_invD(2) [OF reachable_inv [OF assms]]
  obtain st k e' new where d: "Dispatch client request seed copy_throws start e = Some ((st, k), e', new)"
    using Dispatch_returns [OF len, of client request seed copy_throws start] by (metis not_Some_eq prod.exhaust)
  note out = dispatch_outcomes [OF len d]
  have same: "count_slots (\<lambda>s. slot_state s = Pending) ((slots e)[i := s]) = count_slots (\<lambda>s. slot_state s = Pending) (slots e)"
    if "i < 8" "\<not> occupied (slots e ! i)" "\<not> occupied s" for i s
    using that len by (auto simp: count_state occupied_def)
  have "count_slots (\<lambda>s. slot_state s = Pending) (slots e') = count_slots (\<lambda>s. slot_state s = Pending) (slots e)"
    if fail: "st \<noteq> Returned Ok" "st = Threw \<longrightarrow> copy_throws"
  proof -
    have "e' = e \<or> (\<exists>i < 8. \<exists>s. \<not> occupied (slots e ! i) \<and> \<not> occupied s \<and> slots e' = (slots e)[i := s])"
      using out fail empty_slot_free by (auto split: if_splits)
    with same show ?thesis by auto
  qed
  moreover have "start \<in> {NoModule, NoThread}" if "st = Returned AsyncStartFailed"
    using out that by (cases start) (auto split: if_splits)
  ultimately show ?thesis using d out by (intro exI [of _ st] exI [of _ k] exI [of _ e'] exI [of _ new]) blast
qed

text \<open>A first dispatch whose start context finds no memory, and one that is refused a thread.\<close>

theorem dispatch_exact_witness:
  "(\<exists>e'. Dispatch sample_transport HttpRequest_default 7 False ContextThrows AsyncEngine = Some ((Threw, 0), e', [])
      \<and> moduleRefs e' = 1)
   \<and> (\<exists>e'. Dispatch sample_transport HttpRequest_default 7 False NoThread AsyncEngine = Some ((Returned AsyncStartFailed, 0), e', [])
      \<and> count_slots (\<lambda>s. slot_state s = Pending) (slots e') = 0)"
proof -
  have start: "\<not> list_all occupied (slots AsyncEngine)" "thread_needed AsyncEngine" "moduleRefs AsyncEngine = 0"
    "count_slots (\<lambda>s. slot_state s = Pending) (slots AsyncEngine) = 0"
    by (simp_all add: thread_needed_def AsyncEngine_def kAsyncRequestSlotCount_def empty_slot_def occupied_def eight_slots)
  show ?thesis
    using dispatch_exact [OF reachable.start, of sample_transport HttpRequest_default 7 False ContextThrows]
      dispatch_exact [OF reachable.start, of sample_transport HttpRequest_default 7 False NoThread] start
    by (auto split: if_splits)
qed

text \<open>C21: Reading. A request that is not known or not complete gives the matching status and touches
  nothing. For a complete one the transport's status, the HTTP status and the true body length are
  always delivered, and the body is copied like any text; when the copy succeeds the id is gone,
  and when it does not (say the buffer was too small) nothing changes, so that the caller can try
  again with a buffer of the length it was told.
\<close>

theorem read_exact:
  assumes "reachable (e, ws)" "buf_ok buffer n"
  shows "(Poll k e = (UnknownRequestId, 0) \<longrightarrow> Read k buffer n e = Some ((UnknownRequestId, buffer, 0, 0, 0), e))
    \<and> (Poll k e = (Ok, 1) \<longrightarrow> Read k buffer n e = Some ((RequestNotComplete, buffer, 0, 0, 0), e))
    \<and> (Poll k e = (Ok, 2) \<longrightarrow>
        (\<exists>i st buffer' e'. async_id (slots e ! i) = k \<and> slot_state (slots e ! i) = Complete
           \<and> CopyToBuffer (response_body (slot_response (slots e ! i))) buffer n = Some (st, buffer')
           \<and> Read k buffer n e = Some ((st, buffer', status_word (transportStatus (slots e ! i)),
                statusCode (slot_response (slots e ! i)), of_nat (length (response_body (slot_response (slots e ! i))))), e')
           \<and> (if st = Ok then Poll k e' = (UnknownRequestId, 0) else e' = e)))"
proof (intro conjI impI)
  have inv: "engine_inv (e, ws)" by (rule reachable_inv [OF assms(1)])
  show "Read k buffer n e = Some ((UnknownRequestId, buffer, 0, 0, 0), e)" if "Poll k e = (UnknownRequestId, 0)"
    using that by (simp add: Poll_unknown Read_def)
  show "Read k buffer n e = Some ((RequestNotComplete, buffer, 0, 0, 0), e)" if "Poll k e = (Ok, 1)"
    using that by (auto simp: Poll_def Read_def Let_def split: option.splits if_splits)
  assume "Poll k e = (Ok, 2)"
  then obtain i where i: "FindLiveSlotLocked k e = Some i" "slot_state (slots e ! i) = Complete"
    by (auto simp: Poll_complete)
  obtain st buffer' where copy: "CopyToBuffer (response_body (slot_response (slots e ! i))) buffer n = Some (st, buffer')"
    using CopyToBuffer_frame [OF assms(2)] by blast
  let ?e = "update_slot i (\<lambda>s. s\<lparr>slot_state := Consumed\<rparr>) e"
  have read: "Read k buffer n e = Some ((st, buffer', status_word (transportStatus (slots e ! i)),
      statusCode (slot_response (slots e ! i)), of_nat (length (response_body (slot_response (slots e ! i))))),
      if st = Ok then ?e else e)"
    using i copy by (simp add: Read_def Let_def)
  then have "engine_inv (if st = Ok then ?e else e, ws)" by (rule read_inv [OF inv])
  then have "Poll k ?e = (UnknownRequestId, 0)" if "st = Ok"
    using that consumed_gone [OF engine_invD(1) [OF inv] engine_invD(1) i(1)] by (simp add: Poll_unknown)
  with read copy i FindLiveSlot_Some [OF i(1)]
  show "\<exists>i st buffer' e'. async_id (slots e ! i) = k \<and> slot_state (slots e ! i) = Complete
      \<and> CopyToBuffer (response_body (slot_response (slots e ! i))) buffer n = Some (st, buffer')
      \<and> Read k buffer n e = Some ((st, buffer', status_word (transportStatus (slots e ! i)),
           statusCode (slot_response (slots e ! i)), of_nat (length (response_body (slot_response (slots e ! i))))), e')
      \<and> (if st = Ok then Poll k e' = (UnknownRequestId, 0) else e' = e)"
    by (intro exI [of _ i] exI [of _ st] exI [of _ buffer'] exI [of _ "if st = Ok then ?e else e"]) simp
qed

theorem read_exact_witness:
  "\<exists>i st buffer' e'. CopyToBuffer (response_body (slot_response (slots (fst completed) ! i))) (Buf ''12345678'') 8 = Some (st, buffer')
    \<and> (if st = Ok then Poll 7 e' = (UnknownRequestId, 0) else e' = fst completed)"
  using read_exact [of "fst completed" "snd completed" "Buf ''12345678''" 8 7] reachable_completed completed_polls
  by fastforce

text \<open>CAPL never sees a cancelled request: whatever a read delivers, the transport status is not
  \<open>RequestCancelled\<close>. Cancelling happens to discarded requests only, and their results are dropped.
\<close>

theorem cancelled_never_read:
  assumes "reachable (e, ws)"
    and "Read k buffer n e = Some ((st, buffer', requestStatus, httpStatusCode, len), e')"
  shows "requestStatus \<noteq> status_word RequestCancelled"
proof (cases "FindLiveSlotLocked k e")
  case None
  with assms(2) have "requestStatus = status_word Ok" by (simp add: Read_def status_word_def)
  then show ?thesis by simp
next
  case (Some i)
  have inv: "engine_inv (e, ws)" by (rule reachable_inv [OF assms(1)])
  have "i < 8" using FindLiveSlot_Some [OF Some] engine_invD(2) [OF inv] by simp
  note ok = table_okD(1) [OF engine_invD(1) [OF inv] this]
  show ?thesis
  proof (cases "slot_state (slots e ! i) = Complete")
    case True
    then have "requestStatus = status_word (transportStatus (slots e ! i))"
      using assms(2) Some by (auto simp: Read_def Let_def split: Option.bind_splits prod.splits)
    then show ?thesis using ok True by (simp add: slot_ok_def)
  next
    case False
    with assms(2) Some have "requestStatus = status_word Ok" by (simp add: Read_def status_word_def)
    then show ?thesis by simp
  qed
qed

theorem cancelled_never_read_witness:
  "status_word Ok \<noteq> status_word RequestCancelled"
proof -
  obtain e' where "Read 7 (Buf ''12345678'') 8 (fst completed) = Some ((Ok, Buf (''hello'' @ NUL # ''78''), status_word Ok, 200, 5), e')"
    using sample_read by blast
  from cancelled_never_read [OF _ this, of "snd completed"] reachable_completed show ?thesis by simp
qed



text \<open>A finished transfer reaches CAPL. If its request was not discarded meanwhile, the request is
  complete from then on with the transfer's own result and response; if it was, the result is
  dropped and the slot is free.
\<close>

theorem finish_exact:
  assumes "reachable (e, ws)" "w < length ws" "ws ! w = Performing i"
    and "WorkerFinish i result response e = (e', x)"
  shows "if slot_state (slots e ! i) = Abandoned then slots e' ! i = empty_slot
       else slot_state (slots e ! i) = Running \<and> slot_state (slots e' ! i) = Complete
         \<and> async_id (slots e' ! i) = async_id (slots e ! i)
         \<and> transportStatus (slots e' ! i) = result \<and> slot_response (slots e' ! i) = response"
proof -
  have inv: "engine_inv (e, ws)" by (rule reachable_inv [OF assms(1)])
  note slot = performer_slot [OF inv assms(2,3)]
  have i: "i < length (slots e)" using slot(1) engine_invD(2) [OF inv] by simp
  have free: "(FreeSlotContentsLocked s)\<lparr>slot_state := Free\<rparr> = empty_slot" for s
    by (cases s) (simp add: FreeSlotContentsLocked_def empty_slot_def)
  show ?thesis
  proof (cases "slot_state (slots e ! i) = Abandoned")
    case True
    with assms(4) have "WorkerHead (update_slot i (\<lambda>s. (FreeSlotContentsLocked s)\<lparr>slot_state := Free\<rparr>) e) = (e', x)"
      by (simp add: WorkerFinish_def)
    from head_spares [OF this, of i] i free True show ?thesis by (simp add: empty_slot_def)
  next
    case False
    with assms(4) have "WorkerHead (update_slot i (\<lambda>s. s\<lparr>slot_response := response, transportStatus := result,
        slot_state := Complete\<rparr>) e) = (e', x)"
      by (simp add: WorkerFinish_def)
    from head_spares [OF this, of i] i False slot(2) show ?thesis by (simp add: busy_def)
  qed
qed

theorem finish_exact_witness:
  "slot_response (slots (fst completed) ! 0) = sample_body"
  using finish_exact [of "fst performing" "snd performing" 0 0, OF _ _ _ sample_finish] reachable_performing
  by (simp add: performing_slots queued_slot_def) (simp add: performing_def)

text \<open>C25: A complete response stays. Whatever happens next, the response of a complete request and its
  status are unchanged and still to be read, unless this step is itself a read or discard that
  ends the id; no worker and no dispatch can take it away.
\<close>

theorem response_stays:
  assumes "reachable (e, ws)" "engine_step (e, ws) (e', ws')" "Poll k e = (Ok, 2)"
  shows "(\<exists>i. async_id (slots e ! i) = k \<and> slot_state (slots e ! i) = Complete
        \<and> slots e' ! i = slots e ! i \<and> Poll k e' = (Ok, 2))
    \<or> Poll k e' = (UnknownRequestId, 0)
      \<and> ((\<exists>k' buffer n r. Read k' buffer n e = Some (r, e')) \<or> (\<exists>k' st. Discard k' e = (st, e'))
         \<or> (\<exists>r. DiscardAll e = (r, e')))"
proof -
  have inv: "engine_inv (e, ws)" and inv': "engine_inv (e', ws')"
    using reachable_inv [OF assms(1)] step_inv [OF assms(2)] by simp_all
  note table = engine_invD(1) [OF inv] and table' = engine_invD(1) [OF inv']
  obtain i where i: "FindLiveSlotLocked k e = Some i" "slot_state (slots e ! i) = Complete"
    using assms(3) by (auto simp: Poll_complete)
  have same: ?thesis if "slots e' ! i = slots e ! i"
    using that i found_iff [OF table, of k i] found_iff [OF table', of k i] by (auto simp: Poll_complete)
  have gone: "Poll k e' = (UnknownRequestId, 0)" if "e' = update_slot i (\<lambda>s. s\<lparr>slot_state := Consumed\<rparr>) e"
    using consumed_gone [OF table _ i(1)] table' that by (simp add: Poll_unknown)
  show ?thesis
    using assms(2)
  proof (cases rule: engine_step.cases)
    case (dispatch client request seed copy_throws start st k' new)
    then show ?thesis using dispatch_keeps [of client request seed copy_throws start e _ e' new i] i(2)
      by (intro same) (auto simp: occupied_def)
  next
    case (read k' buffer n r)
    then show ?thesis using read_spares [OF read(2), of i] same gone by blast
  next
    case (discard k' st)
    then show ?thesis using discard_spares [OF discard(2) i(2)] same gone by blast
  next
    case (discard_all r)
    then show ?thesis using discard_all_unknown [OF inv discard_all(2), of k] by blast
  next
    case (head w x)
    then show ?thesis using i(2) by (intro same head_spares) auto
  next
    case (wake w g woken t x)
    then show ?thesis using i(2) by (intro same wake_spares) auto
  next
    case (finish w j result response x)
    have "i \<noteq> j" using performer_slot(2) [OF inv finish(2,3)] i(2) by (auto simp: busy_def)
    then show ?thesis using i(2) finish_spares [OF finish(5)] by (intro same) auto
  qed
qed

theorem response_stays_witness:
  "Poll 7 (snd (DiscardAll (fst completed))) \<in> {(Ok, 2), (UnknownRequestId, 0)}"
proof -
  have "engine_step (fst completed, snd completed) (snd (DiscardAll (fst completed)), map notify (snd completed))"
    by (rule engine_step.discard_all [of _ "fst (DiscardAll (fst completed))"]) simp
  from response_stays [OF _ this completed_polls] reachable_completed show ?thesis by auto
qed

text \<open>The result of a wait, in terms of what a poll would say.\<close>

definition true_result :: "u32 \<Rightarrow> status \<Rightarrow> bool \<Rightarrow> engine \<Rightarrow> bool" where
  "true_result k st timed_out e \<longleftrightarrow>
     st = Ok \<and> Poll k e = (Ok, 2) \<or> st = UnknownRequestId \<and> Poll k e = (UnknownRequestId, 0)
     \<or> st = WaitTimeout \<and> timed_out \<and> Poll k e = (Ok, 1)"

lemma AwaitWakeups_Poll:
  "AwaitWakeups k ((t, e) # wakeups) =
     (if Poll k e = (UnknownRequestId, 0) then Some UnknownRequestId
      else if Poll k e = (Ok, 2) then Some Ok
      else if t then Some WaitTimeout else AwaitWakeups k wakeups)"
  by (auto simp: Poll_def split: option.split)

lemma AwaitWakeups_exact:
  "AwaitWakeups k wakeups = Some st \<Longrightarrow> \<exists>(t, e) \<in> set wakeups. true_result k st t e"
proof (induction wakeups)
  case (Cons w wakeups)
  obtain t e where w: "w = (t, e)" by force
  show ?case
  proof (cases "Poll k e = (Ok, 1) \<and> \<not> t")
    case True
    then show ?thesis using Cons w by (auto simp: AwaitWakeups_Poll simp del: AwaitWakeups.simps)
  next
    case False
    then have "true_result k st t e" using Cons.prems w Poll_range [of k e]
      by (auto simp: AwaitWakeups_Poll true_result_def simp del: AwaitWakeups.simps split: if_splits)
    then show ?thesis using w by auto
  qed
qed simp

lemma AwaitWakeups_returns: "(True, e) \<in> set wakeups \<Longrightarrow> AwaitWakeups k wakeups \<noteq> None"
  by (induction k wakeups rule: AwaitWakeups.induct) (auto split: option.splits)

lemma Await_Poll:
  "Await k waitMs e wakeups =
     (if Poll k e = (UnknownRequestId, 0) then (Some UnknownRequestId, None)
      else if Poll k e = (Ok, 2) then (Some Ok, None)
      else (AwaitWakeups k wakeups,
        Some (resolvedTimeoutMs waitMs (slots e ! the (FindLiveSlotLocked k e)))))"
  by (auto simp: Await_def Poll_def split: option.split)

lemma resolvedTimeout_pos: "resolvedTimeoutMs waitMs slot \<noteq> 0"
  by (simp add: resolvedTimeoutMs_def kDefaultAwaitTimeoutMs_def)

text \<open>C31: Waiting. A wait that returns tells the truth about the moment it returned: \<open>Ok\<close> means the
  request was complete then, \<open>UnknownRequestId\<close> that its id was gone, \<open>WaitTimeout\<close> that the wait had
  timed out with the request still not complete. It waits at all only for a request that is not
  complete, with a positive time limit, and the first wake-up by that limit ends it.
\<close>

theorem await_exact:
  "(fst (Await k waitMs e wakeups) = Some st \<longrightarrow>
      (\<exists>(t, e') \<in> insert (False, e) (set wakeups). true_result k st t e'))
   \<and> (snd (Await k waitMs e wakeups) = Some ms \<longrightarrow> Poll k e = (Ok, 1) \<and> ms \<noteq> 0)
   \<and> ((True, e') \<in> set wakeups \<longrightarrow> fst (Await k waitMs e wakeups) \<noteq> None)"
proof (cases "Poll k e = (Ok, 1)")
  case True
  then show ?thesis
    using AwaitWakeups_exact [of k wakeups st] AwaitWakeups_returns [of e' wakeups k] resolvedTimeout_pos
    by (auto simp: Await_Poll)
next
  case False
  then have "Poll k e = (Ok, 2) \<or> Poll k e = (UnknownRequestId, 0)" using Poll_range [of k e] by auto
  then show ?thesis by (auto simp: Await_Poll true_result_def)
qed

theorem await_exact_witness:
  "fst (Await 7 0 (fst performing) [(False, fst performing), (False, fst completed)]) = Some Ok
    \<and> (\<exists>(t, e') \<in> insert (False, fst performing) (set [(False, fst performing), (False, fst completed)]).
        true_result 7 Ok t e')"
proof -
  have "fst (Await 7 0 (fst performing) [(False, fst performing), (False, fst completed)]) = Some Ok" by code_simp
  with await_exact [of 7 0 "fst performing" "[(False, fst performing), (False, fst completed)]" Ok 0 "fst performing"]
  show ?thesis by blast
qed

text \<open>What the engine does when the allocation of a thread's start context fails. The exception
  leaves the dispatch with no id handed out, but the request stays queued with no worker on its
  way, and the module reference taken for the thread is never given back.
\<close>

theorem start_context_failure:
  "\<exists>e'. Dispatch sample_transport HttpRequest_default 7 False ContextThrows AsyncEngine = Some ((Threw, 0), e', [])
    \<and> count_slots (\<lambda>s. slot_state s = Pending) (slots e') = 1
    \<and> liveWorkers e' = 0 \<and> moduleRefs e' = 1"
proof -
  have find: "FindSlotForDispatchLocked AsyncEngine = Some 0" by code_simp
  show ?thesis
    unfolding Dispatch_def Let_def find option.case start_freed start_mints prod.case
    by (simp add: update_slot_def CountPendingSlotsLocked_def StartWorkerLocked_def Let_def
        kAsyncRequestSlotCount_def AsyncEngine_def empty_slot_def eight_slots)
qed

end
