(* ===== verification/Async_Text_Api.thy ===== *)
theory Async_Text_Api
  imports Sync_Text_Api Async_Properties
begin

text \<open>
  \<open>src/http/async-text-api.cpp\<close>: the asynchronous requests over texts in caller memory. Each
  call reads its texts as the synchronous one does and hands the request to the engine. As in
  \<open>Dispatch\<close>, \<open>seed\<close>, \<open>copy_throws\<close> and \<open>start\<close> are what the environment does during the call;
  \<open>memory\<close> is the memory for the texts, which are copied here outside every handler.
\<close>

section \<open>Operations\<close>

type_synonym dispatch_result = "(status outcome \<times> u32) \<times> engine \<times> worker list"

definition DispatchNoBodyVerb ::
  "transport \<Rightarrow> text_memory \<Rightarrow> u32 \<Rightarrow> bool \<Rightarrow> start_result \<Rightarrow> HttpMethod \<Rightarrow> cbuf \<Rightarrow> u32 \<Rightarrow> cbuf \<Rightarrow> u32 \<Rightarrow> engine \<Rightarrow>
     dispatch_result option" where
  "DispatchNoBodyVerb client memory seed copy_throws start meth urlText urlSize headersText headersSize e =
     (let requestId = 0 in do {
        (st, urlView) \<leftarrow> BoundedText urlText urlSize None;
        if st \<noteq> Ok then Some ((Returned st, requestId), e, [])
        else do {
          (st, headersView) \<leftarrow> BoundedText headersText headersSize None;
          if st \<noteq> Ok then Some ((Returned st, requestId), e, [])
          else
            (case ParseHeaderBlock memory (sv_text headersView) [] of
               (Threw, _) \<Rightarrow> Some ((Threw, requestId), e, [])
             | (Returned st, headers) \<Rightarrow>
                 if st \<noteq> Ok then Some ((Returned st, requestId), e, [])
                 else if sv_text urlView = [] then Some ((Returned InvalidArgument, requestId), e, [])
                 else if copy_fails memory then Some ((Threw, requestId), e, [])
                 else
                   let request = HttpRequest_default\<lparr>request_method := meth, request_url := sv_text urlView,
                         request_headers := headers, request_options := MakeRequestOptions 0 0 0\<rparr>
                   in Dispatch client request seed copy_throws start e)
        }
      })"

definition DispatchBodyVerb ::
  "transport \<Rightarrow> text_memory \<Rightarrow> u32 \<Rightarrow> bool \<Rightarrow> start_result \<Rightarrow> HttpMethod \<Rightarrow> cbuf \<Rightarrow> u32 \<Rightarrow> cbuf \<Rightarrow> u32 \<Rightarrow> cbuf \<Rightarrow> u32 \<Rightarrow> engine \<Rightarrow>
     dispatch_result option" where
  "DispatchBodyVerb client memory seed copy_throws start meth urlText urlSize headersText headersSize bodyText bodySize e =
     (let requestId = 0 in do {
        (st, urlView) \<leftarrow> BoundedText urlText urlSize None;
        if st \<noteq> Ok then Some ((Returned st, requestId), e, [])
        else do {
          (st, headersView) \<leftarrow> BoundedText headersText headersSize None;
          if st \<noteq> Ok then Some ((Returned st, requestId), e, [])
          else do {
            (st, bodyView) \<leftarrow> BoundedText bodyText bodySize None;
            if st \<noteq> Ok then Some ((Returned st, requestId), e, [])
            else
              (case ParseHeaderBlock memory (sv_text headersView) [] of
                 (Threw, _) \<Rightarrow> Some ((Threw, requestId), e, [])
               | (Returned st, headers) \<Rightarrow>
                   if st \<noteq> Ok then Some ((Returned st, requestId), e, [])
                   else if sv_text urlView = [] then Some ((Returned InvalidArgument, requestId), e, [])
                   else if copy_fails memory then Some ((Threw, requestId), e, [])
                   else
                     let request = HttpRequest_default\<lparr>request_method := meth, request_url := sv_text urlView,
                           request_headers := headers, request_body := sv_text bodyView,
                           request_options := MakeRequestOptions 0 0 0\<rparr>
                     in Dispatch client request seed copy_throws start e)
          }
        }
      })"

definition DispatchGetAsync where
  "DispatchGetAsync client memory seed copy_throws start urlText urlSize headersText headersSize e =
     DispatchNoBodyVerb client memory seed copy_throws start Get urlText urlSize headersText headersSize e"

definition DispatchDeleteAsync where
  "DispatchDeleteAsync client memory seed copy_throws start urlText urlSize headersText headersSize e =
     DispatchNoBodyVerb client memory seed copy_throws start Delete urlText urlSize headersText headersSize e"

definition DispatchPostAsync where
  "DispatchPostAsync client memory seed copy_throws start urlText urlSize headersText headersSize bodyText bodySize e =
     DispatchBodyVerb client memory seed copy_throws start Post urlText urlSize headersText headersSize bodyText bodySize e"

definition DispatchPutAsync where
  "DispatchPutAsync client memory seed copy_throws start urlText urlSize headersText headersSize bodyText bodySize e =
     DispatchBodyVerb client memory seed copy_throws start Put urlText urlSize headersText headersSize bodyText bodySize e"

definition DispatchPatchAsync where
  "DispatchPatchAsync client memory seed copy_throws start urlText urlSize headersText headersSize bodyText bodySize e =
     DispatchBodyVerb client memory seed copy_throws start Patch urlText urlSize headersText headersSize bodyText bodySize e"

definition DispatchRequestAsync ::
  "transport \<Rightarrow> text_memory \<Rightarrow> u32 \<Rightarrow> bool \<Rightarrow> start_result \<Rightarrow> cbuf \<Rightarrow> u32 \<Rightarrow> cbuf \<Rightarrow> u32 \<Rightarrow> cbuf \<Rightarrow> u32 \<Rightarrow> cbuf \<Rightarrow> u32 \<Rightarrow>
     u32 \<Rightarrow> u32 \<Rightarrow> u32 \<Rightarrow> engine \<Rightarrow> dispatch_result option" where
  "DispatchRequestAsync client memory seed copy_throws start methodText methodSize urlText urlSize headersText headersSize
     bodyText bodySize connectMs totalMs maxBytes e =
     (let requestId = 0 in do {
        (st, methodView) \<leftarrow> BoundedText methodText methodSize None;
        if st \<noteq> Ok then Some ((Returned st, requestId), e, [])
        else do {
          (st, urlView) \<leftarrow> BoundedText urlText urlSize None;
          if st \<noteq> Ok then Some ((Returned st, requestId), e, [])
          else do {
            (st, headersView) \<leftarrow> BoundedText headersText headersSize None;
            if st \<noteq> Ok then Some ((Returned st, requestId), e, [])
            else do {
              (st, bodyView) \<leftarrow> BoundedText bodyText bodySize None;
              if st \<noteq> Ok then Some ((Returned st, requestId), e, [])
              else
                let (st, meth) = ParseMethodText (sv_text methodView) Get
                in if st \<noteq> Ok then Some ((Returned st, requestId), e, [])
                   else
                     (case ParseHeaderBlock memory (sv_text headersView) [] of
                        (Threw, _) \<Rightarrow> Some ((Threw, requestId), e, [])
                      | (Returned st, headers) \<Rightarrow>
                          if st \<noteq> Ok then Some ((Returned st, requestId), e, [])
                          else if sv_text urlView = [] then Some ((Returned InvalidArgument, requestId), e, [])
                          else if MethodForbidsBody meth \<and> sv_text bodyView \<noteq> []
                          then Some ((Returned InvalidArgument, requestId), e, [])
                          else if copy_fails memory then Some ((Threw, requestId), e, [])
                          else
                            let request = HttpRequest_default\<lparr>request_method := meth, request_url := sv_text urlView,
                                  request_headers := headers, request_body := sv_text bodyView,
                                  request_options := MakeRequestOptions connectMs totalMs maxBytes\<rparr>
                            in Dispatch client request seed copy_throws start e)
            }
          }
        }
      })"

definition PollAsyncResponse where "PollAsyncResponse requestId e = Poll requestId e"

definition AwaitAsyncResponse where
  "AwaitAsyncResponse requestId waitTimeoutMs e wakeups = Await requestId waitTimeoutMs e wakeups"

definition ReadAsyncResponse where
  "ReadAsyncResponse requestId responseBody responseBodySize e = Read requestId responseBody responseBodySize e"

definition DiscardAsyncResponse where "DiscardAsyncResponse requestId e = Discard requestId e"

definition DiscardAllAsyncResponses where "DiscardAllAsyncResponses e = DiscardAll e"

section \<open>Dispatched requests\<close>

definition dispatch_request ::
  "transport \<Rightarrow> u32 \<Rightarrow> bool \<Rightarrow> start_result \<Rightarrow> engine \<Rightarrow> status + HttpRequest \<Rightarrow> dispatch_result option" where
  "dispatch_request client seed copy_throws start e request =
     (case request of
        Inl st \<Rightarrow> Some ((Returned st, 0), e, [])
      | Inr request \<Rightarrow> Dispatch client request seed copy_throws start e)"

lemma dispatch_request_simps [simp]:
  "dispatch_request client seed copy_throws start e (Inl st) = Some ((Returned st, 0), e, [])"
  "dispatch_request client seed copy_throws start e (Inr request) = Dispatch client request seed copy_throws start e"
  by (simp_all add: dispatch_request_def)

lemma dispatch_build:
  "dispatch_request client seed copy_throws start e (build_request meth url headers body c t m) =
     (if url = [] \<or> MethodForbidsBody meth \<and> body \<noteq> [] then Some ((Returned InvalidArgument, 0), e, [])
      else Dispatch client \<lparr>request_method = meth, request_url = url, request_headers = headers, request_body = body,
        request_options = MakeRequestOptions c t m, cancelFlag = None\<rparr> seed copy_throws start e)"
  by (auto simp: build_request_def sendable_def Let_def MakeRequestOptions_def RequestOptions_default_def)

text \<open>
  When an asynchronous call throws before it gets to the engine: as for a synchronous one, but the
  copies are only made for a request that will be dispatched.
\<close>

definition async_throws :: "text_memory \<Rightarrow> texts \<Rightarrow> bool" where
  "async_throws memory texts =
     (case texts of
        Inl _ \<Rightarrow> False
      | Inr (_, _, block, _) \<Rightarrow>
          headers_throw memory block \<or> copy_fails memory \<and> (\<exists>request. request_of 0 0 0 texts = Inr request))"

text \<open>What a call with these texts does: throw, refuse them, or dispatch the request they stand for.\<close>

definition dispatch_texts ::
  "transport \<Rightarrow> text_memory \<Rightarrow> u32 \<Rightarrow> bool \<Rightarrow> start_result \<Rightarrow> engine \<Rightarrow> u32 \<Rightarrow> u32 \<Rightarrow> u32 \<Rightarrow> texts \<Rightarrow> dispatch_result option" where
  "dispatch_texts client memory seed copy_throws start e c t m texts =
     (if async_throws memory texts then Some ((Threw, 0), e, [])
      else dispatch_request client seed copy_throws start e (request_of c t m texts))"

lemma async_throws_Inl [simp]: "\<not> async_throws memory (Inl st)"
  by (simp add: async_throws_def)

lemma async_throws_all_memory [simp]: "\<not> async_throws all_memory texts"
  by (simp add: async_throws_def split: sum.split)

lemma dispatch_texts_Inl [simp]:
  "dispatch_texts client memory seed copy_throws start e c t m (Inl st) = Some ((Returned st, 0), e, [])"
  by (simp add: dispatch_texts_def)

lemma dispatch_outcome:
  "dispatch_texts client memory seed copy_throws start e c t m (Inr (meth, url, block, body)) =
   (case ParseHeaderBlock memory block [] of
      (Threw, _) \<Rightarrow> Some ((Threw, 0), e, [])
    | (Returned st, headers) \<Rightarrow>
        if st \<noteq> Ok then Some ((Returned st, 0), e, [])
        else if url = [] \<or> MethodForbidsBody meth \<and> body \<noteq> [] then Some ((Returned InvalidArgument, 0), e, [])
        else if copy_fails memory then Some ((Threw, 0), e, [])
        else Dispatch client \<lparr>request_method = meth, request_url = url, request_headers = headers, request_body = body,
          request_options = MakeRequestOptions c t m, cancelFlag = None\<rparr> seed copy_throws start e)"
proof (cases "headers_throw memory block")
  case True
  then have "fst (ParseHeaderBlock memory block []) = Threw" by (simp add: ParseHeaderBlock_throws(1))
  with True show ?thesis by (cases "ParseHeaderBlock memory block []") (simp add: dispatch_texts_def async_throws_def)
next
  case False
  obtain st headers where b: "block_headers block = (st, headers)" by force
  have sendable: "(\<exists>request. build_request meth url headers body 0 0 0 = Inr request) \<longleftrightarrow>
      \<not> (url = [] \<or> MethodForbidsBody meth \<and> body \<noteq> [])"
    by (auto simp: build_request_def sendable_def Let_def)
  show ?thesis
    using ParseHeaderBlock_throws(2) [OF False, of "[]"] False sendable
    by (simp add: b dispatch_texts_def async_throws_def header_list_def dispatch_build)
qed

lemma DispatchRequestAsync_eq:
  assumes "buf_ok methodText mn" "buf_ok urlText un" "buf_ok headersText hn" "buf_ok bodyText bn"
  shows "DispatchRequestAsync client memory seed copy_throws start methodText mn urlText un headersText hn bodyText bn c t m e =
    dispatch_texts client memory seed copy_throws start e c t m (generic_texts methodText mn urlText un headersText hn bodyText bn)"
  unfolding DispatchRequestAsync_def generic_texts_def
  by (auto simp: BoundedText_bounded assms method_of_def HttpRequest_default_def Let_def
      bounded_not_Ok dispatch_outcome split: sum.split prod.split outcome.split)

lemma DispatchBodyVerb_eq:
  assumes "buf_ok urlText un" "buf_ok headersText hn" "buf_ok bodyText bn" "\<not> MethodForbidsBody meth"
  shows "DispatchBodyVerb client memory seed copy_throws start meth urlText un headersText hn bodyText bn e =
    dispatch_texts client memory seed copy_throws start e 0 0 0 (body_texts meth urlText un headersText hn bodyText bn)"
  unfolding DispatchBodyVerb_def body_texts_def
  by (simp add: BoundedText_bounded assms HttpRequest_default_def Let_def
      bounded_not_Ok dispatch_outcome split: sum.split prod.split outcome.split)

lemma DispatchNoBodyVerb_eq:
  assumes "buf_ok urlText un" "buf_ok headersText hn"
  shows "DispatchNoBodyVerb client memory seed copy_throws start meth urlText un headersText hn e =
    dispatch_texts client memory seed copy_throws start e 0 0 0 (plain_texts meth urlText un headersText hn)"
  unfolding DispatchNoBodyVerb_def plain_texts_def
  by (simp add: BoundedText_bounded assms HttpRequest_default_def Let_def
      bounded_not_Ok dispatch_outcome split: sum.split prod.split outcome.split)

section \<open>Properties\<close>

text \<open>C27: An asynchronous call asks for exactly what the synchronous call with the same texts asks
  for: its arguments stand for a request, by the same function, and it is dispatched; or they do
  not, then the call returns the same reason as the synchronous one, with the id 0 and the engine
  untouched. Where a header, or a copy for a request that would be dispatched, finds no memory the
  call throws, also with the id 0 and the engine untouched. The verb calls are the generic call
  with the method's name and the default limits.
\<close>

theorem async_calls_generic:
  assumes "buf_ok methodText mn" "buf_ok urlText un" "buf_ok headersText hn" "buf_ok bodyText bn"
  shows "DispatchRequestAsync client memory seed copy_throws start methodText mn urlText un headersText hn bodyText bn c t m e =
      dispatch_texts client memory seed copy_throws start e c t m (generic_texts methodText mn urlText un headersText hn bodyText bn)
    \<and> DispatchGetAsync client memory seed copy_throws start urlText un headersText hn e =
      dispatch_texts client memory seed copy_throws start e 0 0 0 (generic_texts (c_text ''GET'') 4 urlText un headersText hn (c_text []) 1)
    \<and> DispatchDeleteAsync client memory seed copy_throws start urlText un headersText hn e =
      dispatch_texts client memory seed copy_throws start e 0 0 0 (generic_texts (c_text ''DELETE'') 7 urlText un headersText hn (c_text []) 1)
    \<and> DispatchPostAsync client memory seed copy_throws start urlText un headersText hn bodyText bn e =
      dispatch_texts client memory seed copy_throws start e 0 0 0 (generic_texts (c_text ''POST'') 5 urlText un headersText hn bodyText bn)
    \<and> DispatchPutAsync client memory seed copy_throws start urlText un headersText hn bodyText bn e =
      dispatch_texts client memory seed copy_throws start e 0 0 0 (generic_texts (c_text ''PUT'') 4 urlText un headersText hn bodyText bn)
    \<and> DispatchPatchAsync client memory seed copy_throws start urlText un headersText hn bodyText bn e =
      dispatch_texts client memory seed copy_throws start e 0 0 0 (generic_texts (c_text ''PATCH'') 6 urlText un headersText hn bodyText bn)"
  by (simp add: DispatchGetAsync_def DispatchDeleteAsync_def DispatchPostAsync_def DispatchPutAsync_def
      DispatchPatchAsync_def DispatchRequestAsync_eq DispatchBodyVerb_eq DispatchNoBodyVerb_eq assms
      generic_plain [simplified] generic_body [simplified] MethodForbidsBody_def)

theorem async_calls_generic_witness:
  "DispatchGetAsync echo_client all_memory 7 False Started (c_text []) 1 (c_text []) 1 AsyncEngine =
     Some ((Returned InvalidArgument, 0), AsyncEngine, [])"
proof -
  have "request_of 0 0 0 (generic_texts (c_text ''GET'') 4 (c_text []) 1 (c_text []) 1 (c_text []) 1) = Inl InvalidArgument"
    by code_simp
  with async_calls_generic [of "c_text []" 1 "c_text []" 1 "c_text []" 1 "c_text []" 1 echo_client all_memory 7 False Started 0 0 0 AsyncEngine]
  show ?thesis by (simp add: dispatch_texts_def)
qed

end
