(* ===== verification/Export_Shims.thy ===== *)
theory Export_Shims
  imports Export_Table Json_Text_Api Async_Text_Api
begin

text \<open>
  The exported functions of \<open>src/module/exports.cpp\<close>: what CAPL calls. A reference parameter of
  CAPL is a value passed in and the value left in it, a \<open>char[]\<close> an array of the caller. The two
  process-wide objects are the request engine and the document store.
\<close>

section \<open>The environment of a call\<close>

text \<open>
  libcurl, whether the copies into a request that the layers below make find memory, and the memory
  for the texts.
\<close>

record call_env =
  curl_init_ok :: bool
  curl :: curl_env
  copies_fail :: bool
  text_mem :: text_memory

text \<open>A client object is nothing but its transport.\<close>

definition SyncClient :: "call_env \<Rightarrow> transport" where
  "SyncClient env = DefaultTransport (curl_init_ok env) (curl env)"

text \<open>
  What the Windows version API answers: whether the module handle is found, the length of its
  path, the size of the version block, whether the buffer for it and its content are available,
  and the version string (with its stated length), if the query finds one.
\<close>

record version_env =
  module_found :: bool
  path_length :: nat
  info_size :: nat
  block_allocated :: bool
  info_read :: bool
  version_text :: "string option"

definition CopyOwnVersionString :: "version_env \<Rightarrow> cbuf \<Rightarrow> u32 \<Rightarrow> (i32 \<times> cbuf) outcome mem" where
  "CopyOwnVersionString env buffer bufferSize =
     (if buffer = NullPtr \<or> bufferSize = 0 then Some (Returned (status_word InvalidArgument, buffer))
      else do {
        buffer \<leftarrow> put_nul buffer;
        if \<not> module_found env then Some (Returned (status_word VersionResourceUnavailable, buffer))
        else if path_length env = 0 \<or> path_length env \<ge> 260
        then Some (Returned (status_word VersionResourceUnavailable, buffer))
        else if info_size env = 0 then Some (Returned (status_word VersionResourceUnavailable, buffer))
        else if \<not> block_allocated env then Some Threw
        else if \<not> info_read env then Some (Returned (status_word VersionResourceUnavailable, buffer))
        else (case version_text env of
                None \<Rightarrow> Some (Returned (status_word VersionResourceUnavailable, buffer))
              | Some versionText \<Rightarrow> do {
                  (copyStatus, buffer) \<leftarrow> CopyToBuffer (c_string versionText) buffer bufferSize;
                  Some (Returned (status_word copyStatus, buffer))
                })
      })"

definition restifyReadVersion where
  "restifyReadVersion env buffer bufferSize = CopyOwnVersionString env buffer bufferSize"

section \<open>Synchronous requests\<close>

type_synonym sync_result = "i32 \<times> cbuf \<times> i32 \<times> u32"

text \<open>The status of a call as its number. What the call threw is passed on: no shim has a handler.\<close>

definition finished_word :: "(status \<times> response_out) outcome \<Rightarrow> sync_result outcome" where
  "finished_word r = (case r of Threw \<Rightarrow> Threw | Returned (result, out) \<Rightarrow> Returned (status_word result, out))"

definition restifyGetSync ::
  "call_env \<Rightarrow> cbuf \<Rightarrow> u32 \<Rightarrow> cbuf \<Rightarrow> u32 \<Rightarrow> cbuf \<Rightarrow> u32 \<Rightarrow> i32 \<Rightarrow> u32 \<Rightarrow> sync_result outcome mem" where
  "restifyGetSync env url urlSize requestHeaders requestHeadersSize responseBody responseBodySize
     httpStatusCode responseBodyLength =
     map_option finished_word (ExecuteGetSync (SyncClient env) (text_mem env) (copies_fail env) url urlSize
       requestHeaders requestHeadersSize responseBodySize (responseBody, httpStatusCode, responseBodyLength))"

definition restifyDeleteSync ::
  "call_env \<Rightarrow> cbuf \<Rightarrow> u32 \<Rightarrow> cbuf \<Rightarrow> u32 \<Rightarrow> cbuf \<Rightarrow> u32 \<Rightarrow> i32 \<Rightarrow> u32 \<Rightarrow> sync_result outcome mem" where
  "restifyDeleteSync env url urlSize requestHeaders requestHeadersSize responseBody responseBodySize
     httpStatusCode responseBodyLength =
     map_option finished_word (ExecuteDeleteSync (SyncClient env) (text_mem env) (copies_fail env) url urlSize
       requestHeaders requestHeadersSize responseBodySize (responseBody, httpStatusCode, responseBodyLength))"

definition restifyPostSync ::
  "call_env \<Rightarrow> cbuf \<Rightarrow> u32 \<Rightarrow> cbuf \<Rightarrow> u32 \<Rightarrow> cbuf \<Rightarrow> u32 \<Rightarrow> cbuf \<Rightarrow> u32 \<Rightarrow> i32 \<Rightarrow> u32 \<Rightarrow> sync_result outcome mem" where
  "restifyPostSync env url urlSize requestHeaders requestHeadersSize requestBody requestBodySize responseBody responseBodySize
     httpStatusCode responseBodyLength =
     map_option finished_word (ExecutePostSync (SyncClient env) (text_mem env) (copies_fail env) url urlSize
       requestHeaders requestHeadersSize requestBody requestBodySize responseBodySize (responseBody, httpStatusCode, responseBodyLength))"

definition restifyPutSync ::
  "call_env \<Rightarrow> cbuf \<Rightarrow> u32 \<Rightarrow> cbuf \<Rightarrow> u32 \<Rightarrow> cbuf \<Rightarrow> u32 \<Rightarrow> cbuf \<Rightarrow> u32 \<Rightarrow> i32 \<Rightarrow> u32 \<Rightarrow> sync_result outcome mem" where
  "restifyPutSync env url urlSize requestHeaders requestHeadersSize requestBody requestBodySize responseBody responseBodySize
     httpStatusCode responseBodyLength =
     map_option finished_word (ExecutePutSync (SyncClient env) (text_mem env) (copies_fail env) url urlSize
       requestHeaders requestHeadersSize requestBody requestBodySize responseBodySize (responseBody, httpStatusCode, responseBodyLength))"

definition restifyPatchSync ::
  "call_env \<Rightarrow> cbuf \<Rightarrow> u32 \<Rightarrow> cbuf \<Rightarrow> u32 \<Rightarrow> cbuf \<Rightarrow> u32 \<Rightarrow> cbuf \<Rightarrow> u32 \<Rightarrow> i32 \<Rightarrow> u32 \<Rightarrow> sync_result outcome mem" where
  "restifyPatchSync env url urlSize requestHeaders requestHeadersSize requestBody requestBodySize responseBody responseBodySize
     httpStatusCode responseBodyLength =
     map_option finished_word (ExecutePatchSync (SyncClient env) (text_mem env) (copies_fail env) url urlSize
       requestHeaders requestHeadersSize requestBody requestBodySize responseBodySize (responseBody, httpStatusCode, responseBodyLength))"

definition restifyRequestSync ::
  "call_env \<Rightarrow> cbuf \<Rightarrow> u32 \<Rightarrow> cbuf \<Rightarrow> u32 \<Rightarrow> cbuf \<Rightarrow> u32 \<Rightarrow> cbuf \<Rightarrow> u32 \<Rightarrow> cbuf \<Rightarrow> u32 \<Rightarrow>
     u32 \<Rightarrow> u32 \<Rightarrow> u32 \<Rightarrow> i32 \<Rightarrow> u32 \<Rightarrow> sync_result outcome mem" where
  "restifyRequestSync env meth methodSize url urlSize requestHeaders requestHeadersSize requestBody requestBodySize
     responseBody responseBodySize connectMs totalMs maxBytes httpStatusCode responseBodyLength =
     map_option finished_word (ExecuteRequestSync (SyncClient env) (text_mem env) meth methodSize url urlSize
       requestHeaders requestHeadersSize requestBody requestBodySize connectMs totalMs maxBytes responseBodySize
       (responseBody, httpStatusCode, responseBodyLength))"

section \<open>Asynchronous requests\<close>

text \<open>The value returned, the id left in the caller's variable, the engine and the threads started.\<close>

type_synonym async_result = "(i32 outcome \<times> u32) \<times> engine \<times> worker list"

definition dispatched_word :: "dispatch_result \<Rightarrow> async_result" where
  "dispatched_word r = (case r of ((st, requestId), e, threads) \<Rightarrow>
     ((case st of Threw \<Rightarrow> Threw | Returned st \<Rightarrow> Returned (status_word st), requestId), e, threads))"

definition restifyGetAsync where
  "restifyGetAsync env seed start url urlSize requestHeaders requestHeadersSize e =
     map_option dispatched_word (DispatchGetAsync (SyncClient env) (text_mem env) seed (copies_fail env) start
       url urlSize requestHeaders requestHeadersSize e)"

definition restifyDeleteAsync where
  "restifyDeleteAsync env seed start url urlSize requestHeaders requestHeadersSize e =
     map_option dispatched_word (DispatchDeleteAsync (SyncClient env) (text_mem env) seed (copies_fail env) start
       url urlSize requestHeaders requestHeadersSize e)"

definition restifyPostAsync where
  "restifyPostAsync env seed start url urlSize requestHeaders requestHeadersSize requestBody requestBodySize e =
     map_option dispatched_word (DispatchPostAsync (SyncClient env) (text_mem env) seed (copies_fail env) start
       url urlSize requestHeaders requestHeadersSize requestBody requestBodySize e)"

definition restifyPutAsync where
  "restifyPutAsync env seed start url urlSize requestHeaders requestHeadersSize requestBody requestBodySize e =
     map_option dispatched_word (DispatchPutAsync (SyncClient env) (text_mem env) seed (copies_fail env) start
       url urlSize requestHeaders requestHeadersSize requestBody requestBodySize e)"

definition restifyPatchAsync where
  "restifyPatchAsync env seed start url urlSize requestHeaders requestHeadersSize requestBody requestBodySize e =
     map_option dispatched_word (DispatchPatchAsync (SyncClient env) (text_mem env) seed (copies_fail env) start
       url urlSize requestHeaders requestHeadersSize requestBody requestBodySize e)"

definition restifyRequestAsync where
  "restifyRequestAsync env seed start meth methodSize url urlSize requestHeaders requestHeadersSize requestBody requestBodySize
     connectMs totalMs maxBytes e =
     map_option dispatched_word (DispatchRequestAsync (SyncClient env) (text_mem env) seed (copies_fail env) start
       meth methodSize url urlSize requestHeaders requestHeadersSize requestBody requestBodySize connectMs totalMs maxBytes e)"

definition restifyPollResponse :: "u32 \<Rightarrow> engine \<Rightarrow> i32 \<times> i32" where
  "restifyPollResponse requestId e =
     (case PollAsyncResponse requestId e of (result, state) \<Rightarrow> (status_word result, state))"

definition restifyAwaitResponse :: "u32 \<Rightarrow> u32 \<Rightarrow> engine \<Rightarrow> (bool \<times> engine) list \<Rightarrow> i32 option" where
  "restifyAwaitResponse requestId waitTimeoutMs e wakeups =
     map_option status_word (fst (AwaitAsyncResponse requestId waitTimeoutMs e wakeups))"

definition restifyReadResponse :: "u32 \<Rightarrow> cbuf \<Rightarrow> u32 \<Rightarrow> engine \<Rightarrow> ((i32 \<times> cbuf \<times> i32 \<times> i32 \<times> u32) \<times> engine) mem" where
  "restifyReadResponse requestId responseBody responseBodySize e =
     do {
       ((result, out), e) \<leftarrow> ReadAsyncResponse requestId responseBody responseBodySize e;
       Some ((status_word result, out), e)
     }"

definition restifyDiscardResponse :: "u32 \<Rightarrow> engine \<Rightarrow> i32 \<times> engine" where
  "restifyDiscardResponse requestId e =
     (case DiscardAsyncResponse requestId e of (result, e) \<Rightarrow> (status_word result, e))"

definition restifyDiscardAllResponses :: "engine \<Rightarrow> (i32 \<times> u32) \<times> engine" where
  "restifyDiscardAllResponses e =
     (case DiscardAllAsyncResponses e of ((result, stillRunning), e) \<Rightarrow> ((status_word result, stillRunning), e))"

section \<open>Documents\<close>

text \<open>\<open>lexer\<close> and \<open>dtoa\<close> are the JSON library's; the flags say which allocations or locks fail.\<close>

definition restifyJsonParse where
  "restifyJsonParse lexer dtoa flatten_throws insert_throws ticks json jsonSize s =
     do {
       (result, documentId, s) \<leftarrow> ParseJsonDocument lexer dtoa flatten_throws insert_throws ticks json jsonSize s;
       Some (status_word result, documentId, s)
     }"

definition restifyJsonCountEntries where
  "restifyJsonCountEntries throws documentId s =
     (case CountJsonEntries throws documentId s of (result, counted) \<Rightarrow> (status_word result, counted))"

definition restifyJsonReadEntry where
  "restifyJsonReadEntry throws documentId entryIndex key keySize val valSize s =
     do {
       (result, out) \<leftarrow> ReadJsonEntry throws documentId entryIndex key keySize val valSize s;
       Some (status_word result, out)
     }"

definition restifyJsonReadValue where
  "restifyJsonReadValue dtoa throws documentId path pathSize val valSize s =
     do {
       (result, out) \<leftarrow> ReadJsonValue dtoa throws documentId path pathSize val valSize s;
       Some (status_word result, out)
     }"

definition restifyJsonDiscardDocument where
  "restifyJsonDiscardDocument throws documentId s =
     (case DiscardJsonDocument throws documentId s of (result, s) \<Rightarrow> (status_word result, s))"

definition restifyJsonDiscardAllDocuments where
  "restifyJsonDiscardAllDocuments throws s =
     (case DiscardAllJsonDocuments throws s of (result, discardedCount, s) \<Rightarrow> (status_word result, discardedCount, s))"

definition restifyJsonNormalize where
  "restifyJsonNormalize lexer throws json jsonSize normalized normalizedSize =
     do {
       (result, normalized) \<leftarrow> NormalizeJsonText lexer throws json jsonSize normalized normalizedSize;
       Some (status_word result, normalized)
     }"

definition restifyJsonReadLong where
  "restifyJsonReadLong throws documentId path pathSize s =
     do {
       (result, val) \<leftarrow> ReadJsonLong throws documentId path pathSize s;
       Some (status_word result, val)
     }"

definition restifyJsonReadDouble where
  "restifyJsonReadDouble throws documentId path pathSize s =
     do {
       (result, val) \<leftarrow> ReadJsonDouble throws documentId path pathSize s;
       Some (status_word result, val)
     }"

definition restifyJsonReadBool where
  "restifyJsonReadBool throws documentId path pathSize s =
     do {
       (result, val) \<leftarrow> ReadJsonBool throws documentId path pathSize s;
       Some (status_word result, val)
     }"

definition restifyJsonCountElements where
  "restifyJsonCountElements throws documentId path pathSize s =
     do {
       (result, elementCount) \<leftarrow> CountJsonElements throws documentId path pathSize s;
       Some (status_word result, elementCount)
     }"

section \<open>Returning\<close>

lemma frame_from_refl [simp]: "frame_from k p p"
  by (cases p) (simp_all add: frame_from_def)

lemma finish_framed:
  assumes "buf_ok responseBody n"
  shows "\<exists>st' responseBody'. (\<exists>c l. FinishResponse st response n (responseBody, code, len) = Some (st', responseBody', c, l))
    \<and> frame_from (unat n) responseBody responseBody'"
  using CopyToBuffer_frame [OF assms, of "response_body response"] by (auto simp: FinishResponse_def)

text \<open>
  A call that throws exactly when memory for its texts fails, and otherwise ends with a status and
  stays inside the response array.
\<close>

definition returns_framed :: "text_memory \<Rightarrow> texts \<Rightarrow> cbuf \<Rightarrow> u32 \<Rightarrow> text_result \<Rightarrow> bool" where
  "returns_framed memory texts responseBody n r \<longleftrightarrow>
     (if sync_throws memory texts then r = Some Threw
      else \<exists>st responseBody' c l. r = Some (Returned (st, responseBody', c, l)) \<and> frame_from (unat n) responseBody responseBody')"

lemma ExecuteNoBodyVerb_framed:
  assumes "buf_ok urlText un" "buf_ok headersText hn" "buf_ok responseBody n"
  shows "returns_framed memory (plain_texts meth urlText un headersText hn) responseBody n
    (ExecuteNoBodyVerb client memory ct meth urlText un headersText hn n (responseBody, code, len))"
  unfolding ExecuteNoBodyVerb_def plain_texts_def
  by (simp add: BoundedText_bounded assms Let_def bounded_not_Ok header_outcome returns_framed_def finish_framed split: sum.split prod.split)

lemma ExecuteBodyVerb_framed:
  assumes "buf_ok urlText un" "buf_ok headersText hn" "buf_ok bodyText bn" "buf_ok responseBody n"
  shows "returns_framed memory (body_texts meth urlText un headersText hn bodyText bn) responseBody n
    (ExecuteBodyVerb client memory ct meth urlText un headersText hn bodyText bn n (responseBody, code, len))"
  unfolding ExecuteBodyVerb_def body_texts_def
  by (simp add: BoundedText_bounded assms Let_def bounded_not_Ok header_outcome returns_framed_def finish_framed split: sum.split prod.split)

text \<open>libcurl's transport throws nothing.\<close>

lemma SyncClient_returns: "\<exists>st response'. SyncClient env request response = (Returned st, response')"
  by (simp add: SyncClient_def DefaultTransport_def split: prod.split)

lemma ExecuteRequestSync_framed:
  assumes "buf_ok methodText mn" "buf_ok urlText un" "buf_ok headersText hn" "buf_ok bodyText bn" "buf_ok responseBody n"
  shows "returns_framed memory (generic_texts methodText mn urlText un headersText hn bodyText bn) responseBody n
    (ExecuteRequestSync (SyncClient env) memory methodText mn urlText un headersText hn bodyText bn c t m n (responseBody, code, len))"
proof (cases "generic_request methodText mn urlText un headersText hn bodyText bn c t m")
  case (Inl st)
  then show ?thesis by (simp add: ExecuteRequestSync_eq assms(1-4) send_texts_def returns_framed_def)
next
  case (Inr request)
  obtain st response where "SyncClient env request HttpResponse_default = (Returned st, response)"
    using SyncClient_returns by blast
  with Inr finish_framed [OF assms(5), of st response code len] show ?thesis
    by (simp add: ExecuteRequestSync_eq assms(1-4) send_texts_def perform_and_deliver_def returns_framed_def)
qed

text \<open>The same of an exported function: its value is a status's number.\<close>

definition export_ok :: "call_env \<Rightarrow> texts \<Rightarrow> cbuf \<Rightarrow> u32 \<Rightarrow> sync_result outcome mem \<Rightarrow> bool" where
  "export_ok env texts responseBody n r \<longleftrightarrow>
     (if sync_throws (text_mem env) texts then r = Some Threw
      else \<exists>st responseBody' c l. r = Some (Returned (status_word st, responseBody', c, l))
        \<and> frame_from (unat n) responseBody responseBody')"

lemma export_ok_finished:
  "returns_framed (text_mem env) texts responseBody n r \<Longrightarrow> export_ok env texts responseBody n (map_option finished_word r)"
  by (auto simp: returns_framed_def export_ok_def finished_word_def split: if_splits)

section \<open>Properties\<close>

text \<open>C38: How a synchronous export comes back. Called with arrays of at least the stated sizes, whatever
  libcurl and the server do and whether or not the layers below find memory for the request, it
  touches no memory outside the arrays, writes nothing behind the stated size of the response
  array, and its value is the number of a status, except in one case: when all its texts could be
  read and a header of the block, or the copy of a text made in \<open>sync-text-api.cpp\<close>, finds no
  memory. Exactly then an exception enters CAPL, as there is no handler around these copies.
\<close>

theorem sync_exports_return:
  assumes "buf_ok meth mn" "buf_ok url un" "buf_ok headers hn" "buf_ok body bn" "buf_ok responseBody n"
  shows "export_ok env (plain_texts Get url un headers hn) responseBody n
        (restifyGetSync env url un headers hn responseBody n code len)
    \<and> export_ok env (plain_texts Delete url un headers hn) responseBody n
        (restifyDeleteSync env url un headers hn responseBody n code len)
    \<and> export_ok env (body_texts Post url un headers hn body bn) responseBody n
        (restifyPostSync env url un headers hn body bn responseBody n code len)
    \<and> export_ok env (body_texts Put url un headers hn body bn) responseBody n
        (restifyPutSync env url un headers hn body bn responseBody n code len)
    \<and> export_ok env (body_texts Patch url un headers hn body bn) responseBody n
        (restifyPatchSync env url un headers hn body bn responseBody n code len)
    \<and> export_ok env (generic_texts meth mn url un headers hn body bn) responseBody n
        (restifyRequestSync env meth mn url un headers hn body bn responseBody n c t m code len)"
  unfolding restifyGetSync_def ExecuteGetSync_def restifyDeleteSync_def ExecuteDeleteSync_def
    restifyPostSync_def ExecutePostSync_def restifyPutSync_def ExecutePutSync_def restifyPatchSync_def
    ExecutePatchSync_def restifyRequestSync_def
  by (intro conjI export_ok_finished ExecuteNoBodyVerb_framed ExecuteBodyVerb_framed ExecuteRequestSync_framed assms)

definition sample_call_env :: call_env where
  "sample_call_env = \<lparr>curl_init_ok = True, curl = sample_env, copies_fail = False, text_mem = all_memory\<rparr>"

text \<open>The same environment in which the second header of a block finds no memory.\<close>

definition short_call_env :: call_env where
  "short_call_env = sample_call_env\<lparr>text_mem := \<lparr>header_fails = (\<lambda>k. k = 1), copy_fails = False\<rparr>\<rparr>"

lemma short_texts:
  "\<not> sync_throws (text_mem short_call_env) (plain_texts Get (c_text ''u'') 2 (c_text ''A:b'') 4)"
  "sync_throws (text_mem short_call_env) (plain_texts Get (c_text ''u'') 2 (c_text (''A:b'' @ [CHR 0x0A] @ ''C:d'')) 8)"
  by code_simp+

theorem sync_exports_return_witness:
  "(\<exists>st responseBody' c l. restifyGetSync short_call_env (c_text ''u'') 2 (c_text ''A:b'') 4 (Buf ''wxyz'') 4 0 0 =
      Some (Returned (status_word st, responseBody', c, l)) \<and> frame_from 4 (Buf ''wxyz'') responseBody')
   \<and> restifyGetSync short_call_env (c_text ''u'') 2 (c_text (''A:b'' @ [CHR 0x0A] @ ''C:d'')) 8 (Buf ''wxyz'') 4 0 0 = Some Threw"
  using sync_exports_return [of NullPtr 0 "c_text ''u''" 2 "c_text ''A:b''" 4 NullPtr 0 "Buf ''wxyz''" 4 short_call_env 0 0]
    sync_exports_return [of NullPtr 0 "c_text ''u''" 2 "c_text (''A:b'' @ [CHR 0x0A] @ ''C:d'')" 8 NullPtr 0 "Buf ''wxyz''" 4 short_call_env 0 0]
    short_texts
  by (simp add: export_ok_def)

text \<open>The version string. On every branch: nothing is written for a null or empty array; else the
  array's text is empty unless the version was found and fits, and then it is the version up to
  its first NUL; the value tells which.
\<close>

theorem version_string_exact:
  assumes "buf_ok buffer n" "block_allocated env"
  shows "restifyReadVersion env buffer n =
    (case buffer of
       NullPtr \<Rightarrow> Some (Returned (status_word InvalidArgument, NullPtr))
     | Buf b \<Rightarrow>
         if n = 0 then Some (Returned (status_word InvalidArgument, Buf b))
         else if module_found env \<and> 0 < path_length env \<and> path_length env < 260 \<and> info_size env \<noteq> 0 \<and> info_read env
              \<and> version_text env \<noteq> None
         then let text' = c_string (the (version_text env))
              in if length text' < unat n
                 then Some (Returned (status_word Ok, Buf (text' @ NUL # drop (Suc (length text')) b)))
                 else Some (Returned (status_word BufferTooSmall, Buf (NUL # drop 1 b)))
         else Some (Returned (status_word VersionResourceUnavailable, Buf (NUL # drop 1 b))))"
proof (cases buffer)
  case (Buf b)
  show ?thesis
  proof (cases "n = 0")
    case False
    then have b: "0 < unat n" "unat n \<le> length b" using Buf assms(1) by (simp_all add: unat_gt_0)
    then obtain x xs where xs: "b = x # xs" by (cases b) auto
    have put: "put_nul buffer = Some (Buf (NUL # xs))" using Buf xs by (simp add: put_nul_def mem_write_def)
    have copy: "CopyToBuffer t (Buf (NUL # xs)) n =
        (if length t < unat n then Some (Ok, Buf (t @ NUL # drop (Suc (length t)) b)) else Some (BufferTooSmall, Buf (NUL # xs)))" for t
      using b xs False by (simp add: mem_simps not_less)
    show ?thesis using Buf False assms(2) xs
      by (auto simp: restifyReadVersion_def CopyOwnVersionString_def put copy Let_def split: option.split)
  qed (use Buf in \<open>simp add: restifyReadVersion_def CopyOwnVersionString_def\<close>)
qed (simp add: restifyReadVersion_def CopyOwnVersionString_def)

definition sample_version_env :: version_env where
  "sample_version_env = \<lparr>module_found = True, path_length = 20, info_size = 100, block_allocated = True,
     info_read = True, version_text = Some (''1.2'' @ [NUL])\<rparr>"

theorem version_string_exact_witness:
  "restifyReadVersion sample_version_env (Buf ''wxyz'') 4 = Some (Returned (status_word Ok, Buf (''1.2'' @ [NUL])))"
  using version_string_exact [of "Buf ''wxyz''" 4 sample_version_env]
  by (simp add: sample_version_env_def c_string_def)

end
