(* ===== verification/Async_Delivery.thy ===== *)
theory Async_Delivery
  imports Async_Properties Async_Text_Api
begin

text \<open>
  Whose answer a read delivers. The engine's steps are run beside a ledger that remembers, for each
  id, the client and the request of the last dispatch that handed it out; a transfer ends with
  what its client's \<open>HttpClient::Perform\<close> makes of the slot's request. The ledger is not part of
  the program: it states that a request is answered by its own transfer and by no other one.
\<close>

section \<open>Steps with a ledger\<close>

type_synonym ledger = "u32 \<Rightarrow> (transport \<times> HttpRequest) option"

inductive serving :: "system \<times> ledger \<Rightarrow> system \<times> ledger \<Rightarrow> bool" where
  dispatch: "Dispatch client request seed copy_throws start e = Some ((st, k), e', new) \<Longrightarrow>
    start \<noteq> ContextThrows \<Longrightarrow>
    serving ((e, ws), h) ((e', (if st = Returned Ok then map notify ws else ws) @ new),
      if st = Returned Ok then h(k \<mapsto> (client, request)) else h)"
| read: "Read k buffer n e = Some (r, e') \<Longrightarrow> serving ((e, ws), h) ((e', ws), h)"
| discard: "Discard k e = (st, e') \<Longrightarrow> serving ((e, ws), h) ((e', ws), h)"
| discard_all: "DiscardAll e = (r, e') \<Longrightarrow> serving ((e, ws), h) ((e', map notify ws), h)"
| head: "w < length ws \<Longrightarrow> ws ! w = Starting \<Longrightarrow> WorkerHead e = (e', x) \<Longrightarrow>
    serving ((e, ws), h) ((e', ws[w := x]), h)"
| wake: "w < length ws \<Longrightarrow> ws ! w = Idle g woken \<Longrightarrow> WorkerWake timed_out g e = (e', x) \<Longrightarrow>
    serving ((e, ws), h) ((e', ws[w := x]), h)"
| finish: "w < length ws \<Longrightarrow> ws ! w = Performing i \<Longrightarrow> slot_client (slots e ! i) = Some client \<Longrightarrow>
    HttpClient_Perform client (slot_request (slots e ! i)) HttpResponse_default = (Returned result, response) \<Longrightarrow>
    (result = RequestCancelled \<longrightarrow> cancel_flag (slots e ! i)) \<Longrightarrow>
    WorkerFinish i result response e = (e', x) \<Longrightarrow>
    serving ((e, ws), h) ((e', ws[w := x]), h)"

inductive served :: "system \<times> ledger \<Rightarrow> bool" where
  start: "served ((AsyncEngine, []), Map.empty)"
| step: "served s \<Longrightarrow> serving s s' \<Longrightarrow> served s'"

lemma serving_step:
  assumes "serving s s'"
  shows "engine_step (fst s) (fst s')"
  using assms
proof (cases rule: serving.cases)
  case (dispatch client request seed copy_throws start e st k e' new ws h)
  from engine_step.dispatch [OF dispatch(3,4), of ws] dispatch(1,2) show ?thesis by simp
qed (auto intro: engine_step.intros(2-))

lemma served_reachable: "served s \<Longrightarrow> reachable (fst s)"
  by (induction rule: served.induct) (auto intro: reachable.intros dest: serving_step)

section \<open>Every slot is answered from the ledger\<close>

definition answered :: "ledger \<Rightarrow> async_slot \<Rightarrow> bool" where
  "answered h s \<longleftrightarrow> (live_state (slot_state s) \<longrightarrow>
     (\<exists>client request. h (async_id s) = Some (client, request) \<and> slot_client s = Some client
        \<and> slot_request s = request\<lparr>cancelFlag := cancelFlag (slot_request s)\<rparr>
        \<and> (slot_state s = Complete \<longrightarrow>
            HttpClient_Perform client (slot_request s) HttpResponse_default = (Returned (transportStatus s), slot_response s))))"

definition ledger_ok :: "ledger \<Rightarrow> engine \<Rightarrow> bool" where
  "ledger_ok h e \<longleftrightarrow> (\<forall>s \<in> set (slots e). answered h s)"

lemma answered_dead: "\<not> live_state (slot_state s) \<Longrightarrow> answered h s"
  by (simp add: answered_def)

lemma ledger_update:
  assumes "ledger_ok h e" "answered h s" "slots e' = (slots e)[i := s]"
  shows "ledger_ok h e'"
  using assms set_update_subset_insert [of "slots e" i s] by (auto simp: ledger_ok_def)

lemma ledger_same: "ledger_ok h e \<Longrightarrow> slots e' = slots e \<Longrightarrow> ledger_ok h e'"
  by (simp add: ledger_ok_def)

lemma take_answers:
  assumes "ledger_ok h e" "FindPendingSlotLocked e = Some j" "WorkerTake j e = (e', x)"
  shows "ledger_ok h e'"
proof -
  note j = FindPendingSlot_Some [OF assms(2)]
  then have "answered h (slots e ! j)" using assms(1) by (auto simp: ledger_ok_def)
  then have "answered h ((slots e ! j)\<lparr>slot_state := Running\<rparr>)" using j by (auto simp: answered_def)
  from ledger_update [OF assms(1) this] assms(3) show ?thesis by (auto simp: WorkerTake_def)
qed

lemma head_answers:
  assumes "ledger_ok h e" "WorkerHead e = (e', x)"
  shows "ledger_ok h e'"
proof (cases "FindPendingSlotLocked e")
  case None
  then have "slots e' = slots e" using assms(2) by (auto simp: WorkerHead_def)
  with assms(1) show ?thesis by (rule ledger_same)
next
  case (Some j)
  with assms(2) have "WorkerTake j e = (e', x)" by (simp add: WorkerHead_def)
  with assms(1) Some show ?thesis by (rule take_answers)
qed

lemma wake_answers:
  assumes "ledger_ok h e" "WorkerWake t g e = (e', x)"
  shows "ledger_ok h e'"
proof (cases "FindPendingSlotLocked e")
  case None
  then have "slots e' = slots e" using assms(2) by (auto simp: WorkerWake_def split: if_splits)
  with assms(1) show ?thesis by (rule ledger_same)
next
  case (Some j)
  let ?e = "e\<lparr>idleWorkers := idleWorkers e - 1\<rparr>"
  have "ledger_ok h ?e" using assms(1) by (simp add: ledger_ok_def)
  moreover have "FindPendingSlotLocked ?e = Some j" using Some by (simp add: FindPendingSlotLocked_def)
  moreover have "WorkerTake j ?e = (e', x)" using Some assms(2) by (simp add: WorkerWake_def)
  ultimately show ?thesis by (rule take_answers)
qed

lemma finish_answers:
  assumes ok: "ledger_ok h e" and i: "i < length (slots e)" "busy (slot_state (slots e ! i))"
    and perform: "slot_client (slots e ! i) = Some client"
      "HttpClient_Perform client (slot_request (slots e ! i)) HttpResponse_default = (Returned result, response)"
    and f: "WorkerFinish i result response e = (e', x)"
  shows "ledger_ok h e'"
proof (cases "slot_state (slots e ! i) = Abandoned")
  case True
  let ?e = "update_slot i (\<lambda>s. (FreeSlotContentsLocked s)\<lparr>slot_state := Free\<rparr>) e"
  have "ledger_ok h ?e" by (rule ledger_update [OF ok answered_dead]) simp_all
  moreover have "WorkerHead ?e = (e', x)" using f True by (simp add: WorkerFinish_def)
  ultimately show ?thesis by (rule head_answers)
next
  case False
  let ?s = "(slots e ! i)\<lparr>slot_response := response, transportStatus := result, slot_state := Complete\<rparr>"
  let ?e = "update_slot i (\<lambda>s. s\<lparr>slot_response := response, transportStatus := result, slot_state := Complete\<rparr>) e"
  have "answered h (slots e ! i)" using ok i(1) by (simp add: ledger_ok_def)
  then have "answered h ?s" using False i(2) perform by (auto simp: answered_def busy_def)
  then have "ledger_ok h ?e" by (rule ledger_update [OF ok]) simp
  moreover have "WorkerHead ?e = (e', x)" using f False by (simp add: WorkerFinish_def)
  ultimately show ?thesis by (rule head_answers)
qed

lemma queue_answers:
  assumes len: "length (slots e) = 8" and ok: "ledger_ok h e" and fresh: "\<not> IsIdLiveLocked e k"
    and s: "slots e' = (slots e)[i := queued_slot i k client request]"
  shows "ledger_ok (h(k \<mapsto> (client, request))) e'"
proof (rule ledger_update [OF _ _ s])
  have "async_id t \<noteq> k" if "t \<in> set (slots e)" "live_state (slot_state t)" for t
    using fresh that by (auto simp: IsIdLiveLocked_def)
  then show "ledger_ok (h(k \<mapsto> (client, request))) e"
    using ok by (auto simp: ledger_ok_def answered_def)
  show "answered (h(k \<mapsto> (client, request))) (queued_slot i k client request)"
    by (simp add: answered_def queued_slot_def)
qed

lemma minted_fresh:
  "length (slots e) = 8 \<Longrightarrow> mint_request_id (IsIdLiveLocked e) c = Some (k, n) \<Longrightarrow> \<not> IsIdLiveLocked e k"
  using request_id_mints [of e c] by auto

lemma dispatch_answers:
  assumes inv: "engine_inv (e, ws)" and ok: "ledger_ok h e"
    and d: "Dispatch client request seed copy_throws start e = Some ((st, k), e', new)" "start \<noteq> ContextThrows"
  shows "ledger_ok (if st = Returned Ok then h(k \<mapsto> (client, request)) else h) e'"
proof -
  note len = engine_invD(2) [OF inv]
  show ?thesis
    using d(1)
  proof (cases rule: Dispatch_cases)
    case (CopyThrows i newId n)
    let ?s = "(FreeSlotContentsLocked (slots e ! i))\<lparr>async_id := newId, slot_client := Some client\<rparr>"
    have "answered h ?s" using FindSlotForDispatch_Some [OF CopyThrows(1)]
      by (intro answered_dead) (auto simp: FreeSlotContentsLocked_def occupied_def)
    from ledger_update [OF ok this, of e' i] CopyThrows show ?thesis by simp
  next
    case (Spare i newId n)
    then have "\<not> IsIdLiveLocked e newId" using minted_fresh [OF len Spare(2)] by simp
    from queue_answers [OF len ok this, of e'] Spare show ?thesis by (simp add: queue_in_def)
  next
    case (Spawned i newId n)
    then have "\<not> IsIdLiveLocked e newId" using minted_fresh [OF len Spawned(2)] by simp
    from queue_answers [OF len ok this, of e'] Spawned show ?thesis by (simp add: queue_in_def)
  next
    case (Refused i newId n)
    have "answered h empty_slot" by (intro answered_dead) (simp add: empty_slot_def)
    from ledger_update [OF ok this, of e' i] Refused show ?thesis by simp
  qed (use ok d(2) in simp_all)
qed

lemma discard_answers:
  assumes ok: "ledger_ok h e" and d: "Discard k e = (st, e')"
  shows "ledger_ok h e'"
proof (cases "e' = e")
  case False
  then obtain i f where e': "e' = update_slot i f e" and f: "\<And>s. \<not> live_state (slot_state (f s))"
    using d by (auto simp: Discard_def split: option.splits if_splits)
  show ?thesis by (rule ledger_update [OF ok answered_dead [OF f]]) (simp add: e')
qed (use ok in simp)

lemma read_answers:
  assumes ok: "ledger_ok h e" and r: "Read k buffer n e = Some (r, e')"
  shows "ledger_ok h e'"
proof (cases "e' = e")
  case False
  then obtain i where e': "e' = update_slot i (\<lambda>s. s\<lparr>slot_state := Consumed\<rparr>) e"
    using r by (auto simp: Read_def Let_def split: option.splits if_splits Option.bind_splits prod.splits)
  show ?thesis by (rule ledger_update [OF ok answered_dead]) (simp_all add: e')
qed (use ok in simp)

lemma discard_all_answers:
  assumes "DiscardAll e = (r, e')"
  shows "ledger_ok h e'"
proof -
  have "slots e' = map discard_slot (slots e)" using assms by (auto simp: DiscardAll_def Let_def)
  moreover have "\<not> live_state (slot_state (discard_slot s))" for s using discard_slot_simps(1) [of s] by auto
  ultimately show ?thesis by (simp add: ledger_ok_def answered_def)
qed

lemma serving_answers:
  assumes "serving ((e, ws), h) ((e', ws'), h')" "engine_inv (e, ws)" "ledger_ok h e"
  shows "ledger_ok h' e'"
  using assms(1)
proof (cases rule: serving.cases)
  case (dispatch client request seed copy_throws start st k new)
  with dispatch_answers [OF assms(2,3) dispatch(3,4)] show ?thesis by simp
next
  case (finish w i client result response x)
  have "i < length (slots e)" "busy (slot_state (slots e ! i))"
    using performer_slot [OF assms(2) finish(3,4)] engine_invD(2) [OF assms(2)] by simp_all
  from finish_answers [OF assms(3) this finish(5,6,8)] finish(1,2) show ?thesis by simp
qed (use assms(3) in \<open>auto intro: read_answers discard_answers discard_all_answers head_answers wake_answers\<close>)

lemma start_ledger: "ledger_ok h AsyncEngine"
  by (auto simp: ledger_ok_def AsyncEngine_def empty_slot_def answered_def)

lemma served_answers: "served s \<Longrightarrow> ledger_ok (snd s) (fst (fst s))"
proof (induction rule: served.induct)
  case (step s s')
  obtain e ws h e' ws' h' where s: "s = ((e, ws), h)" "s' = ((e', ws'), h')" by (cases s, cases s') force
  have "engine_inv (e, ws)" using reachable_inv [OF served_reachable [OF step(1)]] s by simp
  with serving_answers [of e ws h e' ws' h'] step s show ?case by simp
qed (simp add: start_ledger)

lemma and_then_Inr: "and_then r f = Inr y \<longleftrightarrow> (\<exists>x. r = Inr x \<and> f x = Inr y)"
  by (cases r) simp_all

lemma build_request_sendable: "build_request meth url headers body x y z = Inr request \<Longrightarrow> sendable request"
  by (auto simp: build_request_def Let_def split: if_splits)

lemma generic_request_sendable: "generic_request a an b bn c cn d dn x y z = Inr request \<Longrightarrow> sendable request"
  unfolding generic_request_def request_of_def and_then_Inr by (auto dest: build_request_sendable simp: and_then_Inr)

lemma Read_answered:
  assumes "served ((e, ws), h)" "Poll k e = (Ok, 2)" "buf_ok buffer n"
  obtains client request flag result response st buffer' e' where "h k = Some (client, request)"
    "HttpClient_Perform client (request\<lparr>cancelFlag := flag\<rparr>) HttpResponse_default = (Returned result, response)"
    "CopyToBuffer (response_body response) buffer n = Some (st, buffer')"
    "Read k buffer n e = Some ((st, buffer', status_word result, statusCode response, of_nat (length (response_body response))), e')"
proof -
  obtain i where i: "FindLiveSlotLocked k e = Some i" "slot_state (slots e ! i) = Complete"
    using assms(2) by (auto simp: Poll_complete)
  let ?s = "slots e ! i"
  have id: "async_id ?s = k" "i < length (slots e)" using FindLiveSlot_Some [OF i(1)] by simp_all
  have "answered h ?s" using served_answers [OF assms(1)] id by (simp add: ledger_ok_def)
  then obtain client request where h: "h k = Some (client, request)"
    and r: "slot_request ?s = request\<lparr>cancelFlag := cancelFlag (slot_request ?s)\<rparr>"
    and p: "HttpClient_Perform client (slot_request ?s) HttpResponse_default = (Returned (transportStatus ?s), slot_response ?s)"
    using i(2) id by (auto simp: answered_def)
  obtain st buffer' where copy: "CopyToBuffer (response_body (slot_response ?s)) buffer n = Some (st, buffer')"
    using CopyToBuffer_frame [OF assms(3)] by blast
  with i have "\<exists>e'. Read k buffer n e = Some ((st, buffer', status_word (transportStatus ?s), statusCode (slot_response ?s),
      of_nat (length (response_body (slot_response ?s)))), e')"
    by (simp add: Read_def Let_def)
  with that [OF h _ copy] p r show thesis by metis
qed

section \<open>A sample run\<close>

definition question :: HttpRequest where
  "question = HttpRequest_default\<lparr>request_method := Post, request_url := ''http://a'', request_body := ''hello''\<rparr>"

definition asked :: engine where
  "asked = AsyncEngine\<lparr>slots := (slots AsyncEngine)[0 := queued_slot 0 7 echo_client question],
     liveWorkers := 1, wakeGeneration := 1, idSeeded := True, nextId := 8, moduleRefs := 1\<rparr>"

definition asking :: engine where
  "asking = asked\<lparr>slots := (slots asked)[0 := (queued_slot 0 7 echo_client question)\<lparr>slot_state := Running\<rparr>]\<rparr>"

definition answer :: HttpResponse where
  "answer = \<lparr>statusCode = 200, response_body = ''hello'', response_headers = []\<rparr>"

definition answered_engine :: engine where
  "answered_engine = fst (WorkerFinish 0 Ok answer asking)"

lemma ask: "Dispatch echo_client question 7 False Started AsyncEngine = Some ((Returned Ok, 7), asked, [Starting])"
proof -
  have find: "FindSlotForDispatchLocked AsyncEngine = Some 0" by code_simp
  show ?thesis
    unfolding Dispatch_def Let_def find option.case start_freed start_mints prod.case
    by (simp add: update_slot_def CountPendingSlotsLocked_def StartWorkerLocked_def Let_def
        kAsyncRequestSlotCount_def asked_def queued_slot_def AsyncEngine_def empty_slot_def eight_slots)
qed

lemma take_question: "WorkerHead asked = (asking, Performing 0)"
proof -
  have "FindPendingSlotLocked asked = Some 0" by code_simp
  then show ?thesis
    by (simp add: WorkerHead_def WorkerTake_def asking_def update_slot_def asked_def AsyncEngine_def
        kAsyncRequestSlotCount_def eight_slots)
qed

lemma give_answer: "WorkerFinish 0 Ok answer asking = (answered_engine, Idle 1 False)"
proof -
  have "snd (WorkerFinish 0 Ok answer asking) = Idle 1 False" by code_simp
  then show ?thesis by (simp add: answered_engine_def prod_eq_iff)
qed

lemma served_answer: "served ((answered_engine, [Idle 1 False]), [7 \<mapsto> (echo_client, question)])"
proof -
  let ?h = "[7 \<mapsto> (echo_client, question)]"
  have "serving ((AsyncEngine, []), Map.empty) ((asked, [Starting]), ?h)"
    using serving.dispatch [OF ask, of "[]" Map.empty] by simp
  then have "served ((asked, [Starting]), ?h)" using served.intros by blast
  moreover have "serving ((asked, [Starting]), ?h) ((asking, [Starting][0 := Performing 0]), ?h)"
    by (rule serving.head [OF _ _ take_question]) simp_all
  ultimately have "served ((asking, [Performing 0]), ?h)" using served.step by fastforce
  moreover have "slots asking ! 0 = (queued_slot 0 7 echo_client question)\<lparr>slot_state := Running\<rparr>"
    by (simp add: asking_def asked_def AsyncEngine_def kAsyncRequestSlotCount_def)
  then have "serving ((asking, [Performing 0]), ?h) ((answered_engine, [Performing 0][0 := Idle 1 False]), ?h)"
    by (intro serving.finish [OF _ _ _ _ _ give_answer, where client = echo_client])
      (simp_all add: HttpClient_Perform_def echo_client_def queued_slot_def question_def answer_def HttpResponse_default_def)
  ultimately show ?thesis using served.step by fastforce
qed

lemma answer_polls: "Poll 7 answered_engine = (Ok, 2)"
  by code_simp

section \<open>Properties\<close>

text \<open>C6: A complete request is answered by its own transfer. However the calls of CAPL and the workers'
  steps interleave, and whatever slots and ids were used before, a read of a complete id delivers
  the status, the HTTP status, the body length and the body that the client of the last dispatch
  under that id makes of the request that was dispatched with it; only its cancel flag is the
  slot's.
\<close>

theorem answered_by_own_request:
  assumes "served ((e, ws), h)" "Poll k e = (Ok, 2)" "buf_ok buffer n"
  shows "\<exists>client request flag result response st buffer' e'. h k = Some (client, request)
    \<and> HttpClient_Perform client (request\<lparr>cancelFlag := flag\<rparr>) HttpResponse_default = (Returned result, response)
    \<and> CopyToBuffer (response_body response) buffer n = Some (st, buffer')
    \<and> Read k buffer n e = Some ((st, buffer', status_word result, statusCode response,
        of_nat (length (response_body response))), e')"
  by (rule Read_answered [OF assms]) blast

theorem answered_by_own_request_witness:
  "\<exists>flag result response. HttpClient_Perform echo_client (question\<lparr>cancelFlag := flag\<rparr>) HttpResponse_default = (Returned result, response)
    \<and> (\<exists>st buffer' e'. CopyToBuffer (response_body response) (Buf ''12345678'') 8 = Some (st, buffer')
        \<and> Read 7 (Buf ''12345678'') 8 answered_engine = Some ((st, buffer', status_word result, statusCode response,
            of_nat (length (response_body response))), e'))"
  using answered_by_own_request [OF served_answer answer_polls, of "Buf ''12345678''" 8] by fastforce

text \<open>C15: Asking in the background gives what waiting for the answer gives. If the texts of a call stand
  for a request, that request was dispatched under an id, and the transport's result does not
  depend on the cancel flag, then a read of the complete id delivers the same body into the
  buffer, the same HTTP status and the same body length as the synchronous call with the same
  texts would (if memory for the texts lasts), and the transport status from which that call makes
  its own result.
\<close>

theorem async_read_as_sync:
  assumes "served ((e, ws), h)" "Poll k e = (Ok, 2)" "h k = Some (client, request)"
    and "generic_request methodText mn urlText un headersText hn bodyText bn c t m = Inr request"
    and "\<forall>flag. client (request\<lparr>cancelFlag := flag\<rparr>) HttpResponse_default = client request HttpResponse_default"
    and "buf_ok methodText mn" "buf_ok urlText un" "buf_ok headersText hn" "buf_ok bodyText bn" "buf_ok buffer n"
  shows "\<exists>result st buffer' code len e'.
      Read k buffer n e = Some ((st, buffer', status_word result, code, len), e')
    \<and> ExecuteRequestSync client memory methodText mn urlText un headersText hn bodyText bn c t m n (buffer, c0, l0) =
        (if sync_throws memory (generic_texts methodText mn urlText un headersText hn bodyText bn) then Some Threw
         else Some (Returned (if result = InvalidArgument then (result, buffer, c0, l0)
                        else (if result = Ok then st else result, buffer', code, len))))"
proof -
  obtain flag result response st buffer' e' where
      perform: "HttpClient_Perform client (request\<lparr>cancelFlag := flag\<rparr>) HttpResponse_default = (Returned result, response)"
      and copy: "CopyToBuffer (response_body response) buffer n = Some (st, buffer')"
      and read: "Read k buffer n e = Some ((st, buffer', status_word result, statusCode response,
        of_nat (length (response_body response))), e')"
    by (rule Read_answered [OF assms(1,2,10)]) (use assms(3) in simp)
  have "request_url request \<noteq> []" using generic_request_sendable [OF assms(4)] by (simp add: sendable_def)
  with perform assms(5) have "client request HttpResponse_default = (Returned result, response)"
    by (simp add: HttpClient_Perform_def)
  then have "ExecuteRequestSync client memory methodText mn urlText un headersText hn bodyText bn c t m n (buffer, c0, l0) =
      (if sync_throws memory (generic_texts methodText mn urlText un headersText hn bodyText bn) then Some Threw
       else Some (Returned (if result = InvalidArgument then (result, buffer, c0, l0)
        else (if result = Ok then st else result, buffer', statusCode response, of_nat (length (response_body response))))))"
    by (simp add: ExecuteRequestSync_eq [OF assms(6-9)] send_texts_def assms(4) perform_and_deliver_def FinishResponse_def copy)
  with read show ?thesis by blast
qed

theorem async_read_as_sync_witness:
  "\<exists>result st buffer' code len e'.
      Read 7 (Buf ''12345678'') 8 answered_engine = Some ((st, buffer', status_word result, code, len), e')
    \<and> ExecuteRequestSync echo_client all_memory (c_text ''post'') 5 (c_text ''http://a'') 9 (c_text []) 1 (c_text ''hello'') 6 0 0 0
        8 (Buf ''12345678'', 0, 0) =
        Some (Returned (if result = InvalidArgument then (result, Buf ''12345678'', 0, 0)
                        else (if result = Ok then st else result, buffer', code, len)))"
proof -
  have "generic_request (c_text ''post'') 5 (c_text ''http://a'') 9 (c_text []) 1 (c_text ''hello'') 6 0 0 0 = Inr question"
    by code_simp
  moreover have "\<forall>flag. echo_client (question\<lparr>cancelFlag := flag\<rparr>) HttpResponse_default = echo_client question HttpResponse_default"
    by (simp add: echo_client_def)
  ultimately show ?thesis
    using async_read_as_sync [OF served_answer answer_polls, of echo_client question "c_text ''post''" 5
        "c_text ''http://a''" 9 "c_text []" 1 "c_text ''hello''" 6 0 0 0 "Buf ''12345678''" 8 all_memory 0 0] by simp
qed

end
