(* ===== verification/Module_Session.thy ===== *)
theory Module_Session
  imports Export_Shims Async_Delivery
begin

text \<open>
  The loaded module as one system: the request engine with its worker threads and the document
  store, moved by the exported functions of \<open>src/module/exports.cpp\<close> as CAPL calls them and by the
  workers. Every array CAPL passes has at least the stated size. As long as the start context of a
  thread finds memory, the states that can be reached are states of both components' own systems,
  so their invariants hold at every exported call; that every call returns is shown for the states
  behind such a failure as well.
\<close>

section \<open>Exported dispatches\<close>

text \<open>A call of one of the six asynchronous request functions, with its result.\<close>

inductive dispatching ::
  "call_env \<Rightarrow> u32 \<Rightarrow> start_result \<Rightarrow> engine \<Rightarrow> async_result option \<Rightarrow> bool" for env seed start e where
  get: "buf_ok url un \<Longrightarrow> buf_ok headers hn \<Longrightarrow>
    dispatching env seed start e (restifyGetAsync env seed start url un headers hn e)"
| delete: "buf_ok url un \<Longrightarrow> buf_ok headers hn \<Longrightarrow>
    dispatching env seed start e (restifyDeleteAsync env seed start url un headers hn e)"
| post: "buf_ok url un \<Longrightarrow> buf_ok headers hn \<Longrightarrow> buf_ok body bn \<Longrightarrow>
    dispatching env seed start e (restifyPostAsync env seed start url un headers hn body bn e)"
| put: "buf_ok url un \<Longrightarrow> buf_ok headers hn \<Longrightarrow> buf_ok body bn \<Longrightarrow>
    dispatching env seed start e (restifyPutAsync env seed start url un headers hn body bn e)"
| patch: "buf_ok url un \<Longrightarrow> buf_ok headers hn \<Longrightarrow> buf_ok body bn \<Longrightarrow>
    dispatching env seed start e (restifyPatchAsync env seed start url un headers hn body bn e)"
| request: "buf_ok meth mn \<Longrightarrow> buf_ok url un \<Longrightarrow> buf_ok headers hn \<Longrightarrow> buf_ok body bn \<Longrightarrow>
    dispatching env seed start e (restifyRequestAsync env seed start meth mn url un headers hn body bn c t m e)"

lemma and_then_refusal:
  "r \<noteq> Inl Ok \<Longrightarrow> (\<And>x. f x \<noteq> Inl Ok) \<Longrightarrow> and_then r f \<noteq> Inl Ok"
  by (cases r) simp_all

lemma text_refusals [simp]:
  "bounded p n \<noteq> Inl Ok" "method_of name \<noteq> Inl Ok" "header_list block \<noteq> Inl Ok"
  "build_request meth url headers body x y z \<noteq> Inl Ok"
  by (auto simp: bounded_def method_of_def header_list_def build_request_def Let_def
      split: cbuf.split prod.split)

lemma texts_refusals:
  "generic_texts a an b bn c cn d dn \<noteq> Inl Ok" "body_texts meth b bn c cn d dn \<noteq> Inl Ok" "plain_texts meth b bn c cn \<noteq> Inl Ok"
  unfolding generic_texts_def body_texts_def plain_texts_def by (intro and_then_refusal text_refusals Inr_not_Inl)+

lemma request_refusal:
  assumes "texts \<noteq> Inl Ok"
  shows "request_of c t m texts \<noteq> Inl Ok"
proof (cases texts)
  case (Inr x)
  obtain meth url block body where "x = (meth, url, block, body)" by (cases x)
  then show ?thesis unfolding Inr by (simp add: and_then_refusal)
qed (use assms in simp)

lemma dispatching_request:
  assumes "dispatching env seed start e r"
  obtains q c t m where "request_of c t m q \<noteq> Inl Ok"
    "r = map_option dispatched_word (dispatch_texts (SyncClient env) (text_mem env) seed (copies_fail env) start e c t m q)"
  using assms
proof (cases rule: dispatching.cases)
  case (get url un headers hn)
  then show ?thesis by (intro that [of 0 0 0 "plain_texts Get url un headers hn"] request_refusal texts_refusals)
    (simp add: restifyGetAsync_def DispatchGetAsync_def DispatchNoBodyVerb_eq)
next
  case (delete url un headers hn)
  then show ?thesis by (intro that [of 0 0 0 "plain_texts Delete url un headers hn"] request_refusal texts_refusals)
    (simp add: restifyDeleteAsync_def DispatchDeleteAsync_def DispatchNoBodyVerb_eq)
next
  case (post url un headers hn body bn)
  then show ?thesis by (intro that [of 0 0 0 "body_texts Post url un headers hn body bn"] request_refusal texts_refusals)
    (simp add: restifyPostAsync_def DispatchPostAsync_def DispatchBodyVerb_eq MethodForbidsBody_def)
next
  case (put url un headers hn body bn)
  then show ?thesis by (intro that [of 0 0 0 "body_texts Put url un headers hn body bn"] request_refusal texts_refusals)
    (simp add: restifyPutAsync_def DispatchPutAsync_def DispatchBodyVerb_eq MethodForbidsBody_def)
next
  case (patch url un headers hn body bn)
  then show ?thesis by (intro that [of 0 0 0 "body_texts Patch url un headers hn body bn"] request_refusal texts_refusals)
    (simp add: restifyPatchAsync_def DispatchPatchAsync_def DispatchBodyVerb_eq MethodForbidsBody_def)
next
  case (request meth mn url un headers hn body bn c t m)
  then show ?thesis by (intro that [of c t m "generic_texts meth mn url un headers hn body bn"] request_refusal texts_refusals)
    (simp add: restifyRequestAsync_def DispatchRequestAsync_eq)
qed

section \<open>The module's steps\<close>

type_synonym module_state = "system \<times> json_store"

text \<open>\<open>start_faults\<close>: whether the start context of a thread may find no memory.\<close>

inductive module_step ::
  "(string \<Rightarrow> token list) \<Rightarrow> (f64 \<Rightarrow> string) \<Rightarrow> bool \<Rightarrow> module_state \<Rightarrow> module_state \<Rightarrow> bool" for lexer dtoa start_faults where
  dispatch: "dispatching env seed start e (Some ((v, k), e', new)) \<Longrightarrow> (start = ContextThrows \<longrightarrow> start_faults) \<Longrightarrow>
    module_step lexer dtoa start_faults ((e, ws), s)
      ((e', (if v = Returned (status_word Ok) then map notify ws else ws) @ new), s)"
| read: "restifyReadResponse k buffer n e = Some (out, e') \<Longrightarrow> buf_ok buffer n \<Longrightarrow>
    module_step lexer dtoa start_faults ((e, ws), s) ((e', ws), s)"
| discard: "restifyDiscardResponse k e = (v, e') \<Longrightarrow> module_step lexer dtoa start_faults ((e, ws), s) ((e', ws), s)"
| discard_all: "restifyDiscardAllResponses e = (out, e') \<Longrightarrow>
    module_step lexer dtoa start_faults ((e, ws), s) ((e', map notify ws), s)"
| worker_head: "w < length ws \<Longrightarrow> ws ! w = Starting \<Longrightarrow> WorkerHead e = (e', x) \<Longrightarrow>
    module_step lexer dtoa start_faults ((e, ws), s) ((e', ws[w := x]), s)"
| worker_wake: "w < length ws \<Longrightarrow> ws ! w = Idle g woken \<Longrightarrow> WorkerWake timed_out g e = (e', x) \<Longrightarrow>
    module_step lexer dtoa start_faults ((e, ws), s) ((e', ws[w := x]), s)"
| worker_finish: "w < length ws \<Longrightarrow> ws ! w = Performing i \<Longrightarrow>
    (result = RequestCancelled \<longrightarrow> cancel_flag (slots e ! i)) \<Longrightarrow>
    WorkerFinish i result response e = (e', x) \<Longrightarrow>
    module_step lexer dtoa start_faults ((e, ws), s) ((e', ws[w := x]), s)"
| parse: "restifyJsonParse lexer dtoa flatten_throws insert_throws ticks json n s = Some (v, i, s') \<Longrightarrow>
    buf_ok json n \<Longrightarrow> module_step lexer dtoa start_faults (sys, s) (sys, s')"
| discard_document: "restifyJsonDiscardDocument throws i s = (v, s') \<Longrightarrow>
    module_step lexer dtoa start_faults (sys, s) (sys, s')"
| discard_documents: "restifyJsonDiscardAllDocuments throws s = (v, i, s') \<Longrightarrow>
    module_step lexer dtoa start_faults (sys, s) (sys, s')"

inductive module_reachable :: "(string \<Rightarrow> token list) \<Rightarrow> (f64 \<Rightarrow> string) \<Rightarrow> bool \<Rightarrow> module_state \<Rightarrow> bool" for lexer dtoa start_faults where
  loaded: "module_reachable lexer dtoa start_faults ((AsyncEngine, []), JsonDocumentStore)"
| step: "module_reachable lexer dtoa start_faults s \<Longrightarrow> module_step lexer dtoa start_faults s s' \<Longrightarrow>
    module_reachable lexer dtoa start_faults s'"

text \<open>An exported dispatch is a dispatch of the engine, or it is refused before it gets there.\<close>

lemma dispatching_dispatch:
  assumes "dispatching env seed start e (Some ((v, k), e', new))"
  obtains "e' = e" "new = []" "v \<noteq> Returned (status_word Ok)"
  | request st where "Dispatch (SyncClient env) request seed (copies_fail env) start e = Some ((st, k), e', new)"
      "v = Returned (status_word Ok) \<longleftrightarrow> st = Returned Ok"
proof -
  obtain q c t m where q: "request_of c t m q \<noteq> Inl Ok" and r: "Some ((v, k), e', new) =
      map_option dispatched_word (dispatch_texts (SyncClient env) (text_mem env) seed (copies_fail env) start e c t m q)"
    by (rule dispatching_request [OF assms])
  show thesis
  proof (cases "async_throws (text_mem env) q \<or> (\<exists>st. request_of c t m q = Inl st)")
    case True
    then show thesis using q r by (intro that(1)) (auto simp: dispatch_texts_def dispatched_word_def split: if_splits)
  next
    case False
    then obtain request where "request_of c t m q = Inr request" by (cases "request_of c t m q") auto
    with False r show thesis
      by (cases "Dispatch (SyncClient env) request seed (copies_fail env) start e")
        (auto simp: dispatch_texts_def dispatched_word_def split: outcome.splits prod.splits intro: that(2))
  qed
qed

lemma dispatching_step:
  assumes "dispatching env seed start e (Some ((v, k), e', new))" "start \<noteq> ContextThrows"
  shows "(e', (if v = Returned (status_word Ok) then map notify ws else ws) @ new) = (e, ws)
    \<or> engine_step (e, ws) (e', (if v = Returned (status_word Ok) then map notify ws else ws) @ new)"
  using assms(1)
proof (cases rule: dispatching_dispatch)
  case (2 request st)
  from engine_step.dispatch [OF 2(1) assms(2), of ws] 2(2) show ?thesis by simp
qed simp

text \<open>The calls and steps that change only one of the two objects, as steps of that object's system.\<close>

lemma module_step_parts:
  assumes "module_step lexer dtoa start_faults (sys, s) (sys', s')"
  shows "(sys' = sys \<or> engine_step sys sys'
      \<or> (\<exists>env seed e v k e' new ws. start_faults \<and> sys = (e, ws) \<and> dispatching env seed ContextThrows e (Some ((v, k), e', new))
          \<and> sys' = (e', (if v = Returned (status_word Ok) then map notify ws else ws) @ new)))
    \<and> (json_session lexer dtoa s \<longrightarrow> json_session lexer dtoa s')"
  using assms
proof (cases rule: module_step.cases)
  case (dispatch env seed start e v k e' new ws)
  then show ?thesis using dispatching_step [OF dispatch(4), of ws] by (cases "start = ContextThrows") blast+
next
  case (read k buffer n e out e' ws)
  then show ?thesis
    by (auto simp: restifyReadResponse_def ReadAsyncResponse_def split: Option.bind_splits intro: engine_step.read)
next
  case (discard k e v e' ws)
  then show ?thesis
    by (auto simp: restifyDiscardResponse_def DiscardAsyncResponse_def split: prod.splits intro: engine_step.discard)
next
  case (discard_all e out e' ws)
  then show ?thesis
    by (auto simp: restifyDiscardAllResponses_def DiscardAllAsyncResponses_def split: prod.splits intro: engine_step.discard_all)
next
  case (parse ft it ticks json n v i)
  then show ?thesis by (auto simp: restifyJsonParse_def split: Option.bind_splits intro: session_parse)
next
  case (discard_document throws i v)
  then show ?thesis by (auto simp: restifyJsonDiscardDocument_def split: prod.splits intro: session_discard)
next
  case (discard_documents throws v i)
  then show ?thesis by (auto simp: restifyJsonDiscardAllDocuments_def split: prod.splits intro: session_discard_all)
qed (auto intro: engine_step.intros)

lemma module_parts:
  "module_reachable lexer dtoa False st \<Longrightarrow> reachable (fst st) \<and> json_session lexer dtoa (snd st)"
proof (induction rule: module_reachable.induct)
  case (step s s')
  with module_step_parts [of lexer dtoa False "fst s" "snd s" "fst s'" "snd s'"] show ?case
    by (auto intro: reachable.step)
qed (simp add: reachable.start session_start)

text \<open>Whatever fails, the table keeps its eight slots.\<close>

lemma Dispatch_length:
  assumes "Dispatch client request seed copy_throws start e = Some (r, e', new)"
  shows "length (slots e') = length (slots e)"
  using assms by (cases rule: Dispatch_cases) (simp_all add: queue_in_def)

lemma engine_step_length: "engine_step (e, ws) (e', ws') \<Longrightarrow> length (slots e') = length (slots e)"
  by (erule engine_stepE)
    (auto simp: Read_def Discard_def DiscardAll_def WorkerHead_def WorkerTake_def WorkerWake_def WorkerFinish_def Let_def
      dest: Dispatch_length split: option.splits if_splits Option.bind_splits)

lemma module_shape:
  "module_reachable lexer dtoa start_faults st \<Longrightarrow> length (slots (fst (fst st))) = 8 \<and> json_session lexer dtoa (snd st)"
proof (induction rule: module_reachable.induct)
  case (step s s')
  obtain e ws j e' ws' j' where s: "s = ((e, ws), j)" "s' = ((e', ws'), j')" by (cases s, cases s') force
  have "length (slots e') = length (slots e)"
    if "dispatching env seed ContextThrows e (Some ((v, k), e', new))" for env seed v k new
    using that by (cases rule: dispatching_dispatch) (auto dest: Dispatch_length)
  with module_step_parts [of lexer dtoa start_faults "(e, ws)" j "(e', ws')" j'] engine_step_length [of e ws e' ws'] step s
  show ?case by auto
qed (simp add: session_start AsyncEngine_def kAsyncRequestSlotCount_def)

section \<open>Every call returns\<close>

text \<open>A call that comes back with the number of a status, having stayed inside its arrays.\<close>

definition returns_status :: "(i32 \<times> 'a) mem \<Rightarrow> bool" where
  "returns_status r \<longleftrightarrow> (\<exists>st out. r = Some (status_word st, out))"

lemma returns_status_bind:
  "r \<noteq> None \<Longrightarrow> returns_status (do { (result, out) \<leftarrow> r; Some (status_word result, out) })"
  by (auto simp: returns_status_def)

lemma ReadJsonEntry_defined:
  assumes "buf_ok key n" "buf_ok val m"
  shows "ReadJsonEntry throws i k key n val m s \<noteq> None"
proof (cases "lookup_document s i")
  case (Some r)
  obtain st key' val' where "CopyEntryTexts (entries r ! unat k) key n val m = Some (st, key', val')"
    using CopyEntryTexts_defined [OF assms] by blast
  with Some show ?thesis by (simp add: ReadJsonEntry_def ReadEntry_lookup)
qed (simp add: ReadJsonEntry_def ReadEntry_lookup)

lemma ReadJsonValue_defined:
  assumes "buf_ok p n" "buf_ok val m"
  shows "ReadJsonValue dtoa throws i p n val m s \<noteq> None"
proof -
  have copied: "CopyToBuffer str val m \<bind> f \<noteq> None" if "\<And>x. f x \<noteq> None" for str and f :: "_ \<Rightarrow> 'a option"
    using CopyToBuffer_frame [OF assms(2), of str] that by auto
  have "ReadValue dtoa i path val m label s \<noteq> None" for path label
    by (auto simp: ReadValue_lookup copied simp del: not_None_eq split: option.split prod.split)
  moreover obtain st path where "BoundedText p n None = Some (st, path)"
    using BoundedText_defined [OF assms(1)] by blast
  moreover obtain st' out where "ReadValue dtoa i path val m EntryNone s = Some (st', out)"
    using calculation(1) by (metis not_None_eq prod.exhaust)
  ultimately show ?thesis by (cases out) (simp add: ReadJsonValue_def)
qed

lemma ReadJsonBool_defined: "buf_ok p n \<Longrightarrow> ReadJsonBool throws i p n s \<noteq> None"
  using ReadTypedAt_defined [of p n throws i False ReadBoolAt s] by (auto simp: ReadJsonBool_def)

lemma dispatching_returns:
  assumes "dispatching env seed start e r" "length (slots e) = 8"
  shows "\<exists>v k e' new. r = Some ((v, k), e', new)
    \<and> (v = Threw \<longrightarrow> copies_fail env \<or> start = ContextThrows \<or> copy_fails (text_mem env) \<or> (\<exists>k. header_fails (text_mem env) k))"
proof -
  obtain q c t m where r: "r = map_option dispatched_word
      (dispatch_texts (SyncClient env) (text_mem env) seed (copies_fail env) start e c t m q)"
    by (rule dispatching_request [OF assms(1)])
  have texts: "copy_fails (text_mem env) \<or> (\<exists>k. header_fails (text_mem env) k)" if "async_throws (text_mem env) q"
    using that by (auto simp: async_throws_def headers_throw_def list_ex_iff split: sum.splits)
  show ?thesis
  proof (cases "async_throws (text_mem env) q \<or> (\<exists>st. request_of c t m q = Inl st)")
    case True
    then show ?thesis using r texts by (auto simp: dispatch_texts_def dispatched_word_def)
  next
    case False
    then obtain request where q: "request_of c t m q = Inr request" by (cases "request_of c t m q") auto
    obtain st k e' new where d: "Dispatch (SyncClient env) request seed (copies_fail env) start e = Some ((st, k), e', new)"
      using Dispatch_returns [OF assms(2), of "SyncClient env" request seed "copies_fail env" start] by force
    then have "st = Threw \<Longrightarrow> copies_fail env \<or> start = ContextThrows"
      by (cases rule: Dispatch_cases) simp_all
    with r q d False show ?thesis by (auto simp: dispatch_texts_def dispatched_word_def split: outcome.splits)
  qed
qed

lemma Await_returns: "(True, e') \<in> set wakeups \<Longrightarrow> \<exists>st. fst (Await k ms e wakeups) = Some st"
  using AwaitWakeups_returns [of e' wakeups k] by (auto simp: Await_def split: option.split)

lemma Read_returns:
  assumes "buf_ok p n"
  shows "\<exists>st out e'. Read k p n e = Some ((st, out), e') \<and> frame_from (unat n) p (fst out)"
proof (cases "\<exists>i. FindLiveSlotLocked k e = Some i \<and> slot_state (slots e ! i) = Complete")
  case True
  then obtain i where i: "FindLiveSlotLocked k e = Some i" "slot_state (slots e ! i) = Complete" by blast
  obtain st buffer' where "CopyToBuffer (response_body (slot_response (slots e ! i))) p n = Some (st, buffer')"
    "frame_from (unat n) p buffer'"
    using CopyToBuffer_frame [OF assms] by blast
  with i show ?thesis by (simp add: Read_def Let_def)
next
  case False
  then show ?thesis by (auto simp: Read_def Let_def split: option.split)
qed

text \<open>C18: The exports over the process's objects always return. In every state the loaded module can
  get into, the states behind a thread start that found no memory included, each of the exported
  calls on requests and on documents, made with arrays of at least the stated sizes, touches no
  memory outside them and comes back: minting an id never loops for ever, a wait ends at its
  timeout at the latest, and the value is the number of a status. Only a dispatch can let an
  exception into CAPL, and only when memory runs out: for the texts, for the copy of the request
  or for the start context of a thread.
\<close>

theorem module_calls_return:
  assumes "module_reachable lexer dtoa start_faults ((e, ws), s)" "buf_ok p n" "buf_ok q m"
  shows "(dispatching env seed start e r \<longrightarrow>
        (\<exists>v k e' new. r = Some ((v, k), e', new)
          \<and> (v = Threw \<longrightarrow> copies_fail env \<or> start = ContextThrows \<or> copy_fails (text_mem env) \<or> (\<exists>k. header_fails (text_mem env) k))))
    \<and> (\<exists>st state. restifyPollResponse k e = (status_word st, state))
    \<and> ((\<exists>e'. (True, e') \<in> set wakeups) \<longrightarrow> (\<exists>st. restifyAwaitResponse k ms e wakeups = Some (status_word st)))
    \<and> (\<exists>st out e'. restifyReadResponse k p n e = Some ((status_word st, out), e') \<and> frame_from (unat n) p (fst out))
    \<and> (\<exists>st e'. restifyDiscardResponse k e = (status_word st, e'))
    \<and> (\<exists>st running e'. restifyDiscardAllResponses e = ((status_word st, running), e'))
    \<and> returns_status (restifyJsonParse lexer dtoa ft it ticks p n s)
    \<and> (\<exists>st count. restifyJsonCountEntries throws i s = (status_word st, count))
    \<and> returns_status (restifyJsonReadEntry throws i j p n q m s)
    \<and> returns_status (restifyJsonReadValue dtoa throws i p n q m s)
    \<and> returns_status (restifyJsonReadLong throws i p n s)
    \<and> returns_status (restifyJsonReadDouble throws i p n s)
    \<and> returns_status (restifyJsonReadBool throws i p n s)
    \<and> returns_status (restifyJsonCountElements throws i p n s)
    \<and> (\<exists>st s'. restifyJsonDiscardDocument throws i s = (status_word st, s'))
    \<and> (\<exists>st count s'. restifyJsonDiscardAllDocuments throws s = (status_word st, count, s'))
    \<and> returns_status (restifyJsonNormalize lexer throws p n q m)"
proof (intro conjI impI)
  have len: "length (slots e) = 8" and ok: "store_ok dtoa s"
    using module_shape [OF assms(1)] json_session_ok by auto
  show "\<exists>v k e' new. r = Some ((v, k), e', new)
      \<and> (v = Threw \<longrightarrow> copies_fail env \<or> start = ContextThrows \<or> copy_fails (text_mem env) \<or> (\<exists>k. header_fails (text_mem env) k))"
    if "dispatching env seed start e r" using that len by (rule dispatching_returns)
  show "\<exists>st state. restifyPollResponse k e = (status_word st, state)"
    by (auto simp: restifyPollResponse_def split: prod.split)
  show "\<exists>st. restifyAwaitResponse k ms e wakeups = Some (status_word st)" if "\<exists>e'. (True, e') \<in> set wakeups"
    using that Await_returns by (fastforce simp: restifyAwaitResponse_def AwaitAsyncResponse_def)
  show "\<exists>st e'. restifyDiscardResponse k e = (status_word st, e')"
    by (auto simp: restifyDiscardResponse_def split: prod.split)
  show "\<exists>st running e'. restifyDiscardAllResponses e = ((status_word st, running), e')"
    by (auto simp: restifyDiscardAllResponses_def split: prod.split)
  show "\<exists>st count. restifyJsonCountEntries throws i s = (status_word st, count)"
    by (auto simp: restifyJsonCountEntries_def split: prod.split)
  show "\<exists>st s'. restifyJsonDiscardDocument throws i s = (status_word st, s')"
    by (auto simp: restifyJsonDiscardDocument_def split: prod.split)
  show "\<exists>st count s'. restifyJsonDiscardAllDocuments throws s = (status_word st, count, s')"
    by (auto simp: restifyJsonDiscardAllDocuments_def split: prod.split)
  show "\<exists>st out e'. restifyReadResponse k p n e = Some ((status_word st, out), e') \<and> frame_from (unat n) p (fst out)"
    using Read_returns [OF assms(2), of k e] by (fastforce simp: restifyReadResponse_def ReadAsyncResponse_def)
  show "returns_status (restifyJsonParse lexer dtoa ft it ticks p n s)"
    using ParseJsonDocument_defined [OF ok assms(2), of lexer ft it ticks]
    by (auto simp: restifyJsonParse_def returns_status_def)
  show "returns_status (restifyJsonReadEntry throws i j p n q m s)"
    unfolding restifyJsonReadEntry_def by (intro returns_status_bind ReadJsonEntry_defined assms)
  show "returns_status (restifyJsonReadValue dtoa throws i p n q m s)"
    unfolding restifyJsonReadValue_def by (intro returns_status_bind ReadJsonValue_defined assms)
  show "returns_status (restifyJsonReadLong throws i p n s)"
    unfolding restifyJsonReadLong_def ReadJsonLong_def by (intro returns_status_bind ReadTypedAt_defined assms)
  show "returns_status (restifyJsonReadDouble throws i p n s)"
    unfolding restifyJsonReadDouble_def ReadJsonDouble_def by (intro returns_status_bind ReadTypedAt_defined assms)
  show "returns_status (restifyJsonReadBool throws i p n s)"
    unfolding restifyJsonReadBool_def by (intro returns_status_bind ReadJsonBool_defined assms)
  show "returns_status (restifyJsonCountElements throws i p n s)"
    unfolding restifyJsonCountElements_def CountJsonElements_def by (intro returns_status_bind ReadTypedAt_defined assms)
  show "returns_status (restifyJsonNormalize lexer throws p n q m)"
    using NormalizeJsonText_failure [OF assms(2,3), of lexer throws]
    by (auto simp: restifyJsonNormalize_def returns_status_def)
qed

text \<open>A module whose first dispatch was left by an exception of the start context.\<close>

definition stranded_request :: HttpRequest where
  "stranded_request = HttpRequest_default\<lparr>request_url := ''u''\<rparr>"

definition stranded_engine :: engine where
  "stranded_engine = (queue_in 0 7 8 (SyncClient sample_call_env) stranded_request AsyncEngine)\<lparr>moduleRefs := 1\<rparr>"

lemma stranded_reachable: "module_reachable lexer dtoa True ((stranded_engine, []), JsonDocumentStore)"
proof -
  have find: "FindSlotForDispatchLocked AsyncEngine = Some 0" by code_simp
  have stranded: "Dispatch (SyncClient sample_call_env) stranded_request 7 False ContextThrows AsyncEngine =
      Some ((Threw, 0), stranded_engine, [])"
    unfolding Dispatch_def Let_def find option.case start_freed start_mints prod.case
    by (simp add: update_slot_def CountPendingSlotsLocked_def StartWorkerLocked_def Let_def stranded_engine_def
        queue_in_def queued_slot_def kAsyncRequestSlotCount_def AsyncEngine_def empty_slot_def eight_slots)
  have "request_of 0 0 0 (plain_texts Get (c_text ''u'') 2 (c_text []) 1) = Inr stranded_request"
    by code_simp
  with stranded have "restifyGetAsync sample_call_env 7 ContextThrows (c_text ''u'') 2 (c_text []) 1 AsyncEngine =
      Some ((Threw, 0), stranded_engine, [])"
    by (simp add: restifyGetAsync_def DispatchGetAsync_def DispatchNoBodyVerb_eq dispatch_texts_def sample_call_env_def
        dispatched_word_def)
  moreover have "dispatching sample_call_env 7 ContextThrows AsyncEngine
      (restifyGetAsync sample_call_env 7 ContextThrows (c_text ''u'') 2 (c_text []) 1 AsyncEngine)"
    by (rule dispatching.get) simp_all
  ultimately show ?thesis
    using module_reachable.step [OF loaded [of lexer dtoa True]
      module_step.dispatch [of sample_call_env 7 ContextThrows AsyncEngine Threw 0 stranded_engine "[]" True lexer dtoa "[]"]]
    by simp
qed

theorem module_calls_return_witness:
  "(\<exists>v k e' new. restifyGetAsync sample_call_env 9 Started (c_text ''u'') 2 (c_text []) 1 stranded_engine =
      Some ((v, k), e', new) \<and> v \<noteq> Threw)
   \<and> (\<exists>st. restifyAwaitResponse 7 100 stranded_engine [(True, stranded_engine)] = Some (status_word st))"
proof -
  have "dispatching sample_call_env 9 Started stranded_engine
      (restifyGetAsync sample_call_env 9 Started (c_text ''u'') 2 (c_text []) 1 stranded_engine)"
    by (rule dispatching.get) simp_all
  moreover note module_calls_return [OF stranded_reachable, of NullPtr 0 NullPtr 0 sample_call_env 9 Started _ 7 "[(True, stranded_engine)]" 100]
  ultimately show ?thesis by (auto simp: sample_call_env_def all_memory_def)
qed

end
