(* ===== verification/Diyfp.thy ===== *)
theory Diyfp
  imports Doubles
begin

text \<open>
  The number printer of the vendored \<open>json.hpp\<close> (namespace \<open>dtoa_impl\<close>), first part: numbers
  \<open>f * 2^e\<close> with a 64-bit significand and the boundaries of a double. A failed assertion, a
  division by zero or a shift by more than the width is \<open>None\<close>, and so is a loop that never ends:
  a result is also a proof that none of these happens. Exponents are a few thousand at most, so
  an \<open>int\<close> of the source is an integer.
\<close>

unbundle bit_operations_syntax

section \<open>Operations\<close>

definition JSON_ASSERT :: "bool \<Rightarrow> unit option" where
  "JSON_ASSERT b = (if b then Some () else None)"

record diyfp =
  dfp_f :: u64
  dfp_e :: int

definition diyfp :: "u64 \<Rightarrow> int \<Rightarrow> diyfp" where
  "diyfp f' e' = \<lparr>dfp_f = f', dfp_e = e'\<rparr>"

definition diyfp_sub :: "diyfp \<Rightarrow> diyfp \<Rightarrow> diyfp option" where
  "diyfp_sub x y = do {
     JSON_ASSERT (dfp_e x = dfp_e y);
     JSON_ASSERT (dfp_f x \<ge> dfp_f y);
     Some (diyfp (dfp_f x - dfp_f y) (dfp_e x)) }"

text \<open>The product of two significands from products of their halves, rounded to its upper 64 bits.\<close>

definition diyfp_mul :: "diyfp \<Rightarrow> diyfp \<Rightarrow> diyfp" where
  "diyfp_mul x y =
     (let u_lo = dfp_f x AND 0xFFFFFFFF; u_hi = drop_bit 32 (dfp_f x);
          v_lo = dfp_f y AND 0xFFFFFFFF; v_hi = drop_bit 32 (dfp_f y);
          p0 = u_lo * v_lo; p1 = u_lo * v_hi; p2 = u_hi * v_lo; p3 = u_hi * v_hi;
          p0_hi = drop_bit 32 p0;
          p1_lo = p1 AND 0xFFFFFFFF; p1_hi = drop_bit 32 p1;
          p2_lo = p2 AND 0xFFFFFFFF; p2_hi = drop_bit 32 p2;
          Q = p0_hi + p1_lo + p2_lo;
          Q = Q + push_bit (64 - 32 - 1) 1;
          h = p3 + p2_hi + p1_hi + drop_bit 32 Q
      in diyfp h (dfp_e x + dfp_e y + 64))"

partial_function (option) normalize_loop :: "diyfp \<Rightarrow> diyfp option" where
  "normalize_loop x =
     (if drop_bit 63 (dfp_f x) = 0 then normalize_loop (diyfp (push_bit 1 (dfp_f x)) (dfp_e x - 1)) else Some x)"

declare normalize_loop.simps [code]

definition diyfp_normalize :: "diyfp \<Rightarrow> diyfp option" where
  "diyfp_normalize x = do { JSON_ASSERT (dfp_f x \<noteq> 0); normalize_loop x }"

definition diyfp_normalize_to :: "diyfp \<Rightarrow> int \<Rightarrow> diyfp option" where
  "diyfp_normalize_to x target_exponent =
     (let delta = dfp_e x - target_exponent
      in do {
        JSON_ASSERT (delta \<ge> 0);
        (if delta < 64 then Some () else None);
        JSON_ASSERT (drop_bit (nat delta) (push_bit (nat delta) (dfp_f x)) = dfp_f x);
        Some (diyfp (push_bit (nat delta) (dfp_f x)) target_exponent) })"

record boundaries =
  bnd_w :: diyfp
  bnd_minus :: diyfp
  bnd_plus :: diyfp

definition kHiddenBit :: u64 where "kHiddenBit = push_bit 52 1"
definition kBias :: int where "kBias = 1075"
definition kMinExp :: int where "kMinExp = 1 - kBias"

definition compute_boundaries :: "f64 \<Rightarrow> boundaries option" where
  "compute_boundaries val = do {
     JSON_ASSERT (is_finite_fp (decode_f64 val));
     JSON_ASSERT (fp_less (fp_of_int 0) (decode_f64 val));
     let E = drop_bit 52 val; F = val AND (kHiddenBit - 1);
         v = (if E = 0 then diyfp F kMinExp else diyfp (F + kHiddenBit) (int (unat E) - kBias));
         lower_boundary_is_closer = (F = 0 \<and> E > 1);
         m_plus = diyfp (2 * dfp_f v + 1) (dfp_e v - 1);
         m_minus = (if lower_boundary_is_closer then diyfp (4 * dfp_f v - 1) (dfp_e v - 2)
                    else diyfp (2 * dfp_f v - 1) (dfp_e v - 1))
     in do {
       w_plus \<leftarrow> diyfp_normalize m_plus;
       w_minus \<leftarrow> diyfp_normalize_to m_minus (dfp_e w_plus);
       w \<leftarrow> diyfp_normalize v;
       Some \<lparr>bnd_w = w, bnd_minus = w_minus, bnd_plus = w_plus\<rparr> } }"

section \<open>Words as numbers\<close>

text \<open>An operation that does not leave the 64 bits is the operation on natural numbers.\<close>

named_theorems word_exact \<open>64-bit operations that do not wrap, as operations on natural numbers\<close>

lemma unat_u64_less: "unat (x :: u64) < 2 ^ 64"
  using unsigned_less [of x] by simp

lemma u64_add [word_exact]: "unat x + unat y < 2 ^ 64 \<Longrightarrow> unat (x + y :: u64) = unat x + unat y"
  by (simp add: unat_word_ariths)

lemma u64_mult [word_exact]: "unat x * unat y < 2 ^ 64 \<Longrightarrow> unat (x * y :: u64) = unat x * unat y"
  by (simp add: unat_word_ariths)

lemma u64_sub [word_exact]: "unat y \<le> unat x \<Longrightarrow> unat (x - y :: u64) = unat x - unat y"
  by (rule unat_sub) (simp add: word_le_nat_alt)

lemma u64_shl [word_exact]: "unat x * 2 ^ n < 2 ^ 64 \<Longrightarrow> unat (push_bit n x :: u64) = unat x * 2 ^ n"
  by (simp add: unsigned_push_bit_eq push_bit_eq_mult [where 'a = nat] take_bit_nat_eq_self del: push_bit_eq_mult)

lemma u64_shr [word_exact]: "unat (drop_bit n x :: u64) = unat x div 2 ^ n"
  by (simp add: unsigned_drop_bit_eq drop_bit_eq_div [where 'a = nat] take_bit_nat_eq_self [OF unat_u64_less, simplified])

lemma u64_low [word_exact]: "unat (x AND 0xFFFFFFFF :: u64) = unat x mod 2 ^ 32"
proof -
  have "(0xFFFFFFFF :: u64) = mask 32" by (simp add: mask_eq_exp_minus_1)
  then show ?thesis by (simp only: take_bit_eq_mask [symmetric] unsigned_take_bit_eq) (simp only: take_bit_eq_mod)
qed

lemma u64_less [word_exact]: "(x :: u64) < y \<longleftrightarrow> unat x < unat y"
  by (rule word_less_nat_alt)

lemma u64_le [word_exact]: "(x :: u64) \<le> y \<longleftrightarrow> unat x \<le> unat y"
  by (rule word_le_nat_alt)

lemma u64_eq: "(x :: u64) = y \<longleftrightarrow> unat x = unat y"
  by (rule word_unat_eq_iff)

lemma diyfp_sel [simp]: "dfp_f (diyfp f' e') = f'" "dfp_e (diyfp f' e') = e'"
  by (simp_all add: diyfp_def)

lemma diyfp_eq [simp]: "diyfp f' e' = diyfp f'' e'' \<longleftrightarrow> f' = f'' \<and> e' = e''"
  by (simp add: diyfp_def)

lemma JSON_ASSERT_simps [simp]: "JSON_ASSERT True = Some ()" "b \<Longrightarrow> JSON_ASSERT b = Some ()"
  by (simp_all add: JSON_ASSERT_def)

section \<open>The product is rounded to nearest\<close>

lemma halves_product:
  fixes a b c d :: nat
  assumes "a < 2 ^ 32" "b < 2 ^ 32" "c < 2 ^ 32" "d < 2 ^ 32"
  defines "Q \<equiv> a * c div 2 ^ 32 + a * d mod 2 ^ 32 + b * c mod 2 ^ 32 + 2 ^ 31"
  shows "b * d + b * c div 2 ^ 32 + a * d div 2 ^ 32 + Q div 2 ^ 32 =
    ((a + 2 ^ 32 * b) * (c + 2 ^ 32 * d) + 2 ^ 63) div 2 ^ 64"
proof -
  let ?H = "b * d + b * c div 2 ^ 32 + a * d div 2 ^ 32" and ?r = "a * c mod 2 ^ 32 + 2 ^ 32 * (Q mod 2 ^ 32)"
  have r: "?r < 2 ^ 64"
  proof -
    have "Q mod 2 ^ 32 \<le> 2 ^ 32 - 1" "a * c mod 2 ^ 32 < 2 ^ 32" by (simp_all add: less_Suc_eq_le [symmetric] del: One_nat_def)
    then show ?thesis by simp
  qed
  obtain q0 r0 q1 r1 q2 r2 where qr: "q0 = a * c div 2 ^ 32" "r0 = a * c mod 2 ^ 32" "q1 = a * d div 2 ^ 32" "r1 = a * d mod 2 ^ 32"
    "q2 = b * c div 2 ^ 32" "r2 = b * c mod 2 ^ 32" by blast
  have parts: "a * c = 2 ^ 32 * q0 + r0" "a * d = 2 ^ 32 * q1 + r1" "b * c = 2 ^ 32 * q2 + r2" unfolding qr by simp_all
  have Q: "Q = q0 + r1 + r2 + 2 ^ 31" unfolding Q_def qr ..
  have "(a + 2 ^ 32 * b) * (c + 2 ^ 32 * d) + 2 ^ 63 = a * c + 2 ^ 32 * (a * d + b * c) + 2 ^ 64 * (b * d) + 2 ^ 63"
    by (simp add: algebra_simps)
  also have "\<dots> = 2 ^ 64 * ?H + (a * c mod 2 ^ 32 + 2 ^ 32 * Q)"
    unfolding qr [symmetric] Q by (simp add: parts algebra_simps)
  also have "\<dots> = 2 ^ 64 * (?H + Q div 2 ^ 32) + ?r"
  proof -
    obtain d' r' where d: "Q div 2 ^ 32 = d'" "Q mod 2 ^ 32 = r'" "Q = 2 ^ 32 * d' + r'" by (metis mult_div_mod_eq)
    show ?thesis unfolding d(1,2) by (simp add: d(3) algebra_simps)
  qed
  finally have sum: "(a + 2 ^ 32 * b) * (c + 2 ^ 32 * d) + 2 ^ 63 = 2 ^ 64 * (?H + Q div 2 ^ 32) + ?r" .
  have "(2 ^ 64 * K + m) div 2 ^ 64 = K" if "m < 2 ^ 64" for K m :: nat using that by simp
  from this [OF r] show ?thesis unfolding sum by (rule sym)
qed

lemma u64_add3: "unat x + unat y + unat z < 2 ^ 64 \<Longrightarrow> unat (x + y + z :: u64) = unat x + unat y + unat z"
  using u64_add [of x y] u64_add [of "x + y" z] by simp

lemma u64_add4:
  "unat x + unat y + unat z + unat w < 2 ^ 64 \<Longrightarrow> unat (x + y + z + w :: u64) = unat x + unat y + unat z + unat w"
  using u64_add3 [of x y z] u64_add [of "x + y + z" w] by simp

lemma small_sums:
  fixes i j k :: nat
  assumes "i \<le> 2 ^ 32" "j \<le> 2 ^ 32" "k \<le> 2 ^ 32"
  shows "i + j < 2 ^ 64" "i + j + k < 2 ^ 64" "i + j + k + 2 ^ 31 < 2 ^ 64"
  using assms by simp_all

lemma unat_diyfp_mul:
  "unat (dfp_f (diyfp_mul x y)) = (unat (dfp_f x) * unat (dfp_f y) + 2 ^ 63) div 2 ^ 64"
proof -
  let ?X = "unat (dfp_f x)" and ?Y = "unat (dfp_f y)"
  let ?a = "?X mod 2 ^ 32" and ?b = "?X div 2 ^ 32" and ?c = "?Y mod 2 ^ 32" and ?d = "?Y div 2 ^ 32"
  have half: "?a < 2 ^ 32" "?b < 2 ^ 32" "?c < 2 ^ 32" "?d < 2 ^ 32"
    using unat_u64_less [of "dfp_f x"] unat_u64_less [of "dfp_f y"] by (simp_all add: less_mult_imp_div_less)
  have small: "m * n \<le> (2 ^ 32 - 1) * (2 ^ 32 - 1)" if "m < 2 ^ 32" "n < 2 ^ 32" for m n :: nat
    using that by (intro mult_mono) simp_all
  have p: "m * n < 2 ^ 64" if "m < 2 ^ 32" "n < 2 ^ 32" for m n :: nat
    using small [OF that] by simp
  have q: "m * n div 2 ^ 32 \<le> 2 ^ 32" if "m < 2 ^ 32" "n < 2 ^ 32" for m n :: nat
    using div_le_mono [OF small [OF that], of "2 ^ 32"] by simp
  define u_lo u_hi v_lo v_hi where uv: "u_lo = dfp_f x AND 0xFFFFFFFF" "u_hi = drop_bit 32 (dfp_f x)"
    "v_lo = dfp_f y AND 0xFFFFFFFF" "v_hi = drop_bit 32 (dfp_f y)"
  have parts: "unat u_lo = ?a" "unat u_hi = ?b" "unat v_lo = ?c" "unat v_hi = ?d" unfolding uv by (rule u64_low u64_shr)+
  have prod: "unat (u_lo * v_lo) = ?a * ?c" "unat (u_lo * v_hi) = ?a * ?d" "unat (u_hi * v_lo) = ?b * ?c" "unat (u_hi * v_hi) = ?b * ?d"
    by (subst u64_mult; simp only: parts p half)+
  define Q where "Q = drop_bit 32 (u_lo * v_lo) + (u_lo * v_hi AND 0xFFFFFFFF) + (u_hi * v_lo AND 0xFFFFFFFF)"
  have le: "m mod 2 ^ 32 \<le> 2 ^ 32" for m :: nat by (rule less_imp_le) simp
  have sums: "?a * ?c div 2 ^ 32 + ?a * ?d mod 2 ^ 32 < 2 ^ 64"
    "?a * ?c div 2 ^ 32 + ?a * ?d mod 2 ^ 32 + ?b * ?c mod 2 ^ 32 < 2 ^ 64"
    "?a * ?c div 2 ^ 32 + ?a * ?d mod 2 ^ 32 + ?b * ?c mod 2 ^ 32 + 2 ^ 31 < 2 ^ 64"
    by (rule small_sums; rule q le; rule half)+
  have Q: "unat Q = ?a * ?c div 2 ^ 32 + ?a * ?d mod 2 ^ 32 + ?b * ?c mod 2 ^ 32"
    unfolding Q_def using sums(2)
      u64_add3 [of "drop_bit 32 (u_lo * v_lo)" "u_lo * v_hi AND 0xFFFFFFFF" "u_hi * v_lo AND 0xFFFFFFFF"]
    by (simp only: u64_shr u64_low prod)
  have "unat (push_bit (64 - 32 - 1) (1 :: u64)) = 2 ^ 31" by simp
  with Q have Q': "unat (Q + push_bit (64 - 32 - 1) 1) =
      ?a * ?c div 2 ^ 32 + ?a * ?d mod 2 ^ 32 + ?b * ?c mod 2 ^ 32 + 2 ^ 31"
    using u64_add [of Q "push_bit (64 - 32 - 1) 1"] sums(3) by (simp only:)
  let ?h = "?b * ?d + ?b * ?c div 2 ^ 32 + ?a * ?d div 2 ^ 32 +
      (?a * ?c div 2 ^ 32 + ?a * ?d mod 2 ^ 32 + ?b * ?c mod 2 ^ 32 + 2 ^ 31) div 2 ^ 32"
  have h: "?h = (?X * ?Y + 2 ^ 63) div 2 ^ 64" unfolding halves_product [OF half] by (simp only: mod_mult_div_eq)
  have "?X * ?Y \<le> (2 ^ 64 - 1) * (2 ^ 64 - 1)"
    using unat_u64_less [of "dfp_f x"] unat_u64_less [of "dfp_f y"] by (intro mult_mono) simp_all
  then have "(?X * ?Y + 2 ^ 63) div 2 ^ 64 < 2 ^ 64" by (intro less_mult_imp_div_less) simp
  then have fits: "?h < 2 ^ 64" unfolding h .
  have f: "dfp_f (diyfp_mul x y) =
      u_hi * v_hi + drop_bit 32 (u_hi * v_lo) + drop_bit 32 (u_lo * v_hi) + drop_bit 32 (Q + push_bit (64 - 32 - 1) 1)"
    by (simp only: diyfp_mul_def Let_def uv Q_def diyfp_sel)
  have "unat (dfp_f (diyfp_mul x y)) = ?h"
    using u64_add4 [of "u_hi * v_hi" "drop_bit 32 (u_hi * v_lo)" "drop_bit 32 (u_lo * v_hi)" "drop_bit 32 (Q + push_bit (64 - 32 - 1) 1)"] fits
    by (simp only: f u64_shr prod Q')
  then show ?thesis unfolding h .
qed

lemma dfp_e_mul [simp]: "dfp_e (diyfp_mul x y) = dfp_e x + dfp_e y + 64"
  by (simp add: diyfp_mul_def Let_def)

section \<open>Normalization\<close>

lemma unat_of_nat_u64 [simp]: "n < 2 ^ 64 \<Longrightarrow> unat (of_nat n :: u64) = n"
  by (simp add: unat_of_nat take_bit_nat_eq_self)

lemma u64_of_nat_shl: "push_bit n (of_nat m :: u64) = of_nat (m * 2 ^ n)"
  by (simp add: push_bit_eq_mult)

text \<open>The only shift that brings a significand to its full 64 bits.\<close>

definition full_shift :: "nat \<Rightarrow> nat \<Rightarrow> bool" where
  "full_shift m k \<longleftrightarrow> 2 ^ 63 \<le> m * 2 ^ k \<and> m * 2 ^ k < 2 ^ 64"

lemma full_shift_exists:
  assumes "0 < m" "m < 2 ^ 64"
  shows "\<exists>k. full_shift m k"
proof -
  have b: "2 ^ (bit_length m - 1) \<le> m" "m < 2 ^ bit_length m" using bit_length_bounds [OF assms(1)] by simp_all
  have pos: "0 < bit_length m" using assms(1) by (subst bit_length.simps) simp
  have "(2 :: nat) ^ (bit_length m - 1) < 2 ^ 64" using b(1) assms(2) by linarith
  then have "bit_length m - 1 < 64" by (rule power_less_imp_less_exp [rotated]) simp
  then have l: "bit_length m \<le> 64" by simp
  let ?k = "64 - bit_length m"
  have "2 ^ (bit_length m - 1) * 2 ^ ?k \<le> m * 2 ^ ?k" "m * 2 ^ ?k < 2 ^ bit_length m * 2 ^ ?k" using b by simp_all
  then have "full_shift m ?k" using l pos by (simp add: full_shift_def flip: power_add)
  then show ?thesis ..
qed

lemma le_shifted: "(m :: nat) \<le> m * 2 ^ k"
  using mult_le_mono2 [of 1 "2 ^ k" m] by simp

lemma normalize_loop_full:
  "full_shift m k \<Longrightarrow> normalize_loop (diyfp (of_nat m) e') = Some (diyfp (of_nat (m * 2 ^ k)) (e' - int k))"
proof (induction k arbitrary: m e')
  case 0
  then have m: "2 ^ 63 \<le> m" "m < 2 ^ 64" by (simp_all add: full_shift_def)
  then have "unat (drop_bit 63 (of_nat m :: u64)) \<noteq> 0" by (simp add: u64_shr div_eq_0_iff)
  then have "drop_bit 63 (of_nat m :: u64) \<noteq> 0" by auto
  then show ?case by (subst normalize_loop.simps) simp
next
  case (Suc k)
  then have f: "2 ^ 63 \<le> m * 2 * 2 ^ k" "m * 2 * 2 ^ k < 2 ^ 64" by (simp_all add: full_shift_def mult.assoc)
  have "m * 2 < 2 ^ 64" by (rule order.strict_trans1 [OF le_shifted f(2)])
  then have m: "m < 2 ^ 63" by simp
  then have "drop_bit 63 (of_nat m :: u64) = 0" by (simp add: u64_eq u64_shr)
  then show ?case using Suc.IH [of "m * 2" "e' - 1"] f
    by (subst normalize_loop.simps) (simp add: u64_of_nat_shl full_shift_def mult.assoc mult.commute)
qed

lemma diyfp_normalize_full:
  assumes "full_shift m k"
  shows "diyfp_normalize (diyfp (of_nat m) e') = Some (diyfp (of_nat (m * 2 ^ k)) (e' - int k))"
proof -
  have "m < 2 ^ 64" by (rule order.strict_trans1 [OF le_shifted [of m k]]) (use assms in \<open>simp add: full_shift_def\<close>)
  moreover have "m \<noteq> 0" using assms by (cases "m = 0") (simp_all add: full_shift_def)
  ultimately have "(of_nat m :: u64) \<noteq> 0" by (simp add: u64_eq)
  then show ?thesis using normalize_loop_full [OF assms] by (simp add: diyfp_normalize_def)
qed

lemma diyfp_normalize_to_exact:
  assumes "e' = t + int d" "d < 64" "m * 2 ^ d < 2 ^ 64"
  shows "diyfp_normalize_to (diyfp (of_nat m) e') t = Some (diyfp (of_nat (m * 2 ^ d)) t)"
proof -
  have m: "m < 2 ^ 64" using assms(3) le_shifted [of m d] by linarith
  have "unat (drop_bit d (push_bit d (of_nat m)) :: u64) = m * 2 ^ d div 2 ^ d"
    unfolding u64_of_nat_shl u64_shr unat_of_nat_u64 [OF assms(3)] ..
  then have "drop_bit d (push_bit d (of_nat m)) = (of_nat m :: u64)"
    unfolding u64_eq unat_of_nat_u64 [OF m] by simp
  then show ?thesis using assms(1,2) by (simp add: diyfp_normalize_to_def u64_of_nat_shl)
qed

section \<open>The boundaries of a double\<close>

text \<open>A significand and exponent that a finite positive double can have.\<close>

definition double_parts :: "nat \<Rightarrow> int \<Rightarrow> bool" where
  "double_parts m e \<longleftrightarrow> 0 < m \<and> m < 2 ^ 53 \<and> - 1074 \<le> e \<and> e \<le> 971 \<and> (e = - 1074 \<or> 2 ^ 52 \<le> m)"

text \<open>The predecessor is half as far away at the start of a binade.\<close>

definition closer_below :: "nat \<Rightarrow> int \<Rightarrow> bool" where
  "closer_below m e \<longleftrightarrow> m = 2 ^ 52 \<and> - 1074 < e"

lemma decode_fields:
  assumes "decode_f64 d = FpFin False m e"
  defines "ex \<equiv> unat d div 2 ^ 52" and "man \<equiv> unat d mod 2 ^ 52"
  shows "unat d < 2 ^ 63" "ex < 2047" "ex = 0 \<longrightarrow> m = man \<and> e = - 1074" "ex \<noteq> 0 \<longrightarrow> m = man + 2 ^ 52 \<and> e = int ex - 1075"
proof -
  let ?n = "unat d"
  have s: "?n div 2 ^ 63 \<noteq> 1" using assms(1) by (auto simp: decode_f64_def Let_def split: if_splits)
  have "?n div 2 ^ 63 < 2" using unat_u64_less [of d] by (simp add: less_mult_imp_div_less)
  with s have "?n div 2 ^ 63 = 0" by linarith
  then show n: "?n < 2 ^ 63" by (simp add: div_eq_0_iff)
  then have ex: "ex < 2 ^ 11" unfolding ex_def by (simp add: less_mult_imp_div_less)
  have "(?n div 2 ^ 52) mod 2 ^ 11 = ex" unfolding ex_def [symmetric] using ex by simp
  then show "ex < 2047" "ex = 0 \<longrightarrow> m = man \<and> e = - 1074" "ex \<noteq> 0 \<longrightarrow> m = man + 2 ^ 52 \<and> e = int ex - 1075"
    using assms(1) ex s unfolding decode_f64_def Let_def man_def by (auto split: if_splits)
qed

lemma decode_double_parts:
  assumes "decode_f64 d = FpFin False m e" "0 < m"
  shows "double_parts m e"
  using decode_fields [OF assms(1)] assms(2) mod_less_divisor [of "2 ^ 52" "unat d"]
  by (cases "unat d div 2 ^ 52 = 0") (simp_all add: double_parts_def)

text \<open>The two parts of a positive double's pattern, put together again.\<close>

definition double_bits :: "nat \<Rightarrow> int \<Rightarrow> nat" where
  "double_bits m e = nat (e + 1074) * 2 ^ 52 + m"

lemma decode_double_bits:
  assumes "decode_f64 d = FpFin False m e"
  shows "unat d = double_bits m e"
proof -
  have d: "unat d = 2 ^ 52 * (unat d div 2 ^ 52) + unat d mod 2 ^ 52" by simp
  show ?thesis
  proof (cases "unat d div 2 ^ 52")
    case 0
    then show ?thesis using decode_fields(3) [OF assms] d by (simp add: double_bits_def)
  next
    case (Suc k)
    then have "m = unat d mod 2 ^ 52 + 2 ^ 52" "e = int k - 1074" using decode_fields(4) [OF assms] by simp_all
    then show ?thesis using d unfolding Suc by (simp add: double_bits_def)
  qed
qed

text \<open>The parts as the printer reads them from the pattern.\<close>

lemma printer_fields:
  assumes "decode_f64 d = FpFin False m e" "0 < m"
  defines "E \<equiv> drop_bit 52 d" and "F \<equiv> d AND (kHiddenBit - 1)"
  shows "(if E = 0 then diyfp F kMinExp else diyfp (F + kHiddenBit) (int (unat E) - kBias)) = diyfp (of_nat m) e"
    "F = 0 \<and> E > 1 \<longleftrightarrow> closer_below m e"
proof -
  let ?ex = "unat d div 2 ^ 52" and ?man = "unat d mod 2 ^ 52"
  note fields = decode_fields [OF assms(1)]
  have E: "unat E = ?ex" unfolding E_def by (rule u64_shr)
  have h: "kHiddenBit = 2 ^ 52" by (simp add: kHiddenBit_def push_bit_eq_mult)
  then have "kHiddenBit - 1 = mask 52" by (simp add: mask_eq_exp_minus_1)
  then have F: "unat F = ?man" unfolding F_def by (simp only: take_bit_eq_mask [symmetric] unsigned_take_bit_eq) (simp only: take_bit_eq_mod)
  have F': "F = of_nat ?man" unfolding F [symmetric] by simp
  have E0: "E = 0 \<longleftrightarrow> ?ex = 0" using E by (simp add: u64_eq)
  show "(if E = 0 then diyfp F kMinExp else diyfp (F + kHiddenBit) (int (unat E) - kBias)) = diyfp (of_nat m) e"
    using fields(3,4) E0 E F' h by (auto simp: kMinExp_def kBias_def)
  have "F = 0 \<longleftrightarrow> ?man = 0" using F by (simp add: u64_eq)
  moreover have "E > 1 \<longleftrightarrow> ?ex > 1" using E by (simp add: u64_less)
  moreover have "?man < 2 ^ 52" by simp
  ultimately show "F = 0 \<and> E > 1 \<longleftrightarrow> closer_below m e"
    using fields(3,4) assms(2) by (cases "?ex = 0") (auto simp: closer_below_def)
qed

definition lower_boundary :: "nat \<Rightarrow> int \<Rightarrow> nat \<Rightarrow> nat" where
  "lower_boundary m e k = (if closer_below m e then (4 * m - 1) * 2 ^ (k - 2) else (2 * m - 1) * 2 ^ (k - 1))"

lemma full_shift_range:
  assumes "full_shift m k" "m < 2 ^ 53"
  shows "11 \<le> k" "k \<le> 63" "2 ^ 52 \<le> m \<Longrightarrow> k = 11"
proof -
  have f: "2 ^ 63 \<le> m * 2 ^ k" "m * 2 ^ k < 2 ^ 64" using assms(1) by (simp_all add: full_shift_def)
  show k: "11 \<le> k"
  proof (rule ccontr)
    assume "\<not> 11 \<le> k"
    then have "(2 :: nat) ^ k \<le> 2 ^ 10" by (intro power_increasing) simp_all
    then have "m * 2 ^ k \<le> (2 ^ 53 - 1) * 2 ^ 10" using assms(2) by (intro mult_le_mono) simp_all
    with f(1) show False by simp
  qed
  have "0 < m" using f(1) by (cases "m = 0") simp_all
  then have "(2 :: nat) ^ k < 2 ^ 64" using f(2) mult_le_mono1 [of 1 m "2 ^ k"] by linarith
  then show "k \<le> 63" using power_less_imp_less_exp [of "2 :: nat" k 64] by simp
  show "k = 11" if "2 ^ 52 \<le> m"
  proof (rule ccontr)
    assume "k \<noteq> 11"
    with k have "(2 :: nat) ^ 12 \<le> 2 ^ k" by (intro power_increasing) simp_all
    with that have "2 ^ 52 * 2 ^ 12 \<le> m * 2 ^ k" by (rule mult_le_mono)
    with f(2) show False by simp
  qed
qed

lemma upper_full_shift:
  assumes "full_shift m k" "0 < k"
  shows "full_shift (2 * m + 1) (k - 1)"
proof -
  obtain j where k: "k = Suc j" using assms(2) by (cases k) simp_all
  have f: "2 ^ 63 \<le> 2 * m * 2 ^ j" "2 * m * 2 ^ j < 2 ^ 64" using assms(1) k by (simp_all add: full_shift_def mult.commute mult.assoc)
  have "0 < m" using f(1) by (cases "m = 0") simp_all
  then have "(2 :: nat) ^ k < 2 ^ 64" using assms(1) mult_le_mono1 [of 1 m "2 ^ k"] unfolding full_shift_def by linarith
  then have "k < 64" by (rule power_less_imp_less_exp [rotated]) simp
  then have whole: "(2 :: nat) ^ 64 = 2 ^ (64 - k) * 2 ^ k" by (simp flip: power_add)
  then have "m * 2 ^ k < 2 ^ (64 - k) * 2 ^ k" using assms(1) by (simp only: full_shift_def)
  then have "m < 2 ^ (64 - k)" by (simp only: mult_less_cancel2)
  then have "(m + 1) * 2 ^ k \<le> 2 ^ (64 - k) * 2 ^ k" by (intro mult_le_mono1) simp
  then have "(m + 1) * 2 ^ k \<le> 2 ^ 64" using whole by linarith
  moreover have "(m + 1) * 2 ^ k = 2 * m * 2 ^ j + 2 ^ j + 2 ^ j" "0 < (2 :: nat) ^ j" using k by (simp_all add: algebra_simps)
  ultimately have "2 * m * 2 ^ j + 2 ^ j < 2 ^ 64" by linarith
  then show ?thesis using f(1) k by (simp add: full_shift_def algebra_simps)
qed

text \<open>
  With the shift that fills the significand: the double, the midpoints to its neighbours, all with
  the same exponent.
\<close>

lemma compute_boundaries_exact:
  assumes "decode_f64 d = FpFin False m e" "0 < m" "full_shift m k"
  shows "compute_boundaries d = Some \<lparr>bnd_w = diyfp (of_nat (m * 2 ^ k)) (e - int k),
    bnd_minus = diyfp (of_nat (lower_boundary m e k)) (e - int k),
    bnd_plus = diyfp (of_nat ((2 * m + 1) * 2 ^ (k - 1))) (e - int k)\<rparr>"
proof -
  have m: "m < 2 ^ 53" using decode_double_parts [OF assms(1,2)] by (simp add: double_parts_def)
  note k = full_shift_range [OF assms(3) m]
  note read = printer_fields [OF assms(1,2)]
  have pos: "fp_less (fp_of_int 0) (decode_f64 d)" "is_finite_fp (decode_f64 d)"
    using assms(1,2) by (simp_all add: fp_of_int_def signed_def is_finite_fp_def)
  have up: "diyfp_normalize (diyfp (2 * of_nat m + 1) (e - 1)) = Some (diyfp (of_nat ((2 * m + 1) * 2 ^ (k - 1))) (e - int k))"
    using diyfp_normalize_full [OF upper_full_shift [OF assms(3)], of "e - 1"] k(1) by (simp add: of_nat_diff add.commute)
  have low: "diyfp_normalize_to (if closer_below m e then diyfp (4 * of_nat m - 1) (e - 2) else diyfp (2 * of_nat m - 1) (e - 1)) (e - int k) =
      Some (diyfp (of_nat (lower_boundary m e k)) (e - int k))"
  proof (cases "closer_below m e")
    case True
    then have m52: "m = 2 ^ 52" by (simp add: closer_below_def)
    then have "k = 11" using k(3) by simp
    then show ?thesis using True m52 diyfp_normalize_to_exact [of "e - 2" "e - 11" 9 "4 * m - 1"]
      by (simp add: lower_boundary_def)
  next
    case False
    have "(2 * m - 1) * 2 ^ (k - 1) \<le> (2 * m + 1) * 2 ^ (k - 1)" by (intro mult_le_mono1) simp
    also have "\<dots> < 2 ^ 64" using upper_full_shift [OF assms(3)] k(1) unfolding full_shift_def by linarith
    finally have "(2 * m - 1) * 2 ^ (k - 1) < 2 ^ 64" .
    then show ?thesis using False assms(2) k diyfp_normalize_to_exact [of "e - 1" "e - int k" "k - 1" "2 * m - 1"]
      by (simp add: lower_boundary_def of_nat_diff)
  qed
  show ?thesis
    unfolding compute_boundaries_def Let_def read diyfp_sel
    by (simp only: pos JSON_ASSERT_simps Option.bind.simps up low diyfp_normalize_full [OF assms(3)] diyfp_sel)
qed

end
