(* ===== verification/Cached_Powers.thy ===== *)
theory Cached_Powers
  imports Diyfp "HOL-Library.Signed_Division"
begin

text \<open>
  The table of powers of ten of \<open>dtoa_impl\<close> and its lookup. Every entry is the power of ten it
  stands for, rounded to 64 bits, and the entry taken for a binary exponent brings products into the
  range that the digit generation needs.
\<close>

section \<open>The table\<close>

definition kAlpha :: int where "kAlpha = - 60"
definition kGamma :: int where "kGamma = - 32"

record cached_power =
  cp_f :: u64
  cp_e :: int
  cp_k :: int

definition cached_power :: "u64 \<Rightarrow> int \<Rightarrow> int \<Rightarrow> cached_power" where
  "cached_power f' e' k' = \<lparr>cp_f = f', cp_e = e', cp_k = k'\<rparr>"

definition kCachedPowersMinDecExp :: int where "kCachedPowersMinDecExp = - 300"
definition kCachedPowersDecStep :: int where "kCachedPowersDecStep = 8"

definition kCachedPowers :: "cached_power list" where
  "kCachedPowers = [
     cached_power 0xAB70FE17C79AC6CA (- 1060) (- 300),
     cached_power 0xFF77B1FCBEBCDC4F (- 1034) (- 292),
     cached_power 0xBE5691EF416BD60C (- 1007) (- 284),
     cached_power 0x8DD01FAD907FFC3C (- 980) (- 276),
     cached_power 0xD3515C2831559A83 (- 954) (- 268),
     cached_power 0x9D71AC8FADA6C9B5 (- 927) (- 260),
     cached_power 0xEA9C227723EE8BCB (- 901) (- 252),
     cached_power 0xAECC49914078536D (- 874) (- 244),
     cached_power 0x823C12795DB6CE57 (- 847) (- 236),
     cached_power 0xC21094364DFB5637 (- 821) (- 228),
     cached_power 0x9096EA6F3848984F (- 794) (- 220),
     cached_power 0xD77485CB25823AC7 (- 768) (- 212),
     cached_power 0xA086CFCD97BF97F4 (- 741) (- 204),
     cached_power 0xEF340A98172AACE5 (- 715) (- 196),
     cached_power 0xB23867FB2A35B28E (- 688) (- 188),
     cached_power 0x84C8D4DFD2C63F3B (- 661) (- 180),
     cached_power 0xC5DD44271AD3CDBA (- 635) (- 172),
     cached_power 0x936B9FCEBB25C996 (- 608) (- 164),
     cached_power 0xDBAC6C247D62A584 (- 582) (- 156),
     cached_power 0xA3AB66580D5FDAF6 (- 555) (- 148),
     cached_power 0xF3E2F893DEC3F126 (- 529) (- 140),
     cached_power 0xB5B5ADA8AAFF80B8 (- 502) (- 132),
     cached_power 0x87625F056C7C4A8B (- 475) (- 124),
     cached_power 0xC9BCFF6034C13053 (- 449) (- 116),
     cached_power 0x964E858C91BA2655 (- 422) (- 108),
     cached_power 0xDFF9772470297EBD (- 396) (- 100),
     cached_power 0xA6DFBD9FB8E5B88F (- 369) (- 92),
     cached_power 0xF8A95FCF88747D94 (- 343) (- 84),
     cached_power 0xB94470938FA89BCF (- 316) (- 76),
     cached_power 0x8A08F0F8BF0F156B (- 289) (- 68),
     cached_power 0xCDB02555653131B6 (- 263) (- 60),
     cached_power 0x993FE2C6D07B7FAC (- 236) (- 52),
     cached_power 0xE45C10C42A2B3B06 (- 210) (- 44),
     cached_power 0xAA242499697392D3 (- 183) (- 36),
     cached_power 0xFD87B5F28300CA0E (- 157) (- 28),
     cached_power 0xBCE5086492111AEB (- 130) (- 20),
     cached_power 0x8CBCCC096F5088CC (- 103) (- 12),
     cached_power 0xD1B71758E219652C (- 77) (- 4),
     cached_power 0x9C40000000000000 (- 50) 4,
     cached_power 0xE8D4A51000000000 (- 24) 12,
     cached_power 0xAD78EBC5AC620000 3 20,
     cached_power 0x813F3978F8940984 30 28,
     cached_power 0xC097CE7BC90715B3 56 36,
     cached_power 0x8F7E32CE7BEA5C70 83 44,
     cached_power 0xD5D238A4ABE98068 109 52,
     cached_power 0x9F4F2726179A2245 136 60,
     cached_power 0xED63A231D4C4FB27 162 68,
     cached_power 0xB0DE65388CC8ADA8 189 76,
     cached_power 0x83C7088E1AAB65DB 216 84,
     cached_power 0xC45D1DF942711D9A 242 92,
     cached_power 0x924D692CA61BE758 269 100,
     cached_power 0xDA01EE641A708DEA 295 108,
     cached_power 0xA26DA3999AEF774A 322 116,
     cached_power 0xF209787BB47D6B85 348 124,
     cached_power 0xB454E4A179DD1877 375 132,
     cached_power 0x865B86925B9BC5C2 402 140,
     cached_power 0xC83553C5C8965D3D 428 148,
     cached_power 0x952AB45CFA97A0B3 455 156,
     cached_power 0xDE469FBD99A05FE3 481 164,
     cached_power 0xA59BC234DB398C25 508 172,
     cached_power 0xF6C69A72A3989F5C 534 180,
     cached_power 0xB7DCBF5354E9BECE 561 188,
     cached_power 0x88FCF317F22241E2 588 196,
     cached_power 0xCC20CE9BD35C78A5 614 204,
     cached_power 0x98165AF37B2153DF 641 212,
     cached_power 0xE2A0B5DC971F303A 667 220,
     cached_power 0xA8D9D1535CE3B396 694 228,
     cached_power 0xFB9B7CD9A4A7443C 720 236,
     cached_power 0xBB764C4CA7A44410 747 244,
     cached_power 0x8BAB8EEFB6409C1A 774 252,
     cached_power 0xD01FEF10A657842C 800 260,
     cached_power 0x9B10A4E5E9913129 827 268,
     cached_power 0xE7109BFBA19C0C9D 853 276,
     cached_power 0xAC2820D9623BF429 880 284,
     cached_power 0x80444B5E7AA7CF85 907 292,
     cached_power 0xBF21E44003ACDD2D 933 300,
     cached_power 0x8E679C2F5E44FF8F 960 308,
     cached_power 0xD433179D9C8CB841 986 316,
     cached_power 0x9E19DB92B4E31BA9 1013 324]"

text \<open>\<open>sdiv\<close> is the division of C++, which truncates.\<close>

definition get_cached_power_for_binary_exponent :: "int \<Rightarrow> cached_power option" where
  "get_cached_power_for_binary_exponent e = do {
     JSON_ASSERT (e \<ge> - 1500);
     JSON_ASSERT (e \<le> 1500);
     let f = kAlpha - e - 1;
         k = (f * 78913) sdiv 2 ^ 18 + (if f > 0 then 1 else 0);
         index = (- kCachedPowersMinDecExp + k + (kCachedPowersDecStep - 1)) sdiv kCachedPowersDecStep
     in do {
       JSON_ASSERT (index \<ge> 0);
       JSON_ASSERT (nat index < length kCachedPowers);
       let cached = kCachedPowers ! nat index
       in do {
         JSON_ASSERT (kAlpha \<le> cp_e cached + e + 64);
         JSON_ASSERT (kGamma \<ge> cp_e cached + e + 64);
         Some cached } } }"

lemma cached_power_sel [simp]:
  "cp_f (cached_power f' e' k') = f'" "cp_e (cached_power f' e' k') = e'" "cp_k (cached_power f' e' k') = k'"
  by (simp_all add: cached_power_def)

section \<open>Every entry is a rounded power of ten\<close>

text \<open>
  Bounds \<open>l\<close> and \<open>u\<close> on the power of ten, with 64 more bits than the entry, are carried from entry to
  entry; each entry is normalized and within half a unit of both.
\<close>

fun powers_ok :: "int \<Rightarrow> int \<Rightarrow> int \<Rightarrow> int \<Rightarrow> cached_power list \<Rightarrow> bool" where
  "powers_ok l u e k [] = True"
| "powers_ok l u e k (c # cs) =
     (let f = uint (cp_f c)
      in cp_e c = e \<and> cp_k c = k \<and> 2 ^ 63 \<le> f \<and> 2 * (f * 2 ^ 64) \<le> 2 * l + 2 ^ 64 \<and> 2 * u \<le> 2 * (f * 2 ^ 64) + 2 ^ 64 \<and>
         k * 2 ^ 18 < (e + 64) * 78913 \<and> (e + 34) * 78913 < (k - 8) * 2 ^ 18 \<and>
         (case cs of [] \<Rightarrow> True
          | c' # _ \<Rightarrow> e \<le> cp_e c' \<and>
              (let s = nat (cp_e c' - e) in powers_ok (l * 10 ^ 8 div 2 ^ s) (u * 10 ^ 8 div 2 ^ s + 1) (cp_e c') (k + 8) cs)))"

lemma table_ok: "powers_ok 227884678143438210606695688214919443462 227884678143438210606695688214919443463 (- 1060) (- 300) kCachedPowers"
  by code_simp

lemma first_power:
  "227884678143438210606695688214919443462 * 10 ^ 300 \<le> (2::int) ^ 1124"
  "(2::int) ^ 1124 \<le> 227884678143438210606695688214919443463 * 10 ^ 300"
  by code_simp+

definition power_entry :: "cached_power \<Rightarrow> bool" where
  "power_entry c \<longleftrightarrow> 2 ^ 63 \<le> uint (cp_f c) \<and> \<bar>10 powi cp_k c / 2 powi cp_e c - (of_int (uint (cp_f c)) :: real)\<bar> \<le> 1 / 2"

definition entry_range :: "cached_power \<Rightarrow> bool" where
  "entry_range c \<longleftrightarrow> cp_k c * 2 ^ 18 < (cp_e c + 64) * 78913 \<and> (cp_e c + 34) * 78913 < (cp_k c - 8) * 2 ^ 18"

definition power_between :: "int \<Rightarrow> int \<Rightarrow> int \<Rightarrow> int \<Rightarrow> bool" where
  "power_between l u e k \<longleftrightarrow> of_int l * 2 powi (e - 64) \<le> (10 powi k :: real) \<and> (10 powi k :: real) \<le> of_int u * 2 powi (e - 64)"

lemma power_between_step:
  assumes "power_between l u e k" "e \<le> e'"
  defines "s \<equiv> nat (e' - e)"
  shows "power_between (l * 10 ^ 8 div 2 ^ s) (u * 10 ^ 8 div 2 ^ s + 1) e' (k + 8)"
proof -
  have scale: "(2::real) powi (e' - 64) = 2 ^ s * 2 powi (e - 64)"
    using assms(2) powi_scale [of "e - 64" "e' - 64"] by (simp add: s_def)
  have ten: "(10::real) powi (k + 8) = 10 ^ 8 * 10 powi k" by (simp add: power_int_add)
  have pos: "0 < (2::real) powi (e - 64)" by simp
  have low: "(l * 10 ^ 8 div 2 ^ s) * 2 ^ s \<le> l * 10 ^ 8" and up: "u * 10 ^ 8 \<le> (u * 10 ^ 8 div 2 ^ s + 1) * 2 ^ s"
    using less_imp_le [OF pos_mod_bound [of "2 ^ s" "u * 10 ^ 8"]] pos_mod_sign [of "2 ^ s" "l * 10 ^ 8"]
    by (simp_all add: minus_mod_eq_div_mult [symmetric] distrib_right)
  have "of_int (l * 10 ^ 8 div 2 ^ s) * (2::real) ^ s \<le> of_int l * 10 ^ 8"
    using low [folded of_int_le_iff [where 'a = real]] by simp
  then have "of_int (l * 10 ^ 8 div 2 ^ s) * (2::real) ^ s * 2 powi (e - 64) \<le> of_int l * 10 ^ 8 * 2 powi (e - 64)"
    by (rule mult_right_mono) simp
  also have "\<dots> \<le> 10 ^ 8 * 10 powi k" using assms(1) by (simp add: power_between_def)
  finally have lower: "of_int (l * 10 ^ 8 div 2 ^ s) * 2 powi (e' - 64) \<le> (10 powi (k + 8) :: real)"
    unfolding scale ten by (simp add: mult.assoc)
  have "of_int u * 10 ^ 8 \<le> of_int (u * 10 ^ 8 div 2 ^ s + 1) * (2::real) ^ s"
    using up [folded of_int_le_iff [where 'a = real]] by simp
  then have "of_int u * 10 ^ 8 * 2 powi (e - 64) \<le> of_int (u * 10 ^ 8 div 2 ^ s + 1) * (2::real) ^ s * 2 powi (e - 64)"
    by (rule mult_right_mono) simp
  moreover have "10 ^ 8 * 10 powi k \<le> of_int u * 10 ^ 8 * (2::real) powi (e - 64)" using assms(1) by (simp add: power_between_def)
  ultimately have "10 ^ 8 * 10 powi k \<le> of_int (u * 10 ^ 8 div 2 ^ s + 1) * (2::real) ^ s * 2 powi (e - 64)"
    by (rule order.trans [rotated])
  then have "(10 powi (k + 8) :: real) \<le> of_int (u * 10 ^ 8 div 2 ^ s + 1) * 2 powi (e' - 64)"
    unfolding scale ten by (simp add: mult.assoc)
  with lower show ?thesis by (simp add: power_between_def)
qed

lemma power_between_entry:
  assumes "power_between l u e k" "2 * (f * 2 ^ 64) \<le> 2 * l + 2 ^ 64" "2 * u \<le> 2 * (f * 2 ^ 64) + 2 ^ 64"
  shows "\<bar>10 powi k / 2 powi e - (of_int f :: real)\<bar> \<le> 1 / 2"
proof -
  have e: "(2::real) powi e = 2 ^ 64 * 2 powi (e - 64)" using powi_scale [of "e - 64" e] by simp
  have pos: "0 < (2::real) powi (e - 64)" by simp
  define x where "x = (10::real) powi k / 2 powi (e - 64)"
  have x: "of_int l \<le> x" "x \<le> of_int u" using assms(1) by (simp_all add: power_between_def x_def field_simps)
  have "2 * (of_int f * 2 ^ 64) \<le> 2 * (of_int l :: real) + 2 ^ 64" "2 * (of_int u :: real) \<le> 2 * (of_int f * 2 ^ 64) + 2 ^ 64"
    using assms(2,3) [folded of_int_le_iff [where 'a = real]] by simp_all
  with x have "\<bar>x - of_int f * 2 ^ 64\<bar> \<le> 2 ^ 63" unfolding abs_le_iff by simp
  moreover have "\<bar>x / 2 ^ 64 - of_int f\<bar> = \<bar>x - of_int f * 2 ^ 64\<bar> / 2 ^ 64" 
    using abs_divide [of "x - of_int f * 2 ^ 64" "2 ^ 64"] by (simp add: diff_divide_distrib)
  ultimately have "\<bar>x / 2 ^ 64 - of_int f\<bar> \<le> 1 / 2" by simp
  then show ?thesis unfolding e x_def by (simp add: mult.commute)
qed

lemma powers_ok_entries:
  assumes "powers_ok l u e k cs" "power_between l u e k" "i < length cs"
  shows "power_entry (cs ! i) \<and> entry_range (cs ! i) \<and> cp_k (cs ! i) = k + 8 * int i"
  using assms
proof (induction cs arbitrary: l u e k i)
  case (Cons c cs)
  let ?f = "uint (cp_f c)"
  have c: "cp_e c = e" "cp_k c = k" "2 ^ 63 \<le> ?f" "2 * (?f * 2 ^ 64) \<le> 2 * l + 2 ^ 64" "2 * u \<le> 2 * (?f * 2 ^ 64) + 2 ^ 64"
    "k * 2 ^ 18 < (e + 64) * 78913" "(e + 34) * 78913 < (k - 8) * 2 ^ 18"
    using Cons.prems(1) by (simp_all only: powers_ok.simps Let_def)
  show ?case
  proof (cases i)
    case 0
    have "power_entry c" unfolding power_entry_def c(1,2) using c(3) power_between_entry [OF Cons.prems(2) c(4,5)] by blast
    with 0 c show ?thesis by (simp add: entry_range_def)
  next
    case (Suc j)
    with Cons.prems(3) obtain c' cs' where cs: "cs = c' # cs'" by (cases cs) simp_all
    let ?s = "nat (cp_e c' - e)"
    have e: "e \<le> cp_e c'" and ok: "powers_ok (l * 10 ^ 8 div 2 ^ ?s) (u * 10 ^ 8 div 2 ^ ?s + 1) (cp_e c') (k + 8) cs"
      using Cons.prems(1) unfolding cs by (simp_all only: powers_ok.simps(2) [of l] Let_def list.case)
    from Cons.IH [OF ok power_between_step [OF Cons.prems(2) e], of j] Suc Cons.prems(3) show ?thesis by simp
  qed
qed simp

lemma power_between_start:
  assumes "l * 10 ^ n \<le> (2::int) ^ m" "(2::int) ^ m \<le> u * 10 ^ n"
  shows "power_between l u (64 - int m) (- int n)"
  using assms [folded of_int_le_iff [where 'a = real]]
  by (simp add: power_between_def power_int_minus field_simps)

lemma table_length: "length kCachedPowers = 79"
  by (simp add: kCachedPowers_def)

lemma table_entry:
  assumes "i < 79"
  shows "power_entry (kCachedPowers ! i)" "entry_range (kCachedPowers ! i)" "cp_k (kCachedPowers ! i) = 8 * int i - 300"
proof -
  have "power_between 227884678143438210606695688214919443462 227884678143438210606695688214919443463 (- 1060) (- 300)"
    using power_between_start [OF first_power] by simp
  from powers_ok_entries [OF table_ok this, of i] assms
  show "power_entry (kCachedPowers ! i)" "entry_range (kCachedPowers ! i)" "cp_k (kCachedPowers ! i) = 8 * int i - 300"
    by (simp_all add: table_length)
qed

section \<open>The lookup\<close>

text \<open>The scaled logarithm, rounded up, whatever the sign.\<close>

lemma rounded_up_quotient:
  fixes f :: int
  defines "k \<equiv> (f * 78913) sdiv 2 ^ 18 + (if f > 0 then 1 else 0)"
  shows "(k - 1) * 2 ^ 18 \<le> f * 78913" "f * 78913 \<le> k * 2 ^ 18"
proof -
  have "k = (if f > 0 then f * 78913 div 2 ^ 18 + 1 else - ((- f * 78913) div 2 ^ 18))"
    by (auto simp: k_def signed_divide_int_def sgn_mult abs_mult sgn_if)
  then show "(k - 1) * 2 ^ 18 \<le> f * 78913" "f * 78913 \<le> k * 2 ^ 18" by (cases "f > 0"; simp)+
qed

theorem cached_power_lookup:
  assumes "- 1137 \<le> e" "e \<le> 960"
  obtains c where "get_cached_power_for_binary_exponent e = Some c" "power_entry c"
    "- 60 \<le> cp_e c + e + 64" "cp_e c + e + 64 \<le> - 32" "- 300 \<le> cp_k c" "cp_k c \<le> 324"
proof -
  define f where "f = kAlpha - e - 1"
  define k where "k = (f * 78913) sdiv 2 ^ 18 + (if f > 0 then 1 else 0)"
  define x where "x = (k + 307) sdiv 8"
  have f: "f = - 61 - e" by (simp add: f_def kAlpha_def)
  have k: "(k - 1) * 2 ^ 18 \<le> f * 78913" "f * 78913 \<le> k * 2 ^ 18"
    unfolding k_def by (rule rounded_up_quotient)+
  have kb: "- 307 \<le> k" "k \<le> 324" using k f assms by simp_all
  then have x: "x = (k + 307) div 8" by (simp add: x_def signed_divide_int_def sgn_if)
  then have xb: "0 \<le> x" "x < 79" "k \<le> 8 * x - 300" "8 * x - 307 \<le> k" using kb by linarith+
  let ?c = "kCachedPowers ! nat x"
  have c: "power_entry ?c" "entry_range ?c" "cp_k ?c = 8 * x - 300" using table_entry [of "nat x"] xb(1,2) by simp_all
  have r: "- 60 \<le> cp_e ?c + e + 64" "cp_e ?c + e + 64 \<le> - 32"
    using c(2,3) xb k f by (simp_all add: entry_range_def)
  have "get_cached_power_for_binary_exponent e = Some ?c"
    unfolding get_cached_power_for_binary_exponent_def f_def [symmetric] Let_def k_def [symmetric]
    using assms xb(1,2) r by (simp add: x_def kCachedPowersMinDecExp_def kCachedPowersDecStep_def add.commute table_length kAlpha_def kGamma_def)
  then show thesis using that c r xb(1,2) by simp
qed

end
