(* ===== verification/Digit_Generation.thy ===== *)
theory Digit_Generation
  imports Diyfp Decimal Cached_Powers
begin

text \<open>
  \<open>grisu2_digit_gen\<close> and \<open>grisu2_round\<close> of \<open>dtoa_impl\<close>: the decimal digits of a number between
  \<open>M-\<close> and \<open>M+\<close>, from left to right until the rest is small enough, the last one then moved towards
  \<open>w\<close>. \<open>b\<close> is the position of the digits in the printer's buffer. The digits lie in the interval,
  there are at most 17, and the first is not a zero.
\<close>

section \<open>The code\<close>

definition mem_read :: "char list \<Rightarrow> nat \<Rightarrow> char option" where
  "mem_read buf i = (if i < length buf then Some (buf ! i) else None)"

definition find_largest_pow10 :: "u32 \<Rightarrow> nat \<times> u32" where
  "find_largest_pow10 n =
     (if n \<ge> 1000000000 then (10, 1000000000)
      else if n \<ge> 100000000 then (9, 100000000)
      else if n \<ge> 10000000 then (8, 10000000)
      else if n \<ge> 1000000 then (7, 1000000)
      else if n \<ge> 100000 then (6, 100000)
      else if n \<ge> 10000 then (5, 10000)
      else if n \<ge> 1000 then (4, 1000)
      else if n \<ge> 100 then (3, 100)
      else if n \<ge> 10 then (2, 10)
      else (1, 1))"

partial_function (option) grisu2_round_loop :: "nat \<Rightarrow> u64 \<Rightarrow> u64 \<Rightarrow> u64 \<Rightarrow> char list \<Rightarrow> u64 \<Rightarrow> char list option" where
  "grisu2_round_loop i dist' delta ten_k buf rest =
     (if rest < dist' \<and> delta - rest \<ge> ten_k \<and> (rest + ten_k < dist' \<or> dist' - rest > rest + ten_k - dist')
      then do {
        c \<leftarrow> mem_read buf i;
        JSON_ASSERT (c \<noteq> CHR ''0'');
        buf \<leftarrow> mem_write buf i [char_of (of_char c - 1 :: int)];
        grisu2_round_loop i dist' delta ten_k buf (rest + ten_k) }
      else Some buf)"

declare grisu2_round_loop.simps [code]

definition grisu2_round :: "char list \<Rightarrow> nat \<Rightarrow> nat \<Rightarrow> u64 \<Rightarrow> u64 \<Rightarrow> u64 \<Rightarrow> u64 \<Rightarrow> char list option" where
  "grisu2_round buf b len dist' delta rest ten_k = do {
     JSON_ASSERT (len \<ge> 1);
     JSON_ASSERT (dist' \<le> delta);
     JSON_ASSERT (rest \<le> delta);
     JSON_ASSERT (ten_k > 0);
     grisu2_round_loop (b + len - 1) dist' delta ten_k buf rest }"

text \<open>
  The loop over the digits of the integral part \<open>p1\<close>, \<open>n\<close> of them left: it returns from the whole
  function (\<open>Inl\<close>, with the exponent of the last digit) or runs out of digits (\<open>Inr\<close>).
\<close>

fun integral_digits ::
  "nat \<Rightarrow> diyfp \<Rightarrow> u64 \<Rightarrow> u64 \<Rightarrow> u64 \<Rightarrow> nat \<Rightarrow> char list \<Rightarrow> nat \<Rightarrow> u32 \<Rightarrow> u32 \<Rightarrow> ((char list \<times> nat \<times> nat) + (char list \<times> nat)) option" where
  "integral_digits b one delta dist' p2 0 buffer len p1 pow10 = Some (Inr (buffer, len))"
| "integral_digits b one delta dist' p2 (Suc n) buffer len p1 pow10 = do {
     (if pow10 = 0 then None else Some ());
     let d = p1 div pow10; r = p1 mod pow10
     in do {
       JSON_ASSERT (d \<le> 9);
       buffer \<leftarrow> mem_write buffer (b + len) [digit_char (unat d)];
       let len = len + 1; p1 = r; rest = push_bit (nat (- dfp_e one)) (ucast p1) + p2
       in if rest \<le> delta then
            let ten_n = push_bit (nat (- dfp_e one)) (ucast pow10)
            in do { buffer \<leftarrow> grisu2_round buffer b len dist' delta rest ten_n; Some (Inl (buffer, len, n)) }
          else integral_digits b one delta dist' p2 n buffer len p1 (pow10 div 10) } }"

text \<open>The loop over the digits of the fraction \<open>p2\<close>, which may not end.\<close>

partial_function (option) fraction_digits ::
  "nat \<Rightarrow> diyfp \<Rightarrow> char list \<Rightarrow> nat \<Rightarrow> u64 \<Rightarrow> nat \<Rightarrow> u64 \<Rightarrow> u64 \<Rightarrow> (char list \<times> nat \<times> u64 \<times> nat \<times> u64 \<times> u64) option" where
  "fraction_digits b one buffer len p2 m delta dist' = do {
     JSON_ASSERT (p2 \<le> - 1 div 10);
     let p2 = p2 * 10; d = drop_bit (nat (- dfp_e one)) p2; r = p2 AND (dfp_f one - 1)
     in do {
       JSON_ASSERT (d \<le> 9);
       buffer \<leftarrow> mem_write buffer (b + len) [digit_char (unat d)];
       let len = len + 1; p2 = r; m = m + 1; delta = delta * 10; dist' = dist' * 10
       in if p2 \<le> delta then Some (buffer, len, p2, m, delta, dist')
          else fraction_digits b one buffer len p2 m delta dist' } }"

declare fraction_digits.simps [code]

definition grisu2_digit_gen ::
  "char list \<Rightarrow> nat \<Rightarrow> nat \<Rightarrow> int \<Rightarrow> diyfp \<Rightarrow> diyfp \<Rightarrow> diyfp \<Rightarrow> (char list \<times> nat \<times> int) option" where
  "grisu2_digit_gen buffer b len decimal_exponent M_minus w M_plus = do {
     JSON_ASSERT (dfp_e M_plus \<ge> kAlpha);
     JSON_ASSERT (dfp_e M_plus \<le> kGamma);
     delta \<leftarrow> diyfp_sub M_plus M_minus;
     dist' \<leftarrow> diyfp_sub M_plus w;
     let delta = dfp_f delta; dist' = dfp_f dist';
         one = diyfp (push_bit (nat (- dfp_e M_plus)) 1) (dfp_e M_plus);
         p1 = (ucast (drop_bit (nat (- dfp_e one)) (dfp_f M_plus)) :: u32);
         p2 = dfp_f M_plus AND (dfp_f one - 1)
     in do {
       JSON_ASSERT (p1 > 0);
       let (k, pow10) = find_largest_pow10 p1
       in do {
         res \<leftarrow> integral_digits b one delta dist' p2 k buffer len p1 pow10;
         (case res of
            Inl (buffer, len, n) \<Rightarrow> Some (buffer, len, decimal_exponent + int n)
          | Inr (buffer, len) \<Rightarrow> do {
              JSON_ASSERT (p2 > delta);
              (buffer, len, p2, m, delta, dist') \<leftarrow> fraction_digits b one buffer len p2 0 delta dist';
              buffer \<leftarrow> grisu2_round buffer b len dist' delta p2 (dfp_f one);
              Some (buffer, len, decimal_exponent - int m) }) } } }"

section \<open>Digits of a number, from the left\<close>

text \<open>
  The digits so far, the weight \<open>U\<close> of the last of them and the rest \<open>R\<close> below it make up \<open>B\<close>; the
  rest is still above \<open>D\<close>.
\<close>

definition digits_left :: "string \<Rightarrow> nat \<Rightarrow> nat \<Rightarrow> nat \<Rightarrow> nat \<Rightarrow> bool" where
  "digits_left ds U R B D \<longleftrightarrow> list_all IsDigit ds \<and> B = dec_value ds * U + R \<and> R < U \<and> D < R \<and> B < 10 ^ 16 * D \<and>
     (if ds = [] then U \<le> 10 * R else hd ds \<noteq> CHR ''0'')"

text \<open>Digits with one more digit \<open>d\<close>, behind which the rest is no longer above \<open>D\<close>.\<close>

definition last_digit :: "string \<Rightarrow> nat \<Rightarrow> nat \<Rightarrow> nat \<Rightarrow> nat \<Rightarrow> nat \<Rightarrow> bool" where
  "last_digit ds d U R B D \<longleftrightarrow> list_all IsDigit ds \<and> d \<le> 9 \<and> length ds \<le> 16 \<and> B = (10 * dec_value ds + d) * U + R \<and> R \<le> D \<and>
     D < d * U + R \<and> (ds \<noteq> [] \<longrightarrow> hd ds \<noteq> CHR ''0'')"

text \<open>Digits that are done: within \<open>D\<close> below \<open>B\<close>.\<close>

definition digits_done :: "string \<Rightarrow> nat \<Rightarrow> nat \<Rightarrow> nat \<Rightarrow> bool" where
  "digits_done ds U B D \<longleftrightarrow> list_all IsDigit ds \<and> ds \<noteq> [] \<and> length ds \<le> 17 \<and> hd ds \<noteq> CHR ''0'' \<and>
     dec_value ds * U \<le> B \<and> B \<le> dec_value ds * U + D"

lemma dec_value_less: "list_all IsDigit ds \<Longrightarrow> dec_value ds < 10 ^ length ds"
proof (induction ds rule: rev_induct)
  case (snoc c ds)
  then have "dec_value ds + 1 \<le> 10 ^ length ds" "digit_value c < 10" by simp_all
  then show ?case by simp
qed (simp add: dec_value_def)

lemma dec_value_Cons: "dec_value (c # ds) = digit_value c * 10 ^ length ds + dec_value ds"
  by (induction ds rule: rev_induct) (simp_all flip: append_Cons add: dec_value_def)

lemma dec_value_append: "dec_value (ds @ es) = dec_value ds * 10 ^ length es + dec_value es"
  by (induction ds) (simp_all add: dec_value_Cons dec_value_def [of "[]"] power_add algebra_simps)

lemma digit_value_pos: "IsDigit c \<Longrightarrow> c \<noteq> CHR ''0'' \<Longrightarrow> 0 < digit_value c"
  by (metis digit_char_0 digit_char_value gr0I)

lemma dec_value_ge:
  assumes "list_all IsDigit ds" "ds \<noteq> []" "hd ds \<noteq> CHR ''0''"
  shows "10 ^ (length ds - 1) \<le> dec_value ds"
proof -
  obtain c cs where ds: "ds = c # cs" using assms(2) by (cases ds) simp_all
  have "10 ^ (length ds - 1) = (1 :: nat) * 10 ^ length cs" by (simp add: ds)
  also have "\<dots> \<le> digit_value c * 10 ^ length cs" using digit_value_pos [of c] assms ds by (intro mult_le_mono1) simp
  also have "\<dots> \<le> dec_value ds" unfolding ds dec_value_Cons by (rule le_add1)
  finally show ?thesis .
qed

lemma digits_left_length:
  assumes "digits_left ds U R B D"
  shows "length ds \<le> 16"
proof (cases "ds = []")
  case False
  have "10 ^ (length ds - 1) \<le> dec_value ds" using assms False dec_value_ge by (simp add: digits_left_def)
  then have "10 ^ (length ds - 1) * D \<le> dec_value ds * U" using assms by (intro mult_le_mono) (simp_all add: digits_left_def)
  then have "10 ^ (length ds - 1) * D < 10 ^ 16 * D" using assms unfolding digits_left_def by linarith
  then have "(10::nat) ^ (length ds - 1) < 10 ^ 16" by (simp only: mult_less_cancel2)
  then have "length ds - 1 < 16" by (rule power_less_imp_less_exp [rotated]) simp
  then show ?thesis by simp
qed simp

lemma digits_left_scale: "digits_left ds U R B D \<Longrightarrow> digits_left ds (10 * U) (10 * R) (10 * B) (10 * D)"
  by (cases "ds = []") (simp_all add: digits_left_def algebra_simps)

lemma digit_char_zero: "d \<le> 9 \<Longrightarrow> digit_char d = CHR ''0'' \<longleftrightarrow> d = 0"
proof -
  assume "d \<le> 9"
  then have "digit_value (digit_char d) = d" by (intro digit_value_digit_char) simp
  moreover have "digit_value (CHR ''0'') = 0" by (simp add: digit_value_def)
  ultimately show ?thesis by (metis digit_char_0)
qed

lemma digits_step:
  assumes "digits_left ds (10 * U) R B D"
  defines "d \<equiv> R div U" and "R' \<equiv> R mod U"
  shows "d \<le> 9" "R' \<le> D \<Longrightarrow> last_digit ds d U R' B D" "D < R' \<Longrightarrow> digits_left (ds @ [digit_char d]) U R' B D"
    "U \<le> B"
proof -
  note left = assms(1) [unfolded digits_left_def]
  have R: "R < 10 * U" using left by simp
  then have U: "0 < U" by (cases "U = 0") simp_all
  have eq: "R = d * U + R'" by (simp add: d_def R'_def)
  have "d < 10" using R by (simp add: d_def less_mult_imp_div_less)
  then show d: "d \<le> 9" by simp
  have B: "B = (10 * dec_value ds + d) * U + R'" using left eq by (simp add: algebra_simps)
  have first: "1 \<le> d" if "ds = []"
  proof -
    have "U \<le> R" using left that by simp
    then show ?thesis using U by (simp add: d_def Suc_le_eq div_greater_zero_iff)
  qed
  have dr: "list_all IsDigit ds" "D < d * U + R'" "ds \<noteq> [] \<longrightarrow> hd ds \<noteq> CHR ''0''"
    using left eq by (simp_all split: if_splits)
  show "R' \<le> D \<Longrightarrow> last_digit ds d U R' B D"
    unfolding last_digit_def using d B dr digits_left_length [OF assms(1)] by blast
  have "IsDigit (digit_char d)" using d by simp
  moreover have "hd (ds @ [digit_char d]) \<noteq> CHR ''0''"
    using first d left digit_char_zero [of d] by (cases "ds = []") auto
  ultimately show "D < R' \<Longrightarrow> digits_left (ds @ [digit_char d]) U R' B D"
    using left d B U unfolding digits_left_def by (simp add: R'_def)
  show "U \<le> B"
  proof (cases "ds = []")
    case True
    then show ?thesis using left by simp
  next
    case False
    then have "0 < dec_value ds" using left dec_value_ge [of ds] by (metis gr0I le_zero_eq power_not_zero zero_neq_numeral)
    then have "1 * U \<le> (10 * dec_value ds + d) * U" by (intro mult_le_mono1) simp
    with B show ?thesis by linarith
  qed
qed

text \<open>Moving the last digit down by \<open>j\<close>, as long as the rest stays within \<open>D\<close>.\<close>

lemma last_digit_done:
  assumes "last_digit ds d U R B D" "D < B" "R + j * U \<le> D"
  shows "j < d" "digits_done (ds @ [digit_char (d - j)]) U B D"
proof -
  note last = assms(1) [unfolded last_digit_def]
  have "j * U < d * U" using last assms(3) by linarith
  then show j: "j < d" by simp
  have small: "d - j < 10" using last by linarith
  then have "digit_value (digit_char (d - j)) = d - j" by simp
  then have ev: "dec_value (ds @ [digit_char (d - j)]) * U + j * U = (10 * dec_value ds + d) * U"
    using j by (simp flip: distrib_right)
  have "IsDigit (digit_char (d - j))" using small by simp
  moreover have "digit_char (d - j) \<noteq> CHR ''0''" using digit_char_zero [of "d - j"] small j by simp
  then have "hd (ds @ [digit_char (d - j)]) \<noteq> CHR ''0''" using last by (cases "ds = []") simp_all
  ultimately show "digits_done (ds @ [digit_char (d - j)]) U B D"
    using last assms(3) ev unfolding digits_done_def by simp
qed

section \<open>The rounding loop\<close>

lemma mem_at_end [simp]:
  "length pre = i \<Longrightarrow> mem_read (pre @ c # rest) i = Some c"
  "length pre = i \<Longrightarrow> mem_write (pre @ c # rest) i [c'] = Some (pre @ c' # rest)"
  by (auto simp: mem_read_def mem_write_def nth_append)

lemma digit_down: "0 < q \<Longrightarrow> q \<le> 9 \<Longrightarrow> char_of (of_char (digit_char q) - 1 :: int) = digit_char (q - 1)"
proof -
  assume q: "0 < q" "q \<le> 9"
  have c: "digit_char n = char_of (int (48 + n))" for n unfolding digit_char_def by (rule char_of_nat [symmetric])
  have "(of_char (digit_char q) :: int) = int (48 + q)" using q unfolding c of_char_of by simp
  moreover have "int (48 + q) - 1 = int (48 + (q - 1))" using q by simp
  ultimately show ?thesis unfolding c [of "q - 1"] by (simp only:)
qed

lemma round_loop_down:
  assumes "unat rest \<le> unat delta" "unat dist' \<le> unat delta" "unat delta < unat rest + q * unat ten_k" "q \<le> 9" "length pre = i"
  shows "\<exists>j. grisu2_round_loop i dist' delta ten_k (pre @ digit_char q # junk) rest = Some (pre @ digit_char (q - j) # junk) \<and>
    unat rest + j * unat ten_k \<le> unat delta"
  using assms
proof (induction q arbitrary: rest)
  case 0
  then show ?case by simp
next
  case (Suc q)
  let ?go = "rest < dist' \<and> delta - rest \<ge> ten_k \<and> (rest + ten_k < dist' \<or> dist' - rest > rest + ten_k - dist')"
  show ?case
  proof (cases ?go)
    case False
    then show ?thesis using Suc.prems by (subst grisu2_round_loop.simps) (auto intro: exI [of _ 0])
  next
    case True
    have "unat (delta - rest) = unat delta - unat rest" using Suc.prems(1) by (rule u64_sub)
    with True have "unat ten_k \<le> unat delta - unat rest" by (simp add: u64_le)
    then have fits: "unat rest + unat ten_k \<le> unat delta" using Suc.prems(1) by linarith
    then have sum: "unat (rest + ten_k) = unat rest + unat ten_k" using unat_u64_less [of delta] by (intro u64_add) linarith
    from Suc.IH [of "rest + ten_k"] obtain j where
      "grisu2_round_loop i dist' delta ten_k (pre @ digit_char q # junk) (rest + ten_k) = Some (pre @ digit_char (q - j) # junk)"
      "unat rest + (j + 1) * unat ten_k \<le> unat delta"
      using Suc.prems fits by (auto simp: sum algebra_simps)
    then show ?thesis using True Suc.prems(4,5) digit_down [of "Suc q"] digit_char_zero [of "Suc q"]
      by (subst grisu2_round_loop.simps) (auto intro!: exI [of _ "j + 1"])
  qed
qed

lemma grisu2_round_done:
  assumes "last_digit ds d (unat ten_k) (unat rest) B (unat delta)" "unat delta < B" "unat dist' \<le> unat delta" "length pre = b"
  shows "\<exists>ds'. grisu2_round (pre @ ds @ digit_char d # junk) b (Suc (length ds)) dist' delta rest ten_k = Some (pre @ ds' @ junk) \<and>
    length ds' = Suc (length ds) \<and> digits_done ds' (unat ten_k) B (unat delta)"
proof -
  note last = assms(1) [unfolded last_digit_def]
  have "unat rest \<le> unat delta" "unat delta < unat rest + d * unat ten_k" "d \<le> 9" using last by simp_all
  from round_loop_down [OF this(1) assms(3) this(2,3), of "pre @ ds" "b + length ds" junk] assms(4)
  obtain j where run: "grisu2_round_loop (b + length ds) dist' delta ten_k (pre @ ds @ digit_char d # junk) rest =
      Some (pre @ ds @ digit_char (d - j) # junk)" and j: "unat rest + j * unat ten_k \<le> unat delta" by auto
  have "ten_k > 0" using last by (auto simp: u64_less intro: gr0I)
  then have "grisu2_round (pre @ ds @ digit_char d # junk) b (Suc (length ds)) dist' delta rest ten_k =
      Some (pre @ (ds @ [digit_char (d - j)]) @ junk)"
    using run last assms(3) by (simp add: grisu2_round_def u64_le)
  with last_digit_done [OF assms(1,2) j] show ?thesis by (intro exI [of _ "ds @ [digit_char (d - j)]"]) simp
qed

section \<open>The digits of the integral part\<close>

lemma find_largest_pow10_spec:
  assumes "0 < unat n"
  obtains k p where "find_largest_pow10 n = (Suc k, p)" "unat p = 10 ^ k" "10 ^ k \<le> unat n" "unat n < 10 ^ Suc k"
proof -
  have "unat n < 2 ^ 32" using unsigned_less [of n] by simp
  then show thesis
    using assms by (intro that [of "fst (find_largest_pow10 n) - 1" "snd (find_largest_pow10 n)"])
      (auto simp: find_largest_pow10_def word_le_nat_alt split: if_splits)
qed

text \<open>Where the printer's buffer stands: the text before the digits, the digits, room for more.\<close>

definition room :: "string \<Rightarrow> string \<Rightarrow> bool" where
  "room ds junk \<longleftrightarrow> 17 \<le> length ds + length junk"

lemma write_digit:
  assumes "room ds junk" "length ds \<le> 16" "length pre = b"
  shows "\<exists>c junk'. junk = c # junk' \<and> room (ds @ [d]) junk' \<and>
    mem_write (pre @ ds @ junk) (b + length ds) [d] = Some (pre @ ds @ d # junk')"
proof -
  obtain c junk' where junk: "junk = c # junk'" using assms(1,2) by (cases junk) (simp_all add: room_def)
  then show ?thesis using assms mem_at_end(2) [of "pre @ ds" "b + length ds" c junk' d] by (simp add: room_def)
qed

lemma unat_low_bits:
  "unat (x AND (push_bit s 1 - 1) :: u64) = unat x mod 2 ^ s"
proof -
  have "push_bit s 1 - 1 = (mask s :: u64)" by (simp add: mask_eq_exp_minus_1 push_bit_eq_mult)
  then show ?thesis by (simp only: take_bit_eq_mask [symmetric] unsigned_take_bit_eq) (simp only: take_bit_eq_mod)
qed

lemma unat_ucast_u32: "unat (ucast (x :: u32) :: u64) = unat x"
proof -
  have "unat x < 2 ^ 32" using unsigned_less [of x] by simp
  then show ?thesis by (simp add: unsigned_ucast_eq take_bit_nat_eq_self)
qed

definition gen_result :: "string \<Rightarrow> string \<Rightarrow> nat \<Rightarrow> nat \<Rightarrow> ((char list \<times> nat \<times> nat) + (char list \<times> nat)) \<Rightarrow> nat \<Rightarrow> nat \<Rightarrow> bool" where
  "gen_result pre junk one p2 res B D \<longleftrightarrow>
     (\<exists>ds junk' n. res = Inl (pre @ ds @ junk', length ds, n) \<and> length ds + length junk' = length junk \<and> digits_done ds (10 ^ n * one) B D) \<or>
     (\<exists>ds junk'. res = Inr (pre @ ds @ junk', length ds) \<and> length ds + length junk' = length junk \<and> digits_left ds one p2 B D)"

lemma integral_digits_spec:
  assumes "digits_left ds (10 ^ n * 2 ^ s) (unat p1 * 2 ^ s + unat p2) B (unat delta)" "length pre = b" "room ds junk"
    and "dfp_e one = - int s" "unat p2 < 2 ^ s" "B < 2 ^ 64" "unat dist' \<le> unat delta" "n \<noteq> 0 \<longrightarrow> unat pow10 = 10 ^ (n - 1)"
  shows "\<exists>res. integral_digits b one delta dist' p2 n (pre @ ds @ junk) (length ds) p1 pow10 = Some res \<and>
    gen_result pre (ds @ junk) (2 ^ s) (unat p2) res B (unat delta)"
  using assms(1,3,8)
proof (induction n arbitrary: ds junk p1 pow10)
  case 0
  then have "unat p1 * 2 ^ s + unat p2 < 1 * 2 ^ s" by (simp add: digits_left_def)
  then have "unat p1 * 2 ^ s < 1 * 2 ^ s" by linarith
  then have "unat p1 = 0" by (simp only: mult_less_cancel2) simp
  with 0 show ?case by (auto simp: gen_result_def)
next
  case (Suc n)
  let ?P = "unat p1" and ?U = "10 ^ n * 2 ^ s"
  let ?R = "?P * 2 ^ s + unat p2"
  have pow: "unat pow10 = 10 ^ n" using Suc.prems(3) by simp
  have left: "digits_left ds (10 * ?U) ?R B (unat delta)" using Suc.prems(1) by (simp add: mult.assoc)
  have d: "?R div ?U = ?P div 10 ^ n" and r: "?R mod ?U = (?P mod 10 ^ n) * 2 ^ s + unat p2"
    using assms(5) by (simp_all add: mult.commute [of "10 ^ n"] div_mult2_eq mod_mult2_eq)
  note step = digits_step [OF left, unfolded d r]
  obtain c junk' where junk: "junk = c # junk'" "room (ds @ [digit_char (?P div 10 ^ n)]) junk'"
    "mem_write (pre @ ds @ junk) (b + length ds) [digit_char (?P div 10 ^ n)] = Some (pre @ ds @ digit_char (?P div 10 ^ n) # junk')"
    using write_digit [OF Suc.prems(2) digits_left_length [OF left] assms(2), of "digit_char (?P div 10 ^ n)"] by auto
  let ?d = "p1 div pow10" and ?r = "p1 mod pow10"
  have words: "unat ?d = ?P div 10 ^ n" "unat ?r = ?P mod 10 ^ n" by (simp_all add: unat_div unat_mod pow)
  have nz: "pow10 \<noteq> 0" using pow by (auto simp: word_unat_eq_iff)
  have d9: "?d \<le> 9" using step(1) words(1) by (simp add: word_le_nat_alt)
  define rest where "rest = push_bit s (ucast ?r) + p2"
  have "unat ?r * 2 ^ s + unat p2 \<le> ?R" unfolding words(2) by simp
  also have "\<dots> \<le> B" using left by (simp add: digits_left_def)
  finally have fits: "unat ?r * 2 ^ s + unat p2 < 2 ^ 64" using assms(6) by simp
  have rest: "unat rest = (?P mod 10 ^ n) * 2 ^ s + unat p2"
    using fits unfolding rest_def by (simp add: u64_add u64_shl unat_ucast_u32 words(2))
  have ten: "unat (push_bit s (ucast pow10) :: u64) = ?U"
    using step(4) assms(6) by (simp add: u64_shl unat_ucast_u32 pow)
  have DB: "unat delta < B" using left by (simp add: digits_left_def)
  let ?ds = "ds @ [digit_char (?P div 10 ^ n)]"
  show ?case
  proof (cases "rest \<le> delta")
    case True
    then have "unat rest \<le> unat delta" by (simp only: u64_le)
    from grisu2_round_done [of ds "?P div 10 ^ n" "push_bit s (ucast pow10)" rest B delta dist' pre b junk', unfolded ten]
      step(2) [folded rest, OF this] DB assms(2,7) rest
    obtain ds' where run: "grisu2_round (pre @ ds @ digit_char (?P div 10 ^ n) # junk') b (Suc (length ds)) dist' delta rest
        (push_bit s (ucast pow10)) = Some (pre @ ds' @ junk')"
      "length ds' = Suc (length ds)" "digits_done ds' ?U B (unat delta)" by auto
    then have "integral_digits b one delta dist' p2 (Suc n) (pre @ ds @ junk) (length ds) p1 pow10 =
        Some (Inl (pre @ ds' @ junk', length ds', n))"
      using True nz d9 assms(4) junk(3) words(1) by (simp add: rest_def [symmetric] Let_def)
    moreover have "length ds' + length junk' = length (ds @ junk)" using run(2) junk(1) by simp
    ultimately show ?thesis using run(3) unfolding gen_result_def by blast
  next
    case False
    then have "unat delta < unat rest" by (simp add: u64_le)
    from step(3) [folded rest, OF this] have "digits_left ?ds ?U (unat ?r * 2 ^ s + unat p2) B (unat delta)"
      by (simp add: rest words(2))
    moreover have "n \<noteq> 0 \<longrightarrow> unat (pow10 div 10) = 10 ^ (n - 1)"
      by (cases n) (simp_all add: unat_div pow)
    ultimately obtain res where "integral_digits b one delta dist' p2 n (pre @ ?ds @ junk') (length ?ds) ?r (pow10 div 10) = Some res"
      "gen_result pre (?ds @ junk') (2 ^ s) (unat p2) res B (unat delta)"
      using Suc.IH [OF _ junk(2)] by blast
    then show ?thesis using False nz d9 assms(4) junk(1,3) words(1) unfolding gen_result_def
      by (simp add: rest_def [symmetric] Let_def)
  qed
qed

section \<open>The digits of the fraction\<close>

lemma fraction_digits_spec:
  assumes "digits_left ds (2 ^ s) (unat p2) B (unat delta)" "length pre = b" "room ds junk" "ds \<noteq> []"
    and "dfp_e one = - int s" "dfp_f one = push_bit s 1" "s \<le> 60" "unat dist' \<le> unat delta" "2 ^ s \<le> unat delta * 10 ^ t"
  shows "\<exists>ds' d junk' p2' i delta' dist''.
    fraction_digits b one (pre @ ds @ junk) (length ds) p2 m delta dist' =
      Some (pre @ ds' @ digit_char d # junk', Suc (length ds'), p2', m + i, delta', dist'') \<and>
    length ds + length junk = Suc (length ds') + length junk' \<and>
    last_digit ds' d (2 ^ s) (unat p2') (B * 10 ^ i) (unat delta') \<and> unat delta' = unat delta * 10 ^ i \<and>
    unat dist'' \<le> unat delta'"
  using assms(1,3,4,8,9)
proof (induction t arbitrary: ds p2 B delta junk dist' m)
  case 0
  then have "unat p2 < 2 ^ s" "unat delta < unat p2" by (simp_all add: digits_left_def)
  with 0 show ?case by simp
next
  case (Suc t)
  let ?P = "10 * unat p2"
  have left: "digits_left ds (10 * 2 ^ s) ?P (10 * B) (10 * unat delta)" by (rule digits_left_scale) (fact Suc.prems(1))
  note step = digits_step [OF left]
  have s60: "(2::nat) ^ s \<le> 2 ^ 60" using assms(7) by (intro power_increasing) simp_all
  have p2: "unat p2 < 2 ^ s" "unat delta < unat p2" using Suc.prems(1) by (simp_all add: digits_left_def)
  have small: "unat p2 < 2 ^ 60" "unat delta < 2 ^ 60" "unat dist' < 2 ^ 60" using p2 s60 Suc.prems(4) by linarith+
  define q r dl dt where qr: "q = drop_bit s (p2 * 10)" "r = p2 * 10 AND (push_bit s 1 - 1)" "dl = delta * 10" "dt = dist' * 10"
  have times: "unat (x * 10) = 10 * unat x" if "unat x < 2 ^ 60" for x :: u64
    using that u64_mult [of x 10] by simp
  have words: "unat q = ?P div 2 ^ s" "unat r = ?P mod 2 ^ s" "unat dl = 10 * unat delta" "unat dt = 10 * unat dist'"
    unfolding qr u64_shr unat_low_bits times [OF small(1)] times [OF small(2)] times [OF small(3)] by simp_all
  have low: "p2 * 10 AND (2 ^ s - 1) = r" by (simp add: qr(2))
  have fits: "p2 \<le> - 1 div 10" using small(1) by (simp add: u64_le)
  have d9: "q \<le> 9" using step(1) words(1) by (simp add: u64_le)
  obtain c junk' where junk: "junk = c # junk'" "room (ds @ [digit_char (unat q)]) junk'"
    "mem_write (pre @ ds @ junk) (b + length ds) [digit_char (unat q)] = Some (pre @ ds @ digit_char (unat q) # junk')"
    using write_digit [OF Suc.prems(2) digits_left_length [OF left] assms(2), of "digit_char (unat q)"] by auto
  have dt: "unat dt \<le> unat dl" using Suc.prems(4) words by simp
  let ?ds = "ds @ [digit_char (unat q)]"
  show ?case
  proof (cases "r \<le> dl")
    case True
    then have "unat r \<le> unat dl" by (simp only: u64_le)
    then have "last_digit ds (unat q) (2 ^ s) (unat r) (B * 10 ^ 1) (unat dl)" using step(2) words by (simp add: mult.commute)
    moreover have "fraction_digits b one (pre @ ds @ junk) (length ds) p2 m delta dist' =
      Some (pre @ ds @ digit_char (unat q) # junk', Suc (length ds), r, m + 1, dl, dt)"
      using True fits d9 junk(3) by (subst fraction_digits.simps) (simp add: assms(5,6) qr(1,3,4) [symmetric] low Let_def)
    ultimately show ?thesis using dt words(3) junk(1) by (intro exI conjI) (assumption | simp)+
  next
    case False
    then have "unat dl < unat r" by (simp add: u64_le)
    with step(3) words have "digits_left ?ds (2 ^ s) (unat r) (10 * B) (unat dl)" by simp
    moreover have "2 ^ s \<le> unat dl * 10 ^ t" using Suc.prems(5) words(3) by (simp add: mult.commute mult.left_commute)
    ultimately obtain ds' d junk'' p2' i delta' dist'' where IH:
      "fraction_digits b one (pre @ ?ds @ junk') (length ?ds) r (m + 1) dl dt =
        Some (pre @ ds' @ digit_char d # junk'', Suc (length ds'), p2', m + 1 + i, delta', dist'')"
      "length ?ds + length junk' = Suc (length ds') + length junk''"
      "last_digit ds' d (2 ^ s) (unat p2') (10 * B * 10 ^ i) (unat delta')" "unat delta' = unat dl * 10 ^ i"
      "unat dist'' \<le> unat delta'"
      using Suc.IH [of ?ds r "10 * B" dl junk' dt "m + 1"] junk(2) dt by blast
    have "fraction_digits b one (pre @ ds @ junk) (length ds) p2 m delta dist' =
        fraction_digits b one (pre @ ?ds @ junk') (length ?ds) r (m + 1) dl dt"
      using False fits d9 junk(3) by (subst fraction_digits.simps) (simp add: assms(5,6) qr(1,3,4) [symmetric] low Let_def)
    with IH(1) have "fraction_digits b one (pre @ ds @ junk) (length ds) p2 m delta dist' =
        Some (pre @ ds' @ digit_char d # junk'', Suc (length ds'), p2', m + Suc i, delta', dist'')" by simp
    moreover have "length ds + length junk = Suc (length ds') + length junk''" using IH(2) junk(1) by simp
    moreover have "last_digit ds' d (2 ^ s) (unat p2') (B * 10 ^ Suc i) (unat delta')"
      using IH(3) by (simp only: power_Suc mult.assoc mult.left_commute [of 10])
    moreover have "unat delta' = unat delta * 10 ^ Suc i" using IH(4) words(3) by simp
    ultimately show ?thesis using IH(5) by blast
  qed
qed

section \<open>All digits\<close>

text \<open>The decimal number of the digits, scaled to the significands of the interval, lies within it.\<close>

lemma digits_done_between:
  assumes "digits_done ds (10 ^ n * one) B (B - A)" "A \<le> B"
  shows "real A \<le> real (dec_value ds) * 10 powi int n * real one" "real (dec_value ds) * 10 powi int n * real one \<le> real B"
proof -
  have "B \<le> dec_value ds * (10 ^ n * one) + (B - A)" "dec_value ds * (10 ^ n * one) \<le> B"
    using assms(1) by (simp_all only: digits_done_def)
  then have "A \<le> dec_value ds * (10 ^ n * one)" "dec_value ds * (10 ^ n * one) \<le> B" using assms(2) by linarith+
  then have "real A \<le> real (dec_value ds * (10 ^ n * one))" "real (dec_value ds * (10 ^ n * one)) \<le> real B"
    by (simp_all only: of_nat_le_iff)
  then show "real A \<le> real (dec_value ds) * 10 powi int n * real one" "real (dec_value ds) * 10 powi int n * real one \<le> real B"
    by (simp_all add: mult.assoc)
qed

lemma scaled_digits_done_between:
  assumes "digits_done ds one (B * 10 ^ i) ((B - A) * 10 ^ i)" "A \<le> B"
  shows "real A \<le> real (dec_value ds) * 10 powi (- int i) * real one" "real (dec_value ds) * 10 powi (- int i) * real one \<le> real B"
proof -
  have "B * 10 ^ i \<le> dec_value ds * one + (B * 10 ^ i - A * 10 ^ i)" "dec_value ds * one \<le> B * 10 ^ i"
    using assms(1) unfolding diff_mult_distrib by (simp_all only: digits_done_def)
  moreover have "A * 10 ^ i \<le> B * 10 ^ i" using assms(2) by simp
  ultimately have "A * 10 ^ i \<le> dec_value ds * one" "dec_value ds * one \<le> B * 10 ^ i" by linarith+
  then have "real (A * 10 ^ i) \<le> real (dec_value ds * one)" "real (dec_value ds * one) \<le> real (B * 10 ^ i)"
    by (simp_all only: of_nat_le_iff)
  then show "real A \<le> real (dec_value ds) * 10 powi (- int i) * real one" "real (dec_value ds) * 10 powi (- int i) * real one \<le> real B"
    by (simp_all add: power_int_minus field_simps)
qed

declare integral_digits.simps [simp del]

theorem digit_gen_between:
  assumes "length pre = b" "17 \<le> length junk"
    and e: "dfp_e M_minus = - int s" "dfp_e w = - int s" "dfp_e M_plus = - int s" "32 \<le> s" "s \<le> 60"
    and f: "0 < unat (dfp_f M_minus)" "unat (dfp_f M_minus) \<le> unat (dfp_f w)" "unat (dfp_f w) \<le> unat (dfp_f M_plus)"
      "2 ^ s \<le> unat (dfp_f M_plus)" "unat (dfp_f M_plus) < 10 ^ 16 * (unat (dfp_f M_plus) - unat (dfp_f M_minus))"
  shows "\<exists>ds x junk'. grisu2_digit_gen (pre @ junk) b 0 decimal_exponent M_minus w M_plus =
      Some (pre @ ds @ junk', length ds, decimal_exponent + x) \<and>
    length ds + length junk' = length junk \<and> list_all IsDigit ds \<and> ds \<noteq> [] \<and> length ds \<le> 17 \<and> hd ds \<noteq> CHR ''0'' \<and>
    real (unat (dfp_f M_minus)) \<le> real (dec_value ds) * 10 powi x * 2 ^ s \<and>
    real (dec_value ds) * 10 powi x * 2 ^ s \<le> real (unat (dfp_f M_plus))"
proof -
  let ?A = "unat (dfp_f M_minus)" and ?B = "unat (dfp_f M_plus)"
  define delta dist' one p1 p2 where w: "delta = dfp_f M_plus - dfp_f M_minus" "dist' = dfp_f M_plus - dfp_f w"
    "one = diyfp (push_bit s 1) (- int s)" "p1 = (ucast (drop_bit s (dfp_f M_plus)) :: u32)" "p2 = dfp_f M_plus AND (push_bit s 1 - 1)"
  have AB: "?A \<le> ?B" using f(2,3) by linarith
  have delta: "unat delta = ?B - ?A" and dist: "unat dist' \<le> unat delta"
    using f(2,3) AB unfolding w by (simp_all add: u64_sub)
  have s32: "(2::nat) ^ 32 \<le> 2 ^ s" using e(4) by (intro power_increasing) simp_all
  have "(2::nat) ^ 64 = 2 ^ 32 * 2 ^ 32" by simp
  also have "\<dots> \<le> 2 ^ 32 * 2 ^ s" using s32 by (rule mult_le_mono2)
  finally have "?B < 2 ^ 32 * 2 ^ s" by (rule order.strict_trans2 [OF unat_u64_less])
  then have "?B div 2 ^ s < 2 ^ 32" by (rule less_mult_imp_div_less)
  then have p1: "unat p1 = ?B div 2 ^ s" unfolding w by (simp add: unsigned_ucast_eq u64_shr take_bit_nat_eq_self)
  have p2: "unat p2 = ?B mod 2 ^ s" unfolding w by (rule unat_low_bits)
  have one: "dfp_e one = - int s" "dfp_f one = push_bit s 1" by (simp_all add: w)
  have "0 < unat p1" using f(4) by (simp add: p1 div_greater_zero_iff)
  then obtain k pow10 where pow: "find_largest_pow10 p1 = (Suc k, pow10)" "unat pow10 = 10 ^ k" "10 ^ k \<le> unat p1" "unat p1 < 10 ^ Suc k"
    by (rule find_largest_pow10_spec)
  have D: "0 < unat delta" "unat delta < ?B" using f(1,5) AB delta by (auto intro: gr0I)
  have start: "digits_left [] (10 ^ Suc k * 2 ^ s) (unat p1 * 2 ^ s + unat p2) ?B (unat delta)"
  proof -
    have B: "?B = unat p1 * 2 ^ s + unat p2" unfolding p1 p2 by (rule div_mult_mod_eq [symmetric])
    have "?B div 2 ^ s < 10 ^ Suc k" using pow(4) p1 by simp
    then have "?B < 10 ^ Suc k * 2 ^ s" by (simp add: div_less_iff_less_mult)
    then have "unat p1 * 2 ^ s + unat p2 < 10 ^ Suc k * 2 ^ s" using B by linarith
    moreover have "10 * (10 ^ k * 2 ^ s) \<le> 10 * (unat p1 * 2 ^ s + unat p2)" using pow(3) by (intro mult_le_mono2 trans_le_add1) simp
    then have "10 ^ Suc k * 2 ^ s \<le> 10 * (unat p1 * 2 ^ s + unat p2)" unfolding power_Suc mult.assoc .
    moreover have "unat delta < unat p1 * 2 ^ s + unat p2" "?B < 10 ^ 16 * unat delta" "?B = dec_value [] * (10 ^ Suc k * 2 ^ s) + (unat p1 * 2 ^ s + unat p2)"
      using B D f(5) delta by (simp_all add: dec_value_def)
    ultimately show ?thesis unfolding digits_left_def by simp
  qed
  have gen: "grisu2_digit_gen (pre @ junk) b 0 decimal_exponent M_minus w M_plus = do {
      res \<leftarrow> integral_digits b one delta dist' p2 (Suc k) (pre @ junk) 0 p1 pow10;
      (case res of
         Inl (buffer, len, n) \<Rightarrow> Some (buffer, len, decimal_exponent + int n)
       | Inr (buffer, len) \<Rightarrow> do {
           JSON_ASSERT (p2 > delta);
           (buffer, len, p2, m, delta, dist') \<leftarrow> fraction_digits b one buffer len p2 0 delta dist';
           buffer \<leftarrow> grisu2_round buffer b len dist' delta p2 (push_bit s 1);
           Some (buffer, len, decimal_exponent - int m) }) }"
  proof -
    have "p1 > 0" using \<open>0 < unat p1\<close> by (simp add: word_less_nat_alt)
    then show ?thesis
      unfolding grisu2_digit_gen_def diyfp_sub_def e diyfp_sel Let_def minus_minus nat_int
      unfolding w [symmetric] one
      using e(4,5) f(2,3) AB pow(1) by (simp add: kAlpha_def kGamma_def u64_le)
  qed
  obtain res where res: "integral_digits b one delta dist' p2 (Suc k) (pre @ junk) 0 p1 pow10 = Some res"
    "gen_result pre junk (2 ^ s) (unat p2) res ?B (unat delta)"
    using integral_digits_spec [OF start assms(1), of junk one dist' pow10] assms(2) one(1) p2 dist pow(2) unat_u64_less [of "dfp_f M_plus"]
    by (auto simp: room_def)
  from res(2) [unfolded gen_result_def] show ?thesis
  proof (elim disjE exE conjE)
    fix ds junk' n
    assume r: "res = Inl (pre @ ds @ junk', length ds, n)" "length ds + length junk' = length junk" "digits_done ds (10 ^ n * 2 ^ s) ?B (unat delta)"
    then have "grisu2_digit_gen (pre @ junk) b 0 decimal_exponent M_minus w M_plus = Some (pre @ ds @ junk', length ds, decimal_exponent + int n)"
      using gen res(1) by simp
    then show ?thesis using r(2,3) digits_done_between [OF r(3) [unfolded delta] AB] unfolding digits_done_def of_nat_power of_nat_numeral by blast
  next
    fix ds junk'
    assume r: "res = Inr (pre @ ds @ junk', length ds)" "length ds + length junk' = length junk" "digits_left ds (2 ^ s) (unat p2) ?B (unat delta)"
    note left = r(3) [unfolded digits_left_def]
    have p2: "unat delta < unat p2" "unat p2 < 2 ^ s" using left by simp_all
    then have "ds \<noteq> []" using left f(4) by (auto simp: dec_value_def)
    moreover have "2 ^ s \<le> unat delta * 10 ^ 19"
    proof -
      have "(2::nat) ^ s \<le> 2 ^ 60" using e(5) by (intro power_increasing) simp_all
      also have "\<dots> \<le> 1 * 10 ^ 19" by simp
      also have "\<dots> \<le> unat delta * 10 ^ 19" using D by (intro mult_le_mono1) simp
      finally show ?thesis .
    qed
    moreover have "room ds junk'" using r(2) assms(2) by (simp add: room_def)
    ultimately obtain ds' d junk'' p2' i delta' dist'' where frac:
      "fraction_digits b one (pre @ ds @ junk') (length ds) p2 0 delta dist' =
        Some (pre @ ds' @ digit_char d # junk'', Suc (length ds'), p2', 0 + i, delta', dist'')"
      "length ds + length junk' = Suc (length ds') + length junk''"
      "last_digit ds' d (2 ^ s) (unat p2') (?B * 10 ^ i) (unat delta')" "unat delta' = unat delta * 10 ^ i"
      "unat dist'' \<le> unat delta'"
      using fraction_digits_spec [OF r(3) assms(1) _ _ one e(5) dist, of junk' 19 0] by blast
    have "(2::nat) ^ s \<le> 2 ^ 60" using e(5) by (intro power_increasing) simp_all
    then have ten: "unat (push_bit s 1 :: u64) = 2 ^ s" using u64_shl [of 1 s] by simp
    obtain ds'' where round: "grisu2_round (pre @ ds' @ digit_char d # junk'') b (Suc (length ds')) dist'' delta' p2' (push_bit s 1) =
        Some (pre @ ds'' @ junk'')" "length ds'' = Suc (length ds')" "digits_done ds'' (2 ^ s) (?B * 10 ^ i) (unat delta * 10 ^ i)"
      using grisu2_round_done [of ds' d "push_bit s 1" p2' "?B * 10 ^ i" delta' dist'' pre b junk'', unfolded ten] frac(3-5) D assms(1) by auto
    have "grisu2_digit_gen (pre @ junk) b 0 decimal_exponent M_minus w M_plus =
        Some (pre @ ds'' @ junk'', length ds'', decimal_exponent + - int i)"
      using gen res(1) r(1) frac(1) round(1,2) p2(1) by (simp add: u64_less)
    moreover have "length ds'' + length junk'' = length junk" using round(2) frac(2) r(2) by simp
    ultimately show ?thesis
      using round(3) scaled_digits_done_between [OF round(3) [unfolded delta] AB] unfolding digits_done_def of_nat_power of_nat_numeral by blast
  qed
qed

end
