(* ===== verification/Grisu2.thy ===== *)
theory Grisu2
  imports Digit_Generation
begin

text \<open>
  The two functions \<open>grisu2\<close> of \<open>dtoa_impl\<close>: from a finite positive double to decimal digits and an
  exponent. Their number lies strictly between the midpoints to the neighbouring doubles, although
  the power of ten and the products are rounded: the interval handed to the digit generation is
  narrowed by one unit on both sides, and the errors add up to less than that.
\<close>

section \<open>The code\<close>

definition grisu2_scaled ::
  "char list \<Rightarrow> nat \<Rightarrow> nat \<Rightarrow> diyfp \<Rightarrow> diyfp \<Rightarrow> diyfp \<Rightarrow> (char list \<times> nat \<times> int) option" where
  "grisu2_scaled buf b len m_minus v m_plus = do {
     JSON_ASSERT (dfp_e m_plus = dfp_e m_minus);
     JSON_ASSERT (dfp_e m_plus = dfp_e v);
     cached \<leftarrow> get_cached_power_for_binary_exponent (dfp_e m_plus);
     let c_minus_k = diyfp (cp_f cached) (cp_e cached);
         w = diyfp_mul v c_minus_k;
         w_minus = diyfp_mul m_minus c_minus_k;
         w_plus = diyfp_mul m_plus c_minus_k;
         M_minus = diyfp (dfp_f w_minus + 1) (dfp_e w_minus);
         M_plus = diyfp (dfp_f w_plus - 1) (dfp_e w_plus);
         decimal_exponent = - cp_k cached
     in grisu2_digit_gen buf b len decimal_exponent M_minus w M_plus }"

definition grisu2 :: "char list \<Rightarrow> nat \<Rightarrow> nat \<Rightarrow> f64 \<Rightarrow> (char list \<times> nat \<times> int) option" where
  "grisu2 buf b len val = do {
     JSON_ASSERT (is_finite_fp (decode_f64 val));
     JSON_ASSERT (fp_less (fp_of_int 0) (decode_f64 val));
     w \<leftarrow> compute_boundaries val;
     grisu2_scaled buf b len (bnd_minus w) (bnd_w w) (bnd_plus w) }"

section \<open>The error of a scaled number\<close>

text \<open>The exact power of ten of an entry, in units of its significand.\<close>

definition exact_power :: "cached_power \<Rightarrow> real" where
  "exact_power c = 10 powi cp_k c / 2 powi cp_e c"

lemma rounded_quotient:
  fixes n :: nat
  defines "q \<equiv> (n + 2 ^ 63) div 2 ^ 64"
  shows "real n / 2 ^ 64 - 1 / 2 \<le> real q" "real q \<le> real n / 2 ^ 64 + 1 / 2"
proof -
  have "2 ^ 64 * q + (n + 2 ^ 63) mod 2 ^ 64 = n + 2 ^ 63" unfolding q_def by (rule mult_div_mod_eq)
  moreover have "(n + 2 ^ 63) mod 2 ^ 64 < 2 ^ 64" by simp
  ultimately have "2 ^ 64 * q \<le> n + 2 ^ 63" "n + 2 ^ 63 \<le> 2 ^ 64 * q + 2 ^ 64" by linarith+
  then have "real (2 ^ 64 * q) \<le> real (n + 2 ^ 63)" "real (n + 2 ^ 63) \<le> real (2 ^ 64 * q + 2 ^ 64)"
    by (simp_all only: of_nat_le_iff)
  then show "real n / 2 ^ 64 - 1 / 2 \<le> real q" "real q \<le> real n / 2 ^ 64 + 1 / 2"
    by (simp_all add: field_simps)
qed

lemma scaled_error:
  fixes x :: diyfp and c :: cached_power
  assumes "power_entry c"
  defines "W \<equiv> unat (dfp_f (diyfp_mul x (diyfp (cp_f c) (cp_e c))))" and "X \<equiv> unat (dfp_f x)"
  shows "real W < real X * exact_power c / 2 ^ 64 + 1" "real X * exact_power c / 2 ^ 64 - 1 < real W"
proof -
  let ?f = "real (unat (cp_f c))"
  have W: "W = (X * unat (cp_f c) + 2 ^ 63) div 2 ^ 64" unfolding W_def X_def by (simp add: unat_diyfp_mul)
  note q = rounded_quotient [of "X * unat (cp_f c)", folded W]
  have "\<bar>exact_power c - ?f\<bar> \<le> 1 / 2" using assms(1) by (simp add: power_entry_def exact_power_def)
  then have "\<bar>real X * exact_power c - real X * ?f\<bar> \<le> real X * (1 / 2)"
    by (metis abs_mult abs_of_nat mult_left_mono of_nat_0_le_iff right_diff_distrib)
  then have err: "real X * exact_power c - real X * ?f \<le> real X / 2" "real X * ?f - real X * exact_power c \<le> real X / 2"
    unfolding abs_le_iff by simp_all
  have "X < 2 ^ 64" unfolding X_def by (rule unat_u64_less)
  then have "real X < real (2 ^ 64)" by (simp only: of_nat_less_iff)
  then have X: "real X < 2 ^ 64" by simp
  have q': "real X * ?f / 2 ^ 64 - 1 / 2 \<le> real W" "real W \<le> real X * ?f / 2 ^ 64 + 1 / 2" using q by simp_all
  show "real W < real X * exact_power c / 2 ^ 64 + 1" "real X * exact_power c / 2 ^ 64 - 1 < real W"
    using q' err X by (simp_all add: field_simps)
qed

section \<open>The narrowed interval\<close>

text \<open>What the boundaries of a double provide: enough distance between them, whatever is lost.\<close>

definition well_spread :: "nat \<Rightarrow> nat \<Rightarrow> nat \<Rightarrow> bool" where
  "well_spread low mid up \<longleftrightarrow> 2 ^ 63 \<le> up \<and> up < 2 ^ 64 \<and> low + 512 \<le> mid \<and> mid + 512 \<le> up \<and> up + 10 ^ 17 \<le> 10 ^ 16 * (up - low)"

lemma rounded_product:
  fixes c :: cached_power
  assumes "power_entry c" "x = diyfp (of_nat X) e" "X < 2 ^ 64"
  shows "unat (dfp_f (diyfp_mul x (diyfp (cp_f c) (cp_e c)))) = (X * unat (cp_f c) + 2 ^ 63) div 2 ^ 64"
  using assms by (simp add: unat_diyfp_mul)

lemma product_distance:
  fixes X Y f :: nat
  assumes "2 ^ 63 \<le> f" "X + 512 \<le> Y"
  shows "(X * f + 2 ^ 63) div 2 ^ 64 + 255 \<le> (Y * f + 2 ^ 63) div 2 ^ 64"
proof -
  have "X * f + 512 * 2 ^ 63 \<le> X * f + 512 * f" using assms(1) by simp
  also have "\<dots> \<le> Y * f" using assms(2) by (metis add_mult_distrib mult_le_mono1)
  finally have "X * f + 2 ^ 63 + 255 * 2 ^ 64 \<le> Y * f + 2 ^ 63" by simp
  then have "(X * f + 2 ^ 63 + 255 * 2 ^ 64) div 2 ^ 64 \<le> (Y * f + 2 ^ 63) div 2 ^ 64" by (rule div_le_mono)
  then show ?thesis by (subst (asm) div_mult_self1) simp_all
qed

lemma product_ratio:
  fixes X Y f :: nat
  assumes "2 ^ 63 \<le> f" "X \<le> Y" "Y + 10 ^ 17 \<le> 10 ^ 16 * (Y - X)"
  defines "W \<equiv> \<lambda>Z. (Z * f + 2 ^ 63) div 2 ^ 64"
  shows "W Y - 1 < 10 ^ 16 * ((W Y - 1) - (W X + 1))"
proof -
  have q: "real (Z * f) / 2 ^ 64 - 1 / 2 \<le> real (W Z)" "real (W Z) \<le> real (Z * f) / 2 ^ 64 + 1 / 2" for Z
    unfolding W_def by (rule rounded_quotient)+
  have "Y * f + 10 ^ 17 * f \<le> 10 ^ 16 * (Y - X) * f" using mult_le_mono1 [OF assms(3), of f] by (simp add: add_mult_distrib)
  also have "\<dots> = 10 ^ 16 * (Y * f) - 10 ^ 16 * (X * f)" by (simp add: diff_mult_distrib diff_mult_distrib2)
  finally have "Y * f + 10 ^ 17 * f + 10 ^ 16 * (X * f) \<le> 10 ^ 16 * (Y * f)"
    using mult_le_mono1 [OF assms(2), of f] by (simp add: le_diff_conv2)
  moreover have "10 ^ 17 * 2 ^ 63 \<le> 10 ^ 17 * f" using assms(1) by simp
  ultimately have "Y * f + 10 ^ 17 * 2 ^ 63 + 10 ^ 16 * (X * f) \<le> 10 ^ 16 * (Y * f)" by linarith
  then have "real (Y * f + 10 ^ 17 * 2 ^ 63 + 10 ^ 16 * (X * f)) \<le> real (10 ^ 16 * (Y * f))" by (simp only: of_nat_le_iff)
  then have "real (Y * f) + 10 ^ 17 * 2 ^ 63 + 10 ^ 16 * real (X * f) \<le> 10 ^ 16 * real (Y * f)" by simp
  then have r: "real (W Y) - 1 < 10 ^ 16 * (real (W Y) - 1 - (real (W X) + 1))"
    using q [of Y] q [of X] by (simp add: field_simps)
  have "W X + 2 \<le> W Y"
  proof (rule ccontr)
    assume "\<not> W X + 2 \<le> W Y"
    then have "real (W Y) \<le> real (W X) + 1" by simp
    with r show False by simp
  qed
  then have "real (W Y - 1) = real (W Y) - 1" "real (W Y - 1 - (W X + 1)) = real (W Y) - 1 - (real (W X) + 1)" by simp_all
  with r have "real (W Y - 1) < real (10 ^ 16 * (W Y - 1 - (W X + 1)))" by simp
  then show ?thesis by (simp only: of_nat_less_iff)
qed

section \<open>The digits lie between the boundaries\<close>

lemma powi_cancel:
  fixes c :: cached_power
  assumes "cp_e c + e + 64 = - int s"
  shows "real X * exact_power c / 2 ^ 64 = real X * 2 powi e * 10 powi cp_k c * 2 ^ s"
proof -
  have "(2::real) powi (- int s) = 2 powi (cp_e c + e + 64)" by (simp only: assms)
  also have "\<dots> = 2 powi cp_e c * 2 powi e * 2 powi 64" by (simp add: power_int_add)
  finally have "(2::real) powi (- int s) = 2 powi cp_e c * 2 powi e * 2 ^ 64" by (simp only: power_int_numeral)
  then have "2 powi e * 2 ^ s = (1::real) / (2 powi cp_e c * 2 ^ 64)"
    by (simp add: power_int_minus field_simps)
  then show ?thesis by (simp add: exact_power_def field_simps)
qed

theorem grisu2_scaled_between:
  assumes "length pre = b" "17 \<le> length junk" "- 1137 \<le> e" "e \<le> 960" "well_spread X Y Z"
  shows "\<exists>ds x junk'. grisu2_scaled (pre @ junk) b 0 (diyfp (of_nat X) e) (diyfp (of_nat Y) e) (diyfp (of_nat Z) e) =
      Some (pre @ ds @ junk', length ds, x) \<and>
    length ds + length junk' = length junk \<and> list_all IsDigit ds \<and> ds \<noteq> [] \<and> length ds \<le> 17 \<and> hd ds \<noteq> CHR ''0'' \<and>
    real X * 2 powi e < real (dec_value ds) * 10 powi x \<and> real (dec_value ds) * 10 powi x < real Z * 2 powi e"
proof -
  note spread = assms(5) [unfolded well_spread_def]
  obtain c where c: "get_cached_power_for_binary_exponent e = Some c" "power_entry c"
    "- 60 \<le> cp_e c + e + 64" "cp_e c + e + 64 \<le> - 32" using assms(3,4) by (rule cached_power_lookup)
  define s where "s = nat (- (cp_e c + e + 64))"
  have s: "cp_e c + e + 64 = - int s" "32 \<le> s" "s \<le> 60" using c(3,4) by (simp_all add: s_def)
  let ?p = "diyfp (cp_f c) (cp_e c)" and ?W = "\<lambda>X. (X * unat (cp_f c) + 2 ^ 63) div 2 ^ 64"
  let ?m = "\<lambda>X. diyfp_mul (diyfp (of_nat X) e) ?p"
  have f: "2 ^ 63 \<le> unat (cp_f c)" 
  proof -
    have "int (2 ^ 63) \<le> int (unat (cp_f c))" using c(2) by (simp only: power_entry_def uint_nat of_nat_power of_nat_numeral)
    then show ?thesis by (simp only: of_nat_le_iff)
  qed
  have less: "X < 2 ^ 64" "Y < 2 ^ 64" "Z < 2 ^ 64" using spread by linarith+
  have W: "unat (dfp_f (?m X)) = ?W X" "unat (dfp_f (?m Y)) = ?W Y" "unat (dfp_f (?m Z)) = ?W Z"
    using less by (simp_all add: unat_diyfp_mul)
  have gap: "?W X + 255 \<le> ?W Y" "?W Y + 255 \<le> ?W Z" using spread by (intro product_distance [OF f]; simp)+
  have ratio: "?W Z - 1 < 10 ^ 16 * ((?W Z - 1) - (?W X + 1))"
    using spread by (intro product_ratio [OF f]) simp_all
  have "(2 ^ 63 * 2 ^ 63) div 2 ^ 64 \<le> ?W Z"
    using spread f by (intro div_le_mono trans_le_add1 mult_le_mono) simp_all
  moreover obtain x y z where w: "x = ?W X" "y = ?W Y" "z = ?W Z" by blast
  ultimately have z: "2 ^ 62 \<le> z" by simp
  note W = W [folded w] and gap = gap [folded w] and ratio = ratio [folded w]
  define Mm Mp where M: "Mm = diyfp (dfp_f (?m X) + 1) (- int s)" "Mp = diyfp (dfp_f (?m Z) - 1) (- int s)"
  have um: "unat (dfp_f Mm) = x + 1"
    using u64_add [of "dfp_f (?m X)" 1] W(1,2) gap(1) unat_u64_less [of "dfp_f (?m Y)"] by (simp add: M)
  have up: "unat (dfp_f Mp) = z - 1"
    using u64_sub [of 1 "dfp_f (?m Z)"] W(3) gap(2) by (simp add: M)
  have e: "dfp_e (?m X) = - int s" "dfp_e (?m Y) = - int s" "dfp_e (?m Z) = - int s" "dfp_e Mm = - int s" "dfp_e Mp = - int s"
    using s(1) by (simp_all add: M)
  have "(2::nat) ^ s \<le> 2 ^ 60" using s(3) by (intro power_increasing) simp_all
  with z have one: "2 ^ s \<le> z - 1" by simp
  have order: "0 < x + 1" "x + 1 \<le> y" "y \<le> z - 1" using gap by linarith+
  obtain ds n junk' where gen: "grisu2_digit_gen (pre @ junk) b 0 (- cp_k c) Mm (?m Y) Mp = Some (pre @ ds @ junk', length ds, - cp_k c + n)"
    "length ds + length junk' = length junk" "list_all IsDigit ds" "ds \<noteq> []" "length ds \<le> 17" "hd ds \<noteq> CHR ''0''"
    "real (x + 1) \<le> real (dec_value ds) * 10 powi n * 2 ^ s" "real (dec_value ds) * 10 powi n * 2 ^ s \<le> real (z - 1)"
    using digit_gen_between [OF assms(1,2) e(4,2,5) s(2,3), unfolded um up W(2), OF order one ratio, of "- cp_k c"] by blast
  have run: "grisu2_scaled (pre @ junk) b 0 (diyfp (of_nat X) e) (diyfp (of_nat Y) e) (diyfp (of_nat Z) e) =
      Some (pre @ ds @ junk', length ds, - cp_k c + n)"
    using gen(1) s(1) by (simp add: grisu2_scaled_def c(1) M Let_def add.commute [of e])
  have V: "real (dec_value ds) * 10 powi n = real (dec_value ds) * 10 powi (- cp_k c + n) * 10 powi cp_k c"
    by (simp flip: power_int_add)
  have pos: "0 < (10::real) powi cp_k c * 2 ^ s" by simp
  have low: "real X * 2 powi e * (10 powi cp_k c * 2 ^ s) < real (dec_value ds) * 10 powi (- cp_k c + n) * (10 powi cp_k c * 2 ^ s)"
  proof -
    have "real X * 2 powi e * 10 powi cp_k c * 2 ^ s < real x + 1"
      using scaled_error(2) [OF c(2), of "diyfp (of_nat X) e", unfolded W(1) diyfp_sel unat_of_nat_u64 [OF less(1)] powi_cancel [OF s(1)]]
      by linarith
    then show ?thesis using gen(7) unfolding V mult.assoc of_nat_add of_nat_1 by linarith
  qed
  have high: "real (dec_value ds) * 10 powi (- cp_k c + n) * (10 powi cp_k c * 2 ^ s) < real Z * 2 powi e * (10 powi cp_k c * 2 ^ s)"
  proof -
    have "real z - 1 < real Z * 2 powi e * 10 powi cp_k c * 2 ^ s"
      using scaled_error(1) [OF c(2), of "diyfp (of_nat Z) e", unfolded W(3) diyfp_sel unat_of_nat_u64 [OF less(3)] powi_cancel [OF s(1)]]
      by linarith
    moreover have "real (z - 1) = real z - 1" using gap(2) by (simp add: of_nat_diff)
    ultimately show ?thesis using gen(8) unfolding V mult.assoc by linarith
  qed
  from low high have "real X * 2 powi e < real (dec_value ds) * 10 powi (- cp_k c + n)"
    "real (dec_value ds) * 10 powi (- cp_k c + n) < real Z * 2 powi e"
    using pos by (simp_all only: mult_less_cancel_right_pos)
  with run gen(2-6) show ?thesis by blast
qed

section \<open>A double is between its boundaries\<close>

text \<open>The midpoints to the neighbouring doubles; all numbers strictly between them round to the double.\<close>

definition upper_midpoint :: "nat \<Rightarrow> int \<Rightarrow> real" where
  "upper_midpoint m e = real (2 * m + 1) * 2 powi (e - 1)"

definition lower_midpoint :: "nat \<Rightarrow> int \<Rightarrow> real" where
  "lower_midpoint m e = (if closer_below m e then real (4 * m - 1) * 2 powi (e - 2) else real (2 * m - 1) * 2 powi (e - 1))"

lemma boundaries_well_spread:
  assumes "double_parts m e" "full_shift m k"
  shows "well_spread (lower_boundary m e k) (m * 2 ^ k) ((2 * m + 1) * 2 ^ (k - 1))"
proof -
  have m: "m < 2 ^ 53" "0 < m" using assms(1) by (simp_all add: double_parts_def)
  note k = full_shift_range [OF assms(2) m(1)]
  have up: "full_shift (2 * m + 1) (k - 1)" using upper_full_shift [OF assms(2)] k(1) by simp
  obtain j where j: "k = Suc j" "10 \<le> j" using k(1) by (cases k) simp_all
  have J: "2 ^ 10 \<le> (2::nat) ^ j" using j(2) by (intro power_increasing) simp_all
  show ?thesis
  proof (cases "closer_below m e")
    case True
    then have "m = 2 ^ 52" by (simp add: closer_below_def)
    moreover from this have "k = 11" using k(3) by simp
    ultimately show ?thesis using True by (simp add: well_spread_def lower_boundary_def)
  next
    case False
    define x where "x = (2::nat) ^ j"
    have "lower_boundary m e k = 2 * m * x - x" using False j(1) by (simp add: lower_boundary_def x_def diff_mult_distrib)
    moreover have "x \<le> 2 * m * x" using m(2) by simp
    moreover have "m * 2 ^ k = 2 * m * x" "(2 * m + 1) * 2 ^ (k - 1) = 2 * m * x + x" using j(1) by (simp_all add: x_def algebra_simps)
    moreover have "2 ^ 63 \<le> 2 * m * x + x" "2 * m * x + x < 2 ^ 64"
      using up j(1) by (simp_all add: full_shift_def x_def algebra_simps)
    moreover have "1024 \<le> x" using J by (simp add: x_def)
    ultimately show ?thesis unfolding well_spread_def by simp
  qed
qed

lemma boundary_values:
  assumes "0 < m" "11 \<le> k"
  shows "real (lower_boundary m e k) * 2 powi (e - int k) = lower_midpoint m e"
    "real ((2 * m + 1) * 2 ^ (k - 1)) * 2 powi (e - int k) = upper_midpoint m e"
proof -
  have shift: "(2::real) ^ (k - i) * 2 powi (e - int k) = 2 powi (e - int i)" if "i \<le> k" for i
  proof -
    have "(2::real) ^ (k - i) * 2 powi (e - int k) = 2 powi (int (k - i)) * 2 powi (e - int k)" by simp
    also have "\<dots> = 2 powi (int (k - i) + (e - int k))" by (simp add: power_int_add)
    finally show ?thesis using that by (simp add: of_nat_diff)
  qed
  show "real (lower_boundary m e k) * 2 powi (e - int k) = lower_midpoint m e"
    using shift [of 1] shift [of 2] assms(2) unfolding lower_boundary_def lower_midpoint_def by (simp add: mult.assoc)
  show "real ((2 * m + 1) * 2 ^ (k - 1)) * 2 powi (e - int k) = upper_midpoint m e"
    using shift [of 1] assms(2) unfolding upper_midpoint_def of_nat_mult mult.assoc by simp
qed

theorem grisu2_between:
  assumes "decode_f64 d = FpFin False m e" "0 < m" "length pre = b" "17 \<le> length junk"
  shows "\<exists>ds x junk'. grisu2 (pre @ junk) b 0 d = Some (pre @ ds @ junk', length ds, x) \<and>
    length ds + length junk' = length junk \<and> list_all IsDigit ds \<and> ds \<noteq> [] \<and> length ds \<le> 17 \<and> hd ds \<noteq> CHR ''0'' \<and>
    lower_midpoint m e < real (dec_value ds) * 10 powi x \<and> real (dec_value ds) * 10 powi x < upper_midpoint m e"
proof -
  have parts: "double_parts m e" by (rule decode_double_parts [OF assms(1,2)])
  then have m: "m < 2 ^ 53" by (simp add: double_parts_def)
  then have "m < 2 ^ 64" by simp
  then obtain k where k: "full_shift m k" using full_shift_exists assms(2) by blast
  note r = full_shift_range [OF k m]
  have "- 1137 \<le> e - int k" "e - int k \<le> 960" using parts r by (auto simp: double_parts_def)
  note run = grisu2_scaled_between [OF assms(3,4) this boundaries_well_spread [OF parts k], unfolded boundary_values [OF assms(2) r(1)]]
  have pos: "fp_less (fp_of_int 0) (decode_f64 d)" "is_finite_fp (decode_f64 d)"
    using assms(1,2) by (simp_all add: fp_of_int_def signed_def is_finite_fp_def)
  have "grisu2 (pre @ junk) b 0 d = grisu2_scaled (pre @ junk) b 0 (diyfp (of_nat (lower_boundary m e k)) (e - int k))
      (diyfp (of_nat (m * 2 ^ k)) (e - int k)) (diyfp (of_nat ((2 * m + 1) * 2 ^ (k - 1))) (e - int k))"
    unfolding grisu2_def compute_boundaries_exact [OF assms(1,2) k] by (simp add: pos del: of_nat_mult of_nat_add)
  with run show ?thesis by (simp only:)
qed

end
