(* ===== verification/Double_Rounding.thy ===== *)
theory Double_Rounding
  imports Grisu2
begin

text \<open>
  The conversion of a decimal text to a double (\<open>Doubles.round_f64\<close>) gives a double for every
  number strictly between the midpoints to its neighbours, subnormal numbers, the start of a binade and
  the largest doubles included.
\<close>

section \<open>The exponent\<close>

lemma powi_less: "1 < (a :: real) \<Longrightarrow> a powi i < a powi j \<longleftrightarrow> i < j"
  using power_int_strict_increasing [of i j a] power_int_increasing [of j i a] by (cases "i < j") (auto simp: not_less)

lemma scaled_nat: "real (n * 2 ^ nat (- e)) / real (d * 2 ^ nat e) = real n / real d / 2 powi e"
  by (cases "0 \<le> e") (simp_all add: power_int_def field_simps)

lemma floor_log2_bounds:
  assumes "0 < num" "0 < den"
  shows "2 powi floor_log2 num den \<le> real num / real den" "real num / real den < 2 powi (floor_log2 num den + 1)"
proof -
  define bn bd where b: "bn = bit_length num" "bd = bit_length den"
  define e where "e = int bn - int bd"
  have pos: "0 < bn" "0 < bd" using assms unfolding b by (subst bit_length.simps, simp)+
  have n: "2 ^ (bn - 1) \<le> num" "num < 2 ^ bn" and d: "2 ^ (bd - 1) \<le> den" "den < 2 ^ bd"
    using bit_length_bounds assms unfolding b by blast+
  have powi: "(2::real) powi (int i - 1) = real (2 ^ (i - 1))" "(2::real) powi int i = real (2 ^ i)" if "0 < i" for i
  proof -
    have "int i - 1 = int (i - 1)" using that by simp
    then show "(2::real) powi (int i - 1) = real (2 ^ (i - 1))" by (simp only: power_int_of_nat of_nat_power of_nat_numeral)
  qed simp
  have n': "2 powi (int bn - 1) \<le> real num" "real num < 2 powi int bn" and d': "2 powi (int bd - 1) \<le> real den" "real den < 2 powi int bd"
    using n d unfolding powi [OF pos(1)] powi [OF pos(2)] by (simp_all only: of_nat_le_iff of_nat_less_iff)
  have den: "0 < real den" using assms(2) by simp
  have "2 powi (e - 1) * real den < 2 powi (e - 1) * 2 powi int bd" using d'(2) by simp
  also have "\<dots> = 2 powi (int bn - 1)" by (subst power_int_add [symmetric]) (simp_all add: e_def)
  finally have low: "2 powi (e - 1) < real num / real den" using n'(1) den by (simp add: field_simps)
  have "2 powi int bn = 2 powi (e + 1) * (2::real) powi (int bd - 1)" by (subst power_int_add [symmetric]) (simp_all add: e_def)
  also have "\<dots> \<le> 2 powi (e + 1) * real den" using d'(1) by simp
  finally have "real num < 2 powi (e + 1) * real den" by (rule order.strict_trans2 [OF n'(2)])
  then have high: "real num / real den < 2 powi (e + 1)" using den by (simp add: field_simps)
  have test: "den * 2 ^ nat e \<le> num * 2 ^ nat (- e) \<longleftrightarrow> 2 powi e \<le> real num / real den"
  proof -
    have "den * 2 ^ nat e \<le> num * 2 ^ nat (- e) \<longleftrightarrow> real (den * 2 ^ nat e) \<le> real (num * 2 ^ nat (- e))" by (simp only: of_nat_le_iff)
    also have "\<dots> \<longleftrightarrow> 1 \<le> real (num * 2 ^ nat (- e)) / real (den * 2 ^ nat e)" using assms(2) by (simp add: field_simps)
    also have "\<dots> \<longleftrightarrow> 2 powi e \<le> real num / real den" unfolding scaled_nat by (rule le_divide_eq_1_pos) simp
    finally show ?thesis .
  qed
  have "floor_log2 num den = (if 2 powi e \<le> real num / real den then e else e - 1)"
    unfolding floor_log2_def Let_def b [symmetric] e_def [symmetric] test ..
  then show "2 powi floor_log2 num den \<le> real num / real den" "real num / real den < 2 powi (floor_log2 num den + 1)"
    using low high by (auto split: if_splits)
qed

lemma floor_log2_eq:
  assumes "0 < num" "0 < den" "2 powi k \<le> real num / real den" "real num / real den < 2 powi (k + 1)"
  shows "floor_log2 num den = k"
proof -
  let ?L = "floor_log2 num den"
  have "2 powi ?L < (2::real) powi (k + 1)" "2 powi k < (2::real) powi (?L + 1)"
    using floor_log2_bounds [OF assms(1,2)] assms(3,4) by linarith+
  then have "?L < k + 1" "k < ?L + 1" by (simp_all add: powi_less)
  then show ?thesis by linarith
qed

section \<open>The significand\<close>

lemma round_quotient_near:
  assumes "0 < den" "real k - 1 / 2 < real num / real den / 2 powi e" "real num / real den / 2 powi e < real k + 1 / 2"
  shows "round_quotient num den e = k"
proof -
  define n d where nd: "n = num * 2 ^ nat (- e)" "d = den * 2 ^ nat e"
  have d: "0 < d" using assms(1) by (simp add: nd)
  have y: "real num / real den / 2 powi e = real n / real d" unfolding nd scaled_nat ..
  have "2 * real k * real d < 2 * real n + real d" "2 * real n < 2 * real k * real d + real d"
    using assms(2,3) d unfolding y by (simp_all add: field_simps)
  then have "real (2 * k * d) < real (2 * n + d)" "real (2 * n) < real (2 * k * d + d)" by simp_all
  then have near: "2 * k * d < 2 * n + d" "2 * n < 2 * k * d + d" by (simp_all only: of_nat_less_iff)
  obtain q r where qr: "n div d = q" "n mod d = r" "n = q * d + r" "r < d" using d by (metis div_mult_mod_eq mod_less_divisor)
  have near: "2 * (k * d) < 2 * (q * d) + 2 * r + d" "2 * (q * d) + 2 * r < 2 * (k * d) + d"
    using near unfolding qr(3) by (simp_all add: algebra_simps)
  consider "q = k" | "q + 1 = k" | "q + 2 \<le> k" | "k + 1 \<le> q" by linarith
  then show ?thesis
  proof cases
    case 1
    then have "2 * r < d" using near(2) by simp
    then show ?thesis using 1 by (simp add: round_quotient_def nd [symmetric] Let_def qr(1,2))
  next
    case 2
    then have "k * d = q * d + d" by auto
    then have "d < 2 * r" using near(1) by linarith
    then show ?thesis using 2 by (simp add: round_quotient_def nd [symmetric] Let_def qr(1,2))
  next
    case 3
    then have "(q + 2) * d \<le> k * d" by (rule mult_le_mono1)
    then have "q * d + 2 * d \<le> k * d" by (simp add: algebra_simps)
    with near(1) qr(4) show ?thesis by linarith
  next
    case 4
    then have "(k + 1) * d \<le> q * d" by (rule mult_le_mono1)
    then have "k * d + d \<le> q * d" by (simp add: algebra_simps)
    with near(2) show ?thesis by linarith
  qed
qed

section \<open>The double\<close>

theorem round_f64_between:
  assumes "double_parts m e" "0 < den" "lower_midpoint m e < real num / real den" "real num / real den < upper_midpoint m e"
  shows "round_f64 num den = Some (double_bits m e)"
proof -
  define x where "x = real num / real den"
  have parts: "0 < m" "m < 2 ^ 53" "- 1074 \<le> e" "e \<le> 971" "e = - 1074 \<or> 2 ^ 52 \<le> m" using assms(1) by (simp_all add: double_parts_def)
  have half: "(2::real) powi i = 2 * 2 powi (i - 1)" for i using power_int_add [of "2::real" 1 "i - 1"] by simp
  define y where "y = x / 2 powi e"
  have xy: "x = y * 2 powi e" by (simp add: y_def)
  have P: "0 < (2::real) powi (e - 1)" "0 < (2::real) powi (e - 2)" by simp_all
  have "y * (2 * 2 powi (e - 1)) < real (2 * m + 1) * 2 powi (e - 1)"
    using assms(4) unfolding x_def [symmetric] xy half [of e] upper_midpoint_def .
  then have "(y * 2) * 2 powi (e - 1) < real (2 * m + 1) * 2 powi (e - 1)" by (simp only: mult.assoc)
  then have up: "y < real m + 1 / 2" using P by (simp only: mult_less_cancel_right_pos)
  have low: "real m - 1 / 2 < y" "closer_below m e \<Longrightarrow> real m - 1 / 4 < y"
  proof -
    have quarter: "y * 2 powi e = (y * 4) * 2 powi (e - 2)" "y * 2 powi e = (y * 2) * 2 powi (e - 1)"
      using half [of e] half [of "e - 1"] by simp_all
    show c: "real m - 1 / 4 < y" if "closer_below m e"
    proof -
      have "real (4 * m - 1) * 2 powi (e - 2) < (y * 4) * 2 powi (e - 2)"
        using assms(3) that unfolding x_def [symmetric] xy quarter(1) lower_midpoint_def by simp
      then have "real (4 * m - 1) < y * 4" using P by (simp only: mult_less_cancel_right_pos)
      then show ?thesis using parts(1) by (simp add: of_nat_diff)
    qed
    show "real m - 1 / 2 < y"
    proof (cases "closer_below m e")
      case False
      then have "real (2 * m - 1) * 2 powi (e - 1) < (y * 2) * 2 powi (e - 1)"
        using assms(3) unfolding x_def [symmetric] xy quarter(2) lower_midpoint_def by simp
      then have "real (2 * m - 1) < y * 2" using P by (simp only: mult_less_cancel_right_pos)
      then show ?thesis using parts(1) by (simp add: of_nat_diff)
    qed (use c in force)
  qed
  have y0: "0 < y" using low(1) parts(1) by simp
  then have pos: "0 < num" unfolding y_def x_def by (simp add: zero_less_divide_iff)
  let ?er = "max (- 1074) (floor_log2 num den - 52)"
  have bits: "nat (?er + 1074) * 2 ^ 52 + round_quotient num den ?er = double_bits m e"
  proof (cases "e = - 1074")
    case True
    have "y < 2 ^ 53" using up parts(2) by simp
    then have "x < 2 powi 53 * 2 powi (- 1074)" unfolding xy True by simp
    also have "\<dots> = 2 powi (- 1021)" by (subst power_int_add [symmetric]) simp_all
    finally have "(2::real) powi floor_log2 num den < 2 powi (- 1021)"
      using floor_log2_bounds(1) [OF pos assms(2)] unfolding x_def by linarith
    then have "floor_log2 num den < - 1021" by (rule powi_less [THEN iffD1, rotated]) simp
    then have er: "?er = e" using True by simp
    show ?thesis unfolding er using round_quotient_near [OF assms(2), of m num e] low(1) up by (simp add: double_bits_def y_def x_def)
  next
    case e: False
    then have m: "2 ^ 52 \<le> m" using parts(5) by simp
    have y53: "y < 2 ^ 53" using up parts(2) by simp
    show ?thesis
    proof (cases "2 ^ 52 \<le> y")
      case True
      then have "2 powi (e + 52) \<le> x" "x < 2 powi (e + 52 + 1)"
        using y53 unfolding xy by (simp_all add: power_int_add)
      then have "floor_log2 num den = e + 52" using floor_log2_eq [OF pos assms(2)] unfolding x_def by blast
      then have er: "?er = e" using parts(3) by simp
      show ?thesis unfolding er using round_quotient_near [OF assms(2), of m num e] low(1) up by (simp add: double_bits_def y_def x_def)
    next
      case below: False
      then have "real m < 2 ^ 52 + 1" using low(1) by simp
      then have "real m < real (2 ^ 52 + 1)" by simp
      then have "m < 2 ^ 52 + 1" by (simp only: of_nat_less_iff)
      with m have m52: "m = 2 ^ 52" by simp
      then have "closer_below m e" using e parts(3) by (simp add: closer_below_def)
      from low(2) [OF this] have y: "2 ^ 52 - 1 / 4 < y" "y < 2 ^ 52" using below by (simp_all add: m52)
      then have "2 ^ 51 * 2 powi e \<le> x" "x < 2 ^ 52 * 2 powi e" unfolding xy by simp_all
      then have "2 powi (e + 51) \<le> x" "x < 2 powi (e + 51 + 1)" by (simp_all add: power_int_add)
      then have "floor_log2 num den = e + 51" using floor_log2_eq [OF pos assms(2)] unfolding x_def by blast
      then have er: "?er = e - 1" using parts(3) e by simp
      have "real num / real den / 2 powi (e - 1) = y * 2" unfolding x_def [symmetric] xy half [of e] by simp
      then have "round_quotient num den (e - 1) = 2 ^ 53" using y by (intro round_quotient_near [OF assms(2)]) simp_all
      then show ?thesis unfolding er using e parts(3) by (simp add: double_bits_def m52 nat_add_distrib nat_diff_distrib')
    qed
  qed
  have "nat (e + 1074) * 2 ^ 52 \<le> 2045 * 2 ^ 52" using parts(4) by (intro mult_le_mono1) simp
  then have "double_bits m e < 2047 * 2 ^ 52" using parts(2) unfolding double_bits_def by simp
  with bits show ?thesis using pos by (simp add: round_f64_def Let_def)
qed

end
