(* ===== verification/Text_Conversion.thy ===== *)
theory Text_Conversion
  imports Type_Conversion
begin

text \<open>
  \<open>src/core/type-conversion.cpp\<close>, its second half: the lenient conversions of a text to a number.
  They rest on \<open>std::from_chars\<close>; the one for \<open>double\<close> is modelled here.
\<close>

section \<open>from_chars for double\<close>

definition lower :: "char \<Rightarrow> char" where
  "lower c = (let n = of_char c :: nat in if 65 \<le> n \<and> n \<le> 90 then char_of (n + 32) else c)"

text \<open>The rest behind a word, whatever its case.\<close>

definition after_word :: "string \<Rightarrow> string \<Rightarrow> string option" where
  "after_word word s = (if map lower (take (length word) s) = word then Some (drop (length word) s) else None)"

definition word_char :: "char \<Rightarrow> bool" where
  "word_char c \<longleftrightarrow> IsDigit c \<or> c = CHR ''_'' \<or> (let n = of_char (lower c) :: nat in 97 \<le> n \<and> n \<le> 122)"

text \<open>The parenthesized tail a \<open>nan\<close> may have.\<close>

definition after_nan :: "string \<Rightarrow> string" where
  "after_nan s =
     (case s of
        c # rest \<Rightarrow>
          if c = CHR ''('' then (case dropWhile word_char rest of
                                   d # rest' \<Rightarrow> if d = CHR '')'' then rest' else s
                                 | [] \<Rightarrow> s)
          else s
      | [] \<Rightarrow> s)"

text \<open>An exponent part, if there is one: its value and what follows.\<close>

definition exponent :: "string \<Rightarrow> int \<times> string" where
  "exponent s =
     (case s of
        c # t \<Rightarrow>
          if c = CHR ''e'' \<or> c = CHR ''E'' then
            (let u = (if t \<noteq> [] \<and> (hd t = CHR ''+'' \<or> hd t = CHR ''-'') then tl t else t);
                 ds = takeWhile IsDigit u
             in if ds = [] then (0, s)
                else (if hd t = CHR ''-'' then - int (dec_value ds) else int (dec_value ds), dropWhile IsDigit u))
          else (0, s)
      | [] \<Rightarrow> (0, s))"

text \<open>
  A decimal text is rounded once, to the nearest \<open>double\<close>; too large a value is out of range, and so
  is one too small to be told from zero.
\<close>

definition decimal_f64 :: "bool \<Rightarrow> nat \<Rightarrow> int \<Rightarrow> f64 option" where
  "decimal_f64 neg v x =
     (case round_f64 (v * 10 ^ nat x) (10 ^ nat (- x)) of
        None \<Rightarrow> None
      | Some bits \<Rightarrow> if bits = 0 \<and> v \<noteq> 0 then None else Some (f64_of_bits neg bits))"

definition from_chars_f64 :: "string \<Rightarrow> f64 \<Rightarrow> errc \<times> string \<times> f64" where
  "from_chars_f64 s old =
     (let neg = (s \<noteq> [] \<and> hd s = CHR ''-''); t = (if neg then tl s else s)
      in case after_word ''infinity'' t of Some rest \<Rightarrow> (NoErrc, rest, f64_of_bits neg (2047 * 2 ^ 52)) | None \<Rightarrow>
         case after_word ''inf'' t of Some rest \<Rightarrow> (NoErrc, rest, f64_of_bits neg (2047 * 2 ^ 52)) | None \<Rightarrow>
         case after_word ''nan'' t of Some rest \<Rightarrow> (NoErrc, after_nan rest, f64_of_bits neg (2047 * 2 ^ 52 + 2 ^ 51)) | None \<Rightarrow>
         let whole = takeWhile IsDigit t; r = dropWhile IsDigit t;
             point = (r \<noteq> [] \<and> hd r = CHR ''.'');
             frac = (if point then takeWhile IsDigit (tl r) else []);
             r = (if point then dropWhile IsDigit (tl r) else r)
         in if whole = [] \<and> frac = [] then (invalid_argument, s, old)
            else let (x, rest) = exponent r
                 in case decimal_f64 neg (dec_value (whole @ frac)) (x - int (length frac)) of
                      None \<Rightarrow> (result_out_of_range, rest, old)
                    | Some bits \<Rightarrow> (NoErrc, rest, bits))"

section \<open>The conversions\<close>

definition LooksLikeFloatContinuation :: "char \<Rightarrow> bool" where
  "LooksLikeFloatContinuation c \<longleftrightarrow> c = CHR ''.'' \<or> c = CHR ''e'' \<or> c = CHR ''E''"

definition FractionalTextToLong :: "string \<Rightarrow> i32 \<Rightarrow> status \<times> i32" where
  "FractionalTextToLong text' out =
     (case from_chars_f64 text' 0 of (ec, rest, bits) \<Rightarrow>
        if ec = result_out_of_range then (NumericOverflow, out)
        else if ec \<noteq> NoErrc \<or> rest \<noteq> [] then (ParseError, out)
        else
          let val = decode_f64 bits; truncated = fp_trunc val
          in if \<not> fp_eq val truncated then (NotIntegral, out)
             else if fp_less truncated (fp_of_int int32_min) \<or> fp_less (fp_of_int int32_max) truncated
             then (NumericOverflow, out)
             else (Ok, of_int (fp_to_int truncated)))"

definition ParseLong :: "string \<Rightarrow> i32 \<Rightarrow> status \<times> i32" where
  "ParseLong text' out =
     (if text' = [] then (InvalidArgument, out)
      else (case from_chars_i32 text' 0 of (ec, rest, val) \<Rightarrow>
        if ec = result_out_of_range then (NumericOverflow, out)
        else if ec = NoErrc \<and> rest = [] then (Ok, val)
        else if ec = NoErrc \<and> rest \<noteq> [] \<and> LooksLikeFloatContinuation (hd rest) then FractionalTextToLong text' out
        else (ParseError, out)))"

definition ParseDouble :: "string \<Rightarrow> f64 \<Rightarrow> status \<times> f64" where
  "ParseDouble text' out =
     (if text' = [] then (InvalidArgument, out)
      else (case from_chars_f64 text' 0 of (ec, rest, val) \<Rightarrow>
        if ec = result_out_of_range then (NumericOverflow, out)
        else if ec \<noteq> NoErrc \<or> rest \<noteq> [] then (ParseError, out)
        else (Ok, val)))"

section \<open>Integers\<close>

lemma to_string_parts:
  "takeWhile IsDigit (to_string n) = to_string n" "dropWhile IsDigit (to_string n) = []"
  using to_string_digits by (auto simp: takeWhile_eq_all_conv dropWhile_eq_Nil_conv)

lemma to_string_no_minus: "to_string n \<noteq> CHR ''-'' # s"
  using to_string_digits [of "CHR ''-''" n] by (auto simp: IsDigit_def)

lemma from_chars_i32_int:
  "from_chars_i32 (int_to_string z) old =
     (if int32_min \<le> z \<and> z \<le> int32_max then (NoErrc, [], of_int z) else (result_out_of_range, [], old))"
proof (cases "z < 0")
  case True
  then show ?thesis
    by (auto simp: from_chars_i32_def int_to_string_def Let_def to_string_parts int32_defs)
next
  case False
  have "hd (to_string (nat z)) \<noteq> CHR ''-''"
    using to_string_no_minus [of "nat z"] by (cases "to_string (nat z)") auto
  with False show ?thesis
    by (auto simp: from_chars_i32_def int_to_string_def Let_def to_string_parts int32_defs)
qed

lemma int_to_string_nonempty [simp]: "int_to_string z \<noteq> []"
  by (simp add: int_to_string_def)

lemma FractionalTextToLong_ToLong:
  "FractionalTextToLong s out =
     (case from_chars_f64 s 0 of (ec, rest, bits) \<Rightarrow>
        if ec = result_out_of_range then (NumericOverflow, out)
        else if ec \<noteq> NoErrc \<or> rest \<noteq> [] then (ParseError, out)
        else ToLong (JFloat bits) out)"
  by (simp add: FractionalTextToLong_def Let_def split: prod.split)

section \<open>Properties\<close>

text \<open>C40: An integer written as text is read back exactly when it fits 32 bits and refused as an
  overflow when it does not. A number with a fraction or exponent behind a 32-bit integer part is
  read as the \<open>double\<close> that \<open>ParseDouble\<close> gives, then converted as a JSON number of that value is.
  Whatever fails leaves the output alone.
\<close>

theorem parse_long_exact:
  "ParseLong (int_to_string z) out =
      (if int32_min \<le> z \<and> z \<le> int32_max then (Ok, of_int z) else (NumericOverflow, out))
   \<and> (from_chars_i32 s 0 = (NoErrc, c # rest, v) \<longrightarrow> LooksLikeFloatContinuation c \<longrightarrow>
        ParseLong s out = (case ParseDouble s d of
          (st, bits) \<Rightarrow> if st = Ok then ToLong (JFloat bits) out else (st, out)))
   \<and> (fst (ParseLong s out) \<noteq> Ok \<longrightarrow> snd (ParseLong s out) = out)"
proof (intro conjI impI)
  show "ParseLong (int_to_string z) out =
      (if int32_min \<le> z \<and> z \<le> int32_max then (Ok, of_int z) else (NumericOverflow, out))"
    by (simp add: ParseLong_def from_chars_i32_int)
  assume h: "from_chars_i32 s 0 = (NoErrc, c # rest, v)" "LooksLikeFloatContinuation c"
  then have "s \<noteq> []" by (auto simp: from_chars_i32_def)
  with h show "ParseLong s out = (case ParseDouble s d of
      (st, bits) \<Rightarrow> if st = Ok then ToLong (JFloat bits) out else (st, out))"
    by (auto simp: ParseLong_def ParseDouble_def FractionalTextToLong_ToLong split: prod.split)
next
  assume "fst (ParseLong s out) \<noteq> Ok"
  then show "snd (ParseLong s out) = out"
    using accessor_failure_keeps(1) [of _ out]
    by (auto simp: ParseLong_def FractionalTextToLong_ToLong simp del: ToLong.simps split: prod.splits if_splits)
qed

theorem parse_long_exact_witness:
  "ParseLong ''1.5'' 7 = (case ParseDouble ''1.5'' 0 of (st, bits) \<Rightarrow> if st = Ok then ToLong (JFloat bits) 7 else (st, 7))
    \<and> snd (ParseLong ''x'' 7) = 7"
proof -
  have "from_chars_i32 ''1.5'' 0 = (NoErrc, ''.5'', 1)" "LooksLikeFloatContinuation CHR ''.''" "fst (ParseLong ''x'' 7) \<noteq> Ok"
    by code_simp+
  with parse_long_exact [of 0 7 "''1.5''" "CHR ''.''" "''5''" 1 0] parse_long_exact [of 0 7 "''x''" "CHR ''.''" "''5''" 1 0]
  show ?thesis by blast
qed

text \<open>
  Two texts the header's rule (a fraction is \<open>NotIntegral\<close>, never \<open>ParseError\<close> and never silently
  truncated) does not describe: a fraction without integer digits, and one lost in rounding.
\<close>

lemma parse_long_bare_fraction: "ParseLong ''.5'' 7 = (ParseError, 7)"
  by code_simp

lemma parse_long_rounded_fraction: "ParseLong ''1.00000000000000000001'' 7 = (Ok, 1)"
proof -
  have i: "from_chars_i32 ''1.00000000000000000001'' 0 = (NoErrc, ''.00000000000000000001'', 1)" by code_simp
  have "round_f64 100000000000000000001 100000000000000000000 = Some 4607182418800017408"
    by (simp add: round_f64_def floor_log2_def round_quotient_def Let_def bit_length.simps)
  then have d: "decimal_f64 False 100000000000000000001 (- 20) = Some (f64_of_bits False 4607182418800017408)"
    by (simp add: decimal_f64_def)
  have f: "from_chars_f64 ''1.00000000000000000001'' 0 = (NoErrc, [], f64_of_bits False 4607182418800017408)"
    using d by (simp add: from_chars_f64_def after_word_def exponent_def dec_value_def digit_value_def IsDigit_def lower_def Let_def)
  have "decode_f64 (f64_of_bits False 4607182418800017408) = FpFin False (2 ^ 52) (- 52)"
    by (simp add: decode_f64_def unat_f64_of_bits Let_def)
  then have t: "ToLong (JFloat (f64_of_bits False 4607182418800017408)) 7 = (Ok, 1)"
    by (simp add: Let_def signed_def fp_of_int_def int32_defs)
  show ?thesis
    by (simp add: ParseLong_def i LooksLikeFloatContinuation_def FractionalTextToLong_ToLong f t del: ToLong.simps)
qed

end
