(* ===== verification/Json_Lexer.thy ===== *)
theory Json_Lexer
  imports Text_Conversion Json_Parser Json_Quotes
begin

text \<open>
  The lexer of the vendored JSON library (class \<open>lexer\<close> of \<open>include/vendor/json.hpp\<close>): from the
  bytes of a text to the tokens the parser loop reads. A scan function takes the input behind the
  current character and returns with the input it left; \<open>unget\<close> leaves the character it read. What
  the lexer keeps for error messages (positions, the token's raw text) is not modelled.
\<close>

section \<open>Escapes and bytes of a string\<close>

definition hex_value :: "char \<Rightarrow> nat option" where
  "hex_value c =
     (let n = of_char c :: nat in
      if 48 \<le> n \<and> n \<le> 57 then Some (n - 48)
      else if 65 \<le> n \<and> n \<le> 70 then Some (n - 55)
      else if 97 \<le> n \<and> n \<le> 102 then Some (n - 87)
      else None)"

text \<open>The loop of \<open>get_codepoint\<close> over the shift amounts; \<open>None\<close> is its result \<open>-1\<close>.\<close>

fun codepoint_from :: "nat list \<Rightarrow> nat \<Rightarrow> string \<Rightarrow> nat option \<times> string" where
  "codepoint_from [] codepoint s = (Some codepoint, s)"
| "codepoint_from (k # ks) codepoint [] = (None, [])"
| "codepoint_from (k # ks) codepoint (c # cs) =
     (case hex_value c of
        None \<Rightarrow> (None, cs)
      | Some d \<Rightarrow> codepoint_from ks (codepoint + push_bit k d) cs)"

definition get_codepoint :: "string \<Rightarrow> nat option \<times> string" where
  "get_codepoint s = codepoint_from [12, 8, 4, 0] 0 s"

text \<open>The code point of an escape, from behind its \<open>u\<close>, with the second half of a surrogate pair.\<close>

definition unicode_escape :: "string \<Rightarrow> nat option \<times> string" where
  "unicode_escape s =
     (case get_codepoint s of
        (None, r) \<Rightarrow> (None, r)
      | (Some codepoint1, r) \<Rightarrow>
          if 0xD800 \<le> codepoint1 \<and> codepoint1 \<le> 0xDBFF
          then (case r of
                  [] \<Rightarrow> (None, [])
                | a # r \<Rightarrow>
                    if a \<noteq> bslash then (None, r)
                    else (case r of
                            [] \<Rightarrow> (None, [])
                          | b # r \<Rightarrow>
                              if b \<noteq> CHR ''u'' then (None, r)
                              else (case get_codepoint r of
                                      (None, r) \<Rightarrow> (None, r)
                                    | (Some codepoint2, r) \<Rightarrow>
                                        if 0xDC00 \<le> codepoint2 \<and> codepoint2 \<le> 0xDFFF
                                        then (Some (push_bit 10 codepoint1 + codepoint2 - 0x35FDC00), r)
                                        else (None, r))))
          else if 0xDC00 \<le> codepoint1 \<and> codepoint1 \<le> 0xDFFF then (None, r)
          else (Some codepoint1, r))"

text \<open>The bytes added for a code point.\<close>

definition codepoint_bytes :: "nat \<Rightarrow> string" where
  "codepoint_bytes codepoint =
     map char_of
       (if codepoint < 0x80 then [codepoint]
        else if codepoint \<le> 0x7FF
        then [or 0xC0 (drop_bit 6 codepoint), or 0x80 (and codepoint 0x3F)]
        else if codepoint \<le> 0xFFFF
        then [or 0xE0 (drop_bit 12 codepoint), or 0x80 (and (drop_bit 6 codepoint) 0x3F), or 0x80 (and codepoint 0x3F)]
        else [or 0xF0 (drop_bit 18 codepoint), or 0x80 (and (drop_bit 12 codepoint) 0x3F),
              or 0x80 (and (drop_bit 6 codepoint) 0x3F), or 0x80 (and codepoint 0x3F)])"

definition simple_escape :: "char \<Rightarrow> char option" where
  "simple_escape c =
     (if c = quot then Some quot else if c = bslash then Some bslash else if c = CHR ''/'' then Some (CHR ''/'')
      else if c = CHR ''b'' then Some (CHR 0x08) else if c = CHR ''f'' then Some (CHR 0x0C)
      else if c = CHR ''n'' then Some (CHR 0x0A) else if c = CHR ''r'' then Some (CHR 0x0D)
      else if c = CHR ''t'' then Some (CHR 0x09) else None)"

text \<open>The ranges of the bytes that have to follow a first byte, when it can start a sequence.\<close>

definition utf8_ranges :: "nat \<Rightarrow> (nat \<times> nat) list option" where
  "utf8_ranges n =
     (if 0xC2 \<le> n \<and> n \<le> 0xDF then Some [(0x80, 0xBF)]
      else if n = 0xE0 then Some [(0xA0, 0xBF), (0x80, 0xBF)]
      else if 0xE1 \<le> n \<and> n \<le> 0xEC \<or> n = 0xEE \<or> n = 0xEF then Some [(0x80, 0xBF), (0x80, 0xBF)]
      else if n = 0xED then Some [(0x80, 0x9F), (0x80, 0xBF)]
      else if n = 0xF0 then Some [(0x90, 0xBF), (0x80, 0xBF), (0x80, 0xBF)]
      else if 0xF1 \<le> n \<and> n \<le> 0xF3 then Some [(0x80, 0xBF), (0x80, 0xBF), (0x80, 0xBF)]
      else if n = 0xF4 then Some [(0x80, 0x8F), (0x80, 0xBF), (0x80, 0xBF)]
      else None)"

fun bytes_in_range :: "(nat \<times> nat) list \<Rightarrow> string \<Rightarrow> string \<Rightarrow> string option \<times> string" where
  "bytes_in_range [] token_buffer s = (Some token_buffer, s)"
| "bytes_in_range ((lo, hi) # ranges) token_buffer [] = (None, [])"
| "bytes_in_range ((lo, hi) # ranges) token_buffer (c # cs) =
     (if lo \<le> of_char c \<and> of_char c \<le> hi then bytes_in_range ranges (token_buffer @ [c]) cs else (None, cs))"

definition next_byte_in_range :: "(nat \<times> nat) list \<Rightarrow> char \<Rightarrow> string \<Rightarrow> string \<Rightarrow> string option \<times> string" where
  "next_byte_in_range ranges current token_buffer s = bytes_in_range ranges (token_buffer @ [current]) s"

lemma codepoint_from_rest: "codepoint_from ks n s = (v, r) \<Longrightarrow> length r \<le> length s"
  by (induction ks n s rule: codepoint_from.induct) (auto split: option.splits)

lemma get_codepoint_rest: "get_codepoint s = (v, r) \<Longrightarrow> length r \<le> length s"
  unfolding get_codepoint_def by (rule codepoint_from_rest)

lemma unicode_escape_rest: "unicode_escape s = (v, r) \<Longrightarrow> length r \<le> length s"
  by (fastforce simp: unicode_escape_def split: prod.splits option.splits if_splits list.splits dest: get_codepoint_rest)

lemma bytes_in_range_rest: "bytes_in_range ranges buf s = (v, r) \<Longrightarrow> length r \<le> length s"
  by (induction ranges buf s rule: bytes_in_range.induct) (auto split: if_splits)

lemma next_byte_in_range_rest: "next_byte_in_range ranges c buf s = (v, r) \<Longrightarrow> length r \<le> length s"
  unfolding next_byte_in_range_def by (rule bytes_in_range_rest)

section \<open>Strings\<close>

text \<open>
  One turn of the loop of \<open>scan_string\<close>, from the character read: the closing quote, an error, or
  the bytes it adds to the token buffer.
\<close>

datatype string_turn = Closed string | Bad string | Added string string

definition string_turn :: "char \<Rightarrow> string \<Rightarrow> string_turn" where
  "string_turn c cs =
     (if c = quot then Closed cs
      else if c = bslash
      then (case cs of
              [] \<Rightarrow> Bad []
            | e # cs \<Rightarrow>
                (case simple_escape e of
                   Some x \<Rightarrow> Added [x] cs
                 | None \<Rightarrow>
                     if e = CHR ''u''
                     then (case unicode_escape cs of
                             (None, r) \<Rightarrow> Bad r
                           | (Some codepoint, r) \<Rightarrow> Added (codepoint_bytes codepoint) r)
                     else Bad cs))
      else if (of_char c :: nat) < 0x20 then Bad cs
      else if (of_char c :: nat) < 0x80 then Added [c] cs
      else (case utf8_ranges (of_char c) of
              None \<Rightarrow> Bad cs
            | Some ranges \<Rightarrow>
                (case next_byte_in_range ranges c [] cs of
                   (None, r) \<Rightarrow> Bad r
                 | (Some bytes, r) \<Rightarrow> Added bytes r)))"

fun turn_rest :: "string_turn \<Rightarrow> string" where
  "turn_rest (Closed r) = r"
| "turn_rest (Bad r) = r"
| "turn_rest (Added bytes r) = r"

lemma string_turn_rest: "length (turn_rest (string_turn c cs)) \<le> length cs"
proof (cases "c = quot \<or> c = bslash")
  case True
  have "length (snd (unicode_escape r)) \<le> length r" for r
    by (cases "unicode_escape r") (simp add: unicode_escape_rest)
  then show ?thesis using True
    by (cases cs) (auto simp: string_turn_def le_SucI split: option.split prod.split dest: unicode_escape_rest)
next
  case False
  then show ?thesis
    by (simp add: string_turn_def split: option.split prod.split) (auto dest: next_byte_in_range_rest)
qed

text \<open>The loop behind the opening quote: the token buffer, or \<open>None\<close> for an error.\<close>

function scan_string_from :: "string \<Rightarrow> string \<Rightarrow> string option \<times> string" where
  "scan_string_from token_buffer [] = (None, [])"
| "scan_string_from token_buffer (c # cs) =
     (case string_turn c cs of
        Closed r \<Rightarrow> (Some token_buffer, r)
      | Bad r \<Rightarrow> (None, r)
      | Added bytes r \<Rightarrow> scan_string_from (token_buffer @ bytes) r)"
  by pat_completeness auto

termination
proof (relation "measure (length \<circ> snd)")
  fix buf c cs bytes r
  assume "string_turn c cs = Added bytes r"
  with string_turn_rest [of c cs] show "((buf @ bytes, r), buf, c # cs) \<in> measure (length \<circ> snd)" by simp
qed simp

definition scan_string :: "string \<Rightarrow> token \<times> string" where
  "scan_string s =
     (case scan_string_from [] s of (None, r) \<Rightarrow> (LexError, r) | (Some token_buffer, r) \<Rightarrow> (ValueString token_buffer, r))"

lemma scan_string_from_rest: "length (snd (scan_string_from buf s)) \<le> length s"
proof (induction buf s rule: scan_string_from.induct)
  case (2 buf c cs)
  then show ?case using string_turn_rest [of c cs] by (cases "string_turn c cs") fastforce+
qed simp

lemma scan_string_rest: "length (snd (scan_string s)) \<le> length s"
  using scan_string_from_rest [of "[]" s] by (auto simp: scan_string_def split: prod.splits option.splits)

section \<open>Numbers\<close>

datatype number_state = AfterMinus | AfterZero | AfterAny1 | AfterDecimal1 | AfterDecimal2 | AfterExponent | AfterSign | AfterAny2

datatype number_type = Unsigned | Integer | Float

text \<open>
  The state machine of \<open>scan_number\<close> from a label on: the type and the token buffer when it reaches
  \<open>done\<close>, whose \<open>unget\<close> leaves the character read; an error leaves what is behind it.
\<close>

fun scan_number_from :: "number_state \<Rightarrow> number_type \<Rightarrow> string \<Rightarrow> string \<Rightarrow> (number_type \<times> string) option \<times> string" where
  "scan_number_from state number_type buf [] =
     (if state \<in> {AfterZero, AfterAny1, AfterDecimal2, AfterAny2} then (Some (number_type, buf), []) else (None, []))"
| "scan_number_from AfterMinus number_type buf (c # cs) =
     (let number_type = Integer in
      if c = CHR ''0'' then scan_number_from AfterZero number_type (buf @ [c]) cs
      else if IsDigit c then scan_number_from AfterAny1 number_type (buf @ [c]) cs
      else (None, cs))"
| "scan_number_from AfterZero number_type buf (c # cs) =
     (if c = CHR ''.'' then scan_number_from AfterDecimal1 number_type (buf @ [c]) cs
      else if c = CHR ''e'' \<or> c = CHR ''E'' then scan_number_from AfterExponent number_type (buf @ [c]) cs
      else (Some (number_type, buf), c # cs))"
| "scan_number_from AfterAny1 number_type buf (c # cs) =
     (if IsDigit c then scan_number_from AfterAny1 number_type (buf @ [c]) cs
      else if c = CHR ''.'' then scan_number_from AfterDecimal1 number_type (buf @ [c]) cs
      else if c = CHR ''e'' \<or> c = CHR ''E'' then scan_number_from AfterExponent number_type (buf @ [c]) cs
      else (Some (number_type, buf), c # cs))"
| "scan_number_from AfterDecimal1 number_type buf (c # cs) =
     (let number_type = Float in
      if IsDigit c then scan_number_from AfterDecimal2 number_type (buf @ [c]) cs
      else (None, cs))"
| "scan_number_from AfterDecimal2 number_type buf (c # cs) =
     (if IsDigit c then scan_number_from AfterDecimal2 number_type (buf @ [c]) cs
      else if c = CHR ''e'' \<or> c = CHR ''E'' then scan_number_from AfterExponent number_type (buf @ [c]) cs
      else (Some (number_type, buf), c # cs))"
| "scan_number_from AfterExponent number_type buf (c # cs) =
     (let number_type = Float in
      if c = CHR ''+'' \<or> c = CHR ''-'' then scan_number_from AfterSign number_type (buf @ [c]) cs
      else if IsDigit c then scan_number_from AfterAny2 number_type (buf @ [c]) cs
      else (None, cs))"
| "scan_number_from AfterSign number_type buf (c # cs) =
     (if IsDigit c then scan_number_from AfterAny2 number_type (buf @ [c]) cs
      else (None, cs))"
| "scan_number_from AfterAny2 number_type buf (c # cs) =
     (if IsDigit c then scan_number_from AfterAny2 number_type (buf @ [c]) cs
      else (Some (number_type, buf), c # cs))"

text \<open>
  \<open>strtod\<close> of a checked number text: rounded once to the nearest double, infinite when too large,
  zero or subnormal when too small.
\<close>

definition f64_of_decimal :: "bool \<Rightarrow> nat \<Rightarrow> int \<Rightarrow> f64" where
  "f64_of_decimal neg v x =
     (case round_f64 (v * 10 ^ nat x) (10 ^ nat (- x)) of
        None \<Rightarrow> f64_of_bits neg (2047 * 2 ^ 52)
      | Some bits \<Rightarrow> f64_of_bits neg bits)"

definition strtod :: "string \<Rightarrow> f64" where
  "strtod s =
     (let neg = (s \<noteq> [] \<and> hd s = CHR ''-''); t = (if neg then tl s else s);
          whole = takeWhile IsDigit t; r = dropWhile IsDigit t;
          point = (r \<noteq> [] \<and> hd r = CHR ''.'');
          frac = (if point then takeWhile IsDigit (tl r) else []);
          r = (if point then dropWhile IsDigit (tl r) else r)
      in f64_of_decimal neg (dec_value (whole @ frac)) (fst (exponent r) - int (length frac)))"

text \<open>\<open>done\<close>: the conversion; an integer that does not fit its type becomes a float.\<close>

definition number_token :: "number_type \<Rightarrow> string \<Rightarrow> token" where
  "number_token number_type buf =
     (case number_type of
        Unsigned \<Rightarrow>
          if dec_value buf < 2 ^ 64 then ValueUnsigned (of_nat (dec_value buf)) else ValueFloat (strtod buf)
      | Integer \<Rightarrow>
          if dec_value (tl buf) \<le> 2 ^ 63 then ValueInteger (of_int (- int (dec_value (tl buf)))) else ValueFloat (strtod buf)
      | Float \<Rightarrow> ValueFloat (strtod buf))"

text \<open>\<open>scan_number\<close> from its first character, a digit or a minus sign.\<close>

definition scan_number :: "char \<Rightarrow> string \<Rightarrow> token \<times> string" where
  "scan_number c cs =
     (let state = (if c = CHR ''-'' then AfterMinus else if c = CHR ''0'' then AfterZero else AfterAny1)
      in case scan_number_from state Unsigned [c] cs of
           (None, r) \<Rightarrow> (LexError, r)
         | (Some (number_type, buf), r) \<Rightarrow> (number_token number_type buf, r))"

lemma scan_number_from_rest: "length (snd (scan_number_from state number_type buf s)) \<le> length s"
  by (induction state number_type buf s rule: scan_number_from.induct) (auto simp: Let_def)

lemma scan_number_rest: "length (snd (scan_number c cs)) \<le> length cs"
  using scan_number_from_rest
  by (fastforce simp: scan_number_def Let_def split: prod.splits option.splits dest: arg_cong [of _ _ snd])

section \<open>Tokens\<close>

text \<open>\<open>scan_literal\<close> from its second character on.\<close>

fun scan_literal :: "string \<Rightarrow> token \<Rightarrow> string \<Rightarrow> token \<times> string" where
  "scan_literal [] return_type s = (return_type, s)"
| "scan_literal (x # xs) return_type [] = (LexError, [])"
| "scan_literal (x # xs) return_type (c # cs) =
     (if c \<noteq> x then (LexError, cs) else scan_literal xs return_type cs)"

lemma scan_literal_rest: "length (snd (scan_literal xs t s)) \<le> length s"
  by (induction xs t s rule: scan_literal.induct) auto

definition is_whitespace :: "char \<Rightarrow> bool" where
  "is_whitespace c \<longleftrightarrow> c = CHR '' '' \<or> c = CHR 0x09 \<or> c = CHR 0x0A \<or> c = CHR 0x0D"

definition skip_whitespace :: "string \<Rightarrow> string" where
  "skip_whitespace s = dropWhile is_whitespace s"

text \<open>\<open>scan\<close> behind the byte order mark. Comments are not ignored.\<close>

definition scan_token :: "string \<Rightarrow> token \<times> string" where
  "scan_token s =
     (case skip_whitespace s of
        [] \<Rightarrow> (EndOfInput, [])
      | c # cs \<Rightarrow>
          if c = CHR ''['' then (BeginArray, cs)
          else if c = CHR '']'' then (EndArray, cs)
          else if c = CHR ''{'' then (BeginObject, cs)
          else if c = CHR ''}'' then (EndObject, cs)
          else if c = CHR '':'' then (NameSeparator, cs)
          else if c = CHR '','' then (ValueSeparator, cs)
          else if c = CHR ''t'' then scan_literal ''rue'' LiteralTrue cs
          else if c = CHR ''f'' then scan_literal ''alse'' LiteralFalse cs
          else if c = CHR ''n'' then scan_literal ''ull'' LiteralNull cs
          else if c = quot then scan_string cs
          else if c = CHR ''-'' \<or> IsDigit c then scan_number c cs
          else if c = CHR 0x00 then (EndOfInput, cs)
          else (LexError, cs))"

lemma scan_token_rest: "s \<noteq> [] \<Longrightarrow> length (snd (scan_token s)) < length s"
proof (cases "skip_whitespace s")
  case (Cons c cs)
  have "length (skip_whitespace s) \<le> length s" by (simp add: skip_whitespace_def length_dropWhile_le)
  moreover have "length (snd (scan_token s)) \<le> length cs"
    using scan_literal_rest scan_string_rest scan_number_rest by (simp add: scan_token_def Cons)
  ultimately show ?thesis using Cons by simp
qed (simp add: scan_token_def)

text \<open>The tokens of a text: every further \<open>scan\<close> of the exhausted input gives \<open>EndOfInput\<close>.\<close>

function lex_from :: "string \<Rightarrow> token list" where
  "lex_from s = (if s = [] then [] else case scan_token s of (t, r) \<Rightarrow> t # lex_from r)"
  by pat_completeness auto

termination
proof (relation "measure length")
  fix s :: string and t r
  assume s: "s \<noteq> []" "(t, r) = scan_token s"
  have "snd (scan_token s) = r" by (metis s(2) snd_conv)
  with scan_token_rest [OF s(1)] show "(r, s) \<in> measure length" by simp
qed simp

declare lex_from.simps [simp del]

text \<open>The first \<open>scan\<close> skips a byte order mark.\<close>

definition skip_bom :: "string \<Rightarrow> bool \<times> string" where
  "skip_bom s =
     (case s of
        [] \<Rightarrow> (True, [])
      | a # r \<Rightarrow>
          if a \<noteq> CHR 0xEF then (True, s)
          else (case r of
                  [] \<Rightarrow> (False, [])
                | b # r \<Rightarrow>
                    if b \<noteq> CHR 0xBB then (False, r)
                    else (case r of [] \<Rightarrow> (False, []) | c # r \<Rightarrow> (c = CHR 0xBF, r))))"

definition lexer :: "string \<Rightarrow> token list" where
  "lexer s = (case skip_bom s of (ok, r) \<Rightarrow> if ok then lex_from r else LexError # lex_from r)"

end
