(* ===== verification/Json_Strings.thy ===== *)
theory Json_Strings
  imports Json_Lexer
begin

text \<open>
  What the lexer takes for a string: the grammar of RFC 8259 with its escapes, over well-formed
  UTF-8. A string text is a sequence of characters, each written raw, as a short escape, as a hex
  escape or as a surrogate pair; the lexer accepts exactly these texts and returns the UTF-8 of
  the code points they stand for.
\<close>

section \<open>UTF-8\<close>

definition scalar_value :: "nat \<Rightarrow> bool" where
  "scalar_value n \<longleftrightarrow> n < 0xD800 \<or> 0xE000 \<le> n \<and> n \<le> 0x10FFFF"

definition utf8 :: "nat \<Rightarrow> string" where
  "utf8 n =
     map char_of
       (if n < 0x80 then [n]
        else if n < 0x800 then [0xC0 + n div 64, 0x80 + n mod 64]
        else if n < 0x10000 then [0xE0 + n div 4096, 0x80 + n div 64 mod 64, 0x80 + n mod 64]
        else [0xF0 + n div 262144, 0x80 + n div 4096 mod 64, 0x80 + n div 64 mod 64, 0x80 + n mod 64])"

definition utf8_text :: "string \<Rightarrow> bool" where
  "utf8_text s \<longleftrightarrow> (\<exists>ns. list_all scalar_value ns \<and> s = concat (map utf8 ns))"

lemma utf8_text_Nil [simp]: "utf8_text []"
  by (auto simp: utf8_text_def intro: exI [of _ "[]"])

lemma utf8_text_append: "utf8_text s \<Longrightarrow> utf8_text t \<Longrightarrow> utf8_text (s @ t)"
  unfolding utf8_text_def by (metis concat_append list_all_append map_append)

lemma utf8_text_utf8: "scalar_value n \<Longrightarrow> utf8_text (utf8 n)"
  unfolding utf8_text_def by (rule exI [of _ "[n]"]) simp

lemma utf8_nonempty [simp]: "utf8 n \<noteq> []"
  by (simp add: utf8_def)

text \<open>The shifts and masks of the code are divisions: no bit is set twice.\<close>

lemma or_above:
  assumes "x < 2 ^ m"
  shows "or (k * 2 ^ m) x = k * 2 ^ m + (x :: nat)"
proof -
  have "and (push_bit m k) (take_bit m x) = 0" by (auto simp: bit_eq_iff bit_simps)
  with assms have "and (k * 2 ^ m) x = 0" by (simp add: push_bit_eq_mult take_bit_nat_eq_self)
  then show ?thesis by (simp add: disjunctive_add_eq_or)
qed

lemma or_prefix:
  "x < 32 \<Longrightarrow> or 192 x = 192 + (x :: nat)" "x < 16 \<Longrightarrow> or 224 x = 224 + x"
  "x < 8 \<Longrightarrow> or 240 x = 240 + x" "x < 64 \<Longrightarrow> or 128 x = 128 + x"
  using or_above [of x 5 6] or_above [of x 4 14] or_above [of x 3 30] or_above [of x 6 2] by simp_all

lemma and_low: "and x 63 = x mod (64 :: nat)"
  using take_bit_eq_mask [of 6 x] by (simp add: take_bit_eq_mod mask_eq_exp_minus_1)

lemma codepoint_bytes_utf8: "n \<le> 0x10FFFF \<Longrightarrow> codepoint_bytes n = utf8 n"
  by (auto simp: codepoint_bytes_def utf8_def and_low drop_bit_eq_div or_prefix)

section \<open>Multi-byte sequences\<close>

lemma char_of_code: "(of_char c :: nat) = n \<Longrightarrow> char_of n = c"
  by auto

lemma of_char_bound: "(of_char c :: nat) < 256"
  by simp

lemma bytes_in_range_Cons:
  "bytes_in_range ((lo, hi) # ranges) buf s = (Some t, r) \<longleftrightarrow>
     (\<exists>c cs. s = c # cs \<and> lo \<le> of_char c \<and> of_char c \<le> hi \<and> bytes_in_range ranges (buf @ [c]) cs = (Some t, r))"
  by (cases s) auto

lemma digits64:
  assumes "(z::nat) < 64"
  shows "(x * 64 + z) div 64 = x" "(x * 64 + z) mod 64 = z"
  using assms by simp_all

lemma digits64_three:
  assumes "y < 64" "z < 64"
 shows "(x * 4096 + y * 64 + z) div 4096 = (x::nat)" "(x * 4096 + y * 64 + z) div 64 mod 64 = (y::nat)" "(x * 4096 + y * 64 + z) mod 64 = (z::nat)"
proof -
  have e: "x * 4096 + y * 64 + z = (x * 64 + y) * 64 + z" by simp
  have "n div 4096 = n div 64 div 64" for n :: nat by (simp flip: div_mult2_eq)
  then show "(x * 4096 + y * 64 + z) div 4096 = (x::nat)" "(x * 4096 + y * 64 + z) div 64 mod 64 = (y::nat)" "(x * 4096 + y * 64 + z) mod 64 = (z::nat)"
    using assms by (simp_all only: e digits64)
qed

lemma digits64_four:
  assumes "y < 64" "z < 64" "w < 64"
 shows "(x * 262144 + y * 4096 + z * 64 + w) div 262144 = (x::nat)" "(x * 262144 + y * 4096 + z * 64 + w) div 4096 mod 64 = y" 
  "(x * 262144 + y * 4096 + z * 64 + w) div 64 mod 64 = z" "(x * 262144 + y * 4096 + z * 64 + w) mod 64 = w"
proof -
  have e: "x * 262144 + y * 4096 + z * 64 + w = ((x * 64 + y) * 64 + z) * 64 + w" by simp
  have "n div 4096 = n div 64 div 64" "n div 262144 = n div 64 div 64 div 64" for n :: nat by (simp_all flip: div_mult2_eq)
  then show "(x * 262144 + y * 4096 + z * 64 + w) div 262144 = (x::nat)" "(x * 262144 + y * 4096 + z * 64 + w) div 4096 mod 64 = y" 
  "(x * 262144 + y * 4096 + z * 64 + w) div 64 mod 64 = z" "(x * 262144 + y * 4096 + z * 64 + w) mod 64 = w"
    using assms by (simp_all only: e digits64)
qed

lemma utf8_two: "2 \<le> x \<Longrightarrow> x < 32 \<Longrightarrow> y < 64 \<Longrightarrow> utf8 (x * 64 + y) = [char_of (192 + x), char_of (128 + y)]"
  by (simp add: utf8_def)

lemma utf8_three:
  assumes "x < 16" "y < 64" "z < 64" "x = 0 \<longrightarrow> 32 \<le> y"
  shows "utf8 (x * 4096 + y * 64 + z) = [char_of (224 + x), char_of (128 + y), char_of (128 + z)]"
proof -
  let ?n = "x * 4096 + y * 64 + z"
  have "\<not> ?n < 2048" "?n < 65536" using assms by (cases "x = 0"; linarith)+
  moreover note digits64_three [OF assms(2,3), of x]
  ultimately show ?thesis by (simp only: utf8_def if_False if_True) simp
qed

lemma utf8_four:
  assumes "x < 8" "y < 64" "z < 64" "w < 64" "x = 0 \<longrightarrow> 16 \<le> y"
  shows "utf8 (x * 262144 + y * 4096 + z * 64 + w) =
    [char_of (240 + x), char_of (128 + y), char_of (128 + z), char_of (128 + w)]"
proof -
  let ?n = "x * 262144 + y * 4096 + z * 64 + w"
  have "\<not> ?n < 65536" using assms by (cases "x = 0"; linarith)
  moreover note digits64_four [OF assms(2-4), of x]
  ultimately show ?thesis by (simp only: utf8_def if_False if_True) simp
qed

lemma byte_above:
  assumes "b \<le> (of_char c :: nat)"
  obtains x where "(of_char c :: nat) = b + x" "c = char_of (b + x)"
  using assms le_Suc_ex [of b "of_char c"] by (metis char_of_char)

lemma sequence_decodes:
  assumes "utf8_ranges (of_char c) = Some ranges" "next_byte_in_range ranges c [] cs = (Some bytes, r)"
  shows "\<exists>n. scalar_value n \<and> 0x80 \<le> n \<and> bytes = utf8 n \<and> c # cs = bytes @ r"
proof -
  let ?a = "of_char c :: nat"
  consider (two) "0xC2 \<le> ?a" "?a \<le> 0xDF" "ranges = [(0x80, 0xBF)]"
    | (three) lo hi where "0xE0 \<le> ?a" "?a \<le> 0xEF" "ranges = [(lo, hi), (0x80, 0xBF)]"
        "?a = 0xE0 \<longrightarrow> lo = 0xA0" "?a = 0xED \<longrightarrow> hi = 0x9F" "0x80 \<le> lo" "hi \<le> 0xBF"
    | (four) lo hi where "0xF0 \<le> ?a" "?a \<le> 0xF4" "ranges = [(lo, hi), (0x80, 0xBF), (0x80, 0xBF)]"
        "?a = 0xF0 \<longrightarrow> lo = 0x90" "?a = 0xF4 \<longrightarrow> hi = 0x8F" "0x80 \<le> lo" "hi \<le> 0xBF"
    using assms(1) by (auto simp: utf8_ranges_def split: if_splits)
  then show ?thesis
  proof cases
    case two
    then obtain d where d: "cs = d # r" "bytes = [c, d]" "0x80 \<le> (of_char d :: nat)" "(of_char d :: nat) \<le> 0xBF"
      using assms(2) by (auto simp: next_byte_in_range_def bytes_in_range_Cons)
    obtain x where x: "?a = 192 + x" "c = char_of (192 + x)" using byte_above [of 192 c] two by auto
    obtain y where y: "(of_char d :: nat) = 128 + y" "d = char_of (128 + y)" using byte_above d(3) by blast
    have "utf8 (x * 64 + y) = bytes" using two d x y by (subst utf8_two) auto
    moreover have "scalar_value (x * 64 + y)" "0x80 \<le> x * 64 + y" using two d x y by (auto simp: scalar_value_def)
    ultimately show ?thesis using d by (intro exI [of _ "x * 64 + y"]) auto
  next
    case (three lo hi)
    then obtain d f where d: "cs = d # f # r" "bytes = [c, d, f]" "lo \<le> of_char d" "of_char d \<le> hi"
        "0x80 \<le> (of_char f :: nat)" "(of_char f :: nat) \<le> 0xBF"
      using assms(2) by (auto simp: next_byte_in_range_def bytes_in_range_Cons)
    obtain x where x: "?a = 224 + x" "c = char_of (224 + x)" using byte_above three(1) by blast
    obtain y where y: "(of_char d :: nat) = 128 + y" "d = char_of (128 + y)" using byte_above [of 128 d] d(3) three(6) by auto
    obtain z where z: "(of_char f :: nat) = 128 + z" "f = char_of (128 + z)" using byte_above d(5) by blast
    let ?n = "x * 4096 + y * 64 + z"
    have xyz: "x < 16" "y < 64" "z < 64" "x = 0 \<longrightarrow> 32 \<le> y" "x = 13 \<longrightarrow> y < 32" using three d x y z by auto
    then have "utf8 ?n = bytes" using d x y z by (subst utf8_three) auto
    moreover have "0x80 \<le> ?n" using xyz by (cases "x = 0") simp_all
    moreover have "scalar_value ?n" unfolding scalar_value_def using xyz by (cases "x < 13"; cases "x = 13") simp_all
    ultimately show ?thesis using d by (intro exI [of _ ?n]) auto
  next
    case (four lo hi)
    then obtain d f g where d: "cs = d # f # g # r" "bytes = [c, d, f, g]" "lo \<le> of_char d" "of_char d \<le> hi"
        "0x80 \<le> (of_char f :: nat)" "(of_char f :: nat) \<le> 0xBF" "0x80 \<le> (of_char g :: nat)" "(of_char g :: nat) \<le> 0xBF"
      using assms(2) by (auto simp: next_byte_in_range_def bytes_in_range_Cons)
    obtain x where x: "?a = 240 + x" "c = char_of (240 + x)" using byte_above four(1) by blast
    obtain y where y: "(of_char d :: nat) = 128 + y" "d = char_of (128 + y)" using byte_above [of 128 d] d(3) four(6) by auto
    obtain z where z: "(of_char f :: nat) = 128 + z" "f = char_of (128 + z)" using byte_above d(5) by blast
    obtain w where w: "(of_char g :: nat) = 128 + w" "g = char_of (128 + w)" using byte_above d(7) by blast
    let ?n = "x * 262144 + y * 4096 + z * 64 + w"
    have xyz: "x < 8" "y < 64" "z < 64" "w < 64" "x = 0 \<longrightarrow> 16 \<le> y" "x \<le> 4" "x = 4 \<longrightarrow> y < 16"
      using four d x y z w by auto
    then have "utf8 ?n = bytes" using d x y z w by (subst utf8_four) auto
    moreover have "0x10000 \<le> ?n" "?n \<le> 0x10FFFF" using xyz by (cases "x = 0"; cases "x = 4"; simp)+
    ultimately show ?thesis using d by (intro exI [of _ ?n]) (auto simp: scalar_value_def)
  qed
qed

lemma split64:
  "(n :: nat) = n div 4096 * 4096 + n div 64 mod 64 * 64 + n mod 64"
  "n = n div 262144 * 262144 + n div 4096 mod 64 * 4096 + n div 64 mod 64 * 64 + n mod 64"
proof -
  have d: "n div 4096 = n div 64 div 64" "n div 262144 = n div 64 div 64 div 64" by (simp_all flip: div_mult2_eq)
  have "n = n div 64 * 64 + n mod 64" "n div 64 = n div 4096 * 64 + n div 64 mod 64"
    "n div 4096 = n div 262144 * 64 + n div 4096 mod 64"
    unfolding d by (simp_all only: div_mult_mod_eq)
  then show "n = n div 4096 * 4096 + n div 64 mod 64 * 64 + n mod 64"
    "n = n div 262144 * 262144 + n div 4096 mod 64 * 4096 + n div 64 mod 64 * 64 + n mod 64"
    by linarith+
qed

lemma of_char_small: "k < 256 \<Longrightarrow> of_char (char_of (k :: nat)) = k"
  by simp

lemma sequence_encodes:
  assumes "scalar_value n" "0x80 \<le> n"
  obtains c cs ranges where "utf8 n = c # cs" "0x80 \<le> (of_char c :: nat)" "utf8_ranges (of_char c) = Some ranges"
    "next_byte_in_range ranges c [] (cs @ r) = (Some (utf8 n), r)"
proof -
  consider "n < 0x800" | "0x800 \<le> n" "n < 0x10000" | "0x10000 \<le> n" by linarith
  then show thesis
  proof cases
    case 1
    define x y where "x = n div 64" and "y = n mod 64"
    then have n: "n = x * 64 + y" and y: "y < 64" by simp_all
    with 1 assms(2) have x: "2 \<le> x" "x < 32" by simp_all
    have "utf8_ranges (192 + x) = Some [(0x80, 0xBF)]" using x by (simp add: utf8_ranges_def)
    then show thesis
      by (intro that [of "char_of (192 + x)" "[char_of (128 + y)]" "[(0x80, 0xBF)]"])
        (use x y in \<open>simp_all add: n utf8_two next_byte_in_range_def\<close>)
  next
    case 2
    define x y z where "x = n div 4096" and "y = n div 64 mod 64" and "z = n mod 64"
    then have n: "n = x * 4096 + y * 64 + z" and yz: "y < 64" "z < 64"
      using split64 (1) [of n] by simp_all
    from n yz 2 assms(1) have x: "x < 16" "x = 0 \<longrightarrow> 32 \<le> y" "x = 13 \<longrightarrow> y < 32"
      by (auto simp: scalar_value_def)
    let ?ranges = "[(if x = 0 then 0xA0 else 0x80, if x = 13 then 0x9F else 0xBF), (0x80, 0xBF)]"
    have "utf8_ranges (224 + x) = Some ?ranges" using x by (auto simp: utf8_ranges_def)
    then show thesis
      by (intro that [of "char_of (224 + x)" "[char_of (128 + y), char_of (128 + z)]" ?ranges])
        (use x yz in \<open>auto simp: n utf8_three next_byte_in_range_def\<close>)
  next
    case 3
    define x y z w where "x = n div 262144" and "y = n div 4096 mod 64" and "z = n div 64 mod 64" and "w = n mod 64"
    then have n: "n = x * 262144 + y * 4096 + z * 64 + w" and yzw: "y < 64" "z < 64" "w < 64"
      using split64 (2) [of n] by simp_all
    from n yzw 3 assms(1) have x: "x < 5" "x = 0 \<longrightarrow> 16 \<le> y" "x = 4 \<longrightarrow> y < 16"
      by (auto simp: scalar_value_def)
    let ?ranges = "[(if x = 0 then 0x90 else 0x80, if x = 4 then 0x8F else 0xBF), (0x80, 0xBF), (0x80, 0xBF)]"
    have "utf8_ranges (240 + x) = Some ?ranges" using x by (auto simp: utf8_ranges_def)
    then show thesis
      by (intro that [of "char_of (240 + x)" "[char_of (128 + y), char_of (128 + z), char_of (128 + w)]" ?ranges])
        (use x yzw in \<open>auto simp: n utf8_four next_byte_in_range_def\<close>)
  qed
qed

section \<open>Hex escapes\<close>

text \<open>The number four hex digits stand for.\<close>

definition hex4 :: "string \<Rightarrow> nat option" where
  "hex4 h = (if length h = 4 \<and> (\<forall>c \<in> set h. hex_value c \<noteq> None)
             then Some (foldl (\<lambda>n c. 16 * n + the (hex_value c)) 0 h) else None)"

lemma length4: "length h = 4 \<longleftrightarrow> (\<exists>a b c d. h = [a, b, c, d])"
  by (auto simp: numeral_eq_Suc length_Suc_conv)

lemma codepoint_from_Cons:
  "codepoint_from (k # ks) n s = (Some v, r) \<longleftrightarrow>
     (\<exists>c cs x. s = c # cs \<and> hex_value c = Some x \<and> codepoint_from ks (n + push_bit k x) cs = (Some v, r))"
  by (cases s) (auto split: option.splits)

lemma get_codepoint_iff: "get_codepoint s = (Some n, r) \<longleftrightarrow> (\<exists>h. hex4 h = Some n \<and> s = h @ r)"
proof
  assume "get_codepoint s = (Some n, r)"
  then obtain a b c d w x y z where "s = a # b # c # d # r" "hex_value a = Some w" "hex_value b = Some x"
      "hex_value c = Some y" "hex_value d = Some z"
      "n = 0 + push_bit 12 w + push_bit 8 x + push_bit 4 y + push_bit 0 z"
    unfolding get_codepoint_def codepoint_from_Cons by auto
  then show "\<exists>h. hex4 h = Some n \<and> s = h @ r"
    by (intro exI [of _ "[a, b, c, d]"]) (simp add: hex4_def push_bit_eq_mult)
next
  assume "\<exists>h. hex4 h = Some n \<and> s = h @ r"
  then obtain a b c d where h: "hex4 [a, b, c, d] = Some n" "s = [a, b, c, d] @ r"
    by (auto simp: hex4_def length4 split: if_splits)
  then obtain w x y z where "hex_value a = Some w" "hex_value b = Some x" "hex_value c = Some y" "hex_value d = Some z"
    by (auto simp: hex4_def split: if_splits)
  with h show "get_codepoint s = (Some n, r)" by (simp add: get_codepoint_def hex4_def push_bit_eq_mult)
qed

lemma hex_value_less: "hex_value c = Some x \<Longrightarrow> x < 16"
  by (auto simp: hex_value_def Let_def split: if_splits)

lemma hex4_less: "hex4 h = Some n \<Longrightarrow> n < 0x10000"
proof -
  assume n: "hex4 h = Some n"
  then obtain a b c d where "h = [a, b, c, d]" by (auto simp: hex4_def length4 split: if_splits)
  with n obtain w x y z where v: "hex_value a = Some w" "hex_value b = Some x" "hex_value c = Some y" "hex_value d = Some z"
      "n = 16 * (16 * (16 * w + x) + y) + z"
    by (auto simp: hex4_def split: if_splits)
  from v(1-4) [THEN hex_value_less] v(5) show ?thesis by simp
qed

section \<open>Characters\<close>

datatype jchar = Raw nat | Short char | Hex string | Pair string string

fun jchar_ok :: "jchar \<Rightarrow> bool" where
  "jchar_ok (Raw n) = (scalar_value n \<and> 0x20 \<le> n \<and> n \<noteq> 0x22 \<and> n \<noteq> 0x5C)"
| "jchar_ok (Short e) = (simple_escape e \<noteq> None)"
| "jchar_ok (Hex h) = (\<exists>n. hex4 h = Some n \<and> scalar_value n)"
| "jchar_ok (Pair h k) = (\<exists>n m. hex4 h = Some n \<and> hex4 k = Some m \<and> 0xD800 \<le> n \<and> n < 0xDC00 \<and> 0xDC00 \<le> m \<and> m < 0xE000)"

fun jchar_text :: "jchar \<Rightarrow> string" where
  "jchar_text (Raw n) = utf8 n"
| "jchar_text (Short e) = [bslash, e]"
| "jchar_text (Hex h) = bslash # CHR ''u'' # h"
| "jchar_text (Pair h k) = bslash # CHR ''u'' # h @ bslash # CHR ''u'' # k"

text \<open>The code point it stands for.\<close>

fun jchar_value :: "jchar \<Rightarrow> nat" where
  "jchar_value (Raw n) = n"
| "jchar_value (Short e) = of_char (the (simple_escape e))"
| "jchar_value (Hex h) = the (hex4 h)"
| "jchar_value (Pair h k) = 0x10000 + (the (hex4 h) - 0xD800) * 0x400 + (the (hex4 k) - 0xDC00)"

lemma surrogate_pair:
  assumes "0xD800 \<le> n" "0xDC00 \<le> m"
  shows "push_bit 10 n + m - 0x35FDC00 = 0x10000 + (n - 0xD800) * 0x400 + (m - (0xDC00 :: nat))"
proof -
  obtain a b where "n = 0xD800 + a" "m = 0xDC00 + b" using assms le_Suc_ex by metis
  then show ?thesis by (simp add: push_bit_eq_mult)
qed

definition paired :: "string \<Rightarrow> string \<Rightarrow> nat \<Rightarrow> bool" where
  "paired h k n \<longleftrightarrow>
     (\<exists>n1 n2. hex4 h = Some n1 \<and> hex4 k = Some n2 \<and> 0xD800 \<le> n1 \<and> n1 < 0xDC00 \<and> 0xDC00 \<le> n2 \<and> n2 < 0xE000
        \<and> n = 0x10000 + (n1 - 0xD800) * 0x400 + (n2 - 0xDC00))"

lemma paired_ok: "jchar_ok (Pair h k) \<longleftrightarrow> paired h k (jchar_value (Pair h k))"
  by (auto simp: paired_def)

lemma unicode_escape_iff:
  "unicode_escape s = (Some n, r) \<longleftrightarrow>
     (\<exists>h. hex4 h = Some n \<and> scalar_value n \<and> s = h @ r)
     \<or> (\<exists>h k. paired h k n \<and> s = h @ bslash # CHR ''u'' # k @ r)"
  (is "_ \<longleftrightarrow> ?hex \<or> ?pair")
proof
  assume u: "unicode_escape s = (Some n, r)"
  then obtain n1 r1 where g: "get_codepoint s = (Some n1, r1)"
    by (auto simp: unicode_escape_def split: prod.splits option.splits)
  then obtain h where h: "hex4 h = Some n1" "s = h @ r1" by (auto simp: get_codepoint_iff)
  show "?hex \<or> ?pair"
  proof (cases "0xD800 \<le> n1 \<and> n1 \<le> 0xDBFF")
    case True
    with u g obtain r2 n2 where r1: "r1 = bslash # CHR ''u'' # r2" and g2: "get_codepoint r2 = (Some n2, r)"
      and n2: "0xDC00 \<le> n2" "n2 \<le> 0xDFFF" "n = push_bit 10 n1 + n2 - 0x35FDC00"
      by (auto simp: unicode_escape_def split: prod.splits option.splits if_splits list.splits)
    obtain k where k: "hex4 k = Some n2" "r2 = k @ r" using g2 by (auto simp: get_codepoint_iff)
    have "n = 0x10000 + (n1 - 0xD800) * 0x400 + (n2 - 0xDC00)"
      using True n2 surrogate_pair by simp
    then have "paired h k n" using True n2 h k unfolding paired_def by (intro exI [of _ n1] exI [of _ n2]) simp
    then show ?thesis using h k r1 by blast
  next
    case False
    with u g have "scalar_value n1" "n = n1" "r = r1"
      using hex4_less [OF h(1)] by (auto simp: unicode_escape_def scalar_value_def split: if_splits)
    then show ?thesis using h by blast
  qed
next
  assume "?hex \<or> ?pair"
  then show "unicode_escape s = (Some n, r)"
  proof
    assume ?hex
    then obtain h where h: "hex4 h = Some n" "scalar_value n" "s = h @ r" by auto
    then have "get_codepoint s = (Some n, r)" by (auto simp: get_codepoint_iff)
    with h(2) show ?thesis by (auto simp: unicode_escape_def scalar_value_def)
  next
    assume ?pair
    then obtain h k n1 n2 where hk: "hex4 h = Some n1" "hex4 k = Some n2" "0xD800 \<le> n1" "n1 < 0xDC00" "0xDC00 \<le> n2" "n2 < 0xE000"
      "s = h @ bslash # CHR ''u'' # k @ r" "n = 0x10000 + (n1 - 0xD800) * 0x400 + (n2 - 0xDC00)"
      unfolding paired_def by blast
    then have g: "get_codepoint s = (Some n1, bslash # CHR ''u'' # k @ r)" "get_codepoint (k @ r) = (Some n2, r)"
      by (auto simp: get_codepoint_iff)
    have "n = push_bit 10 n1 + n2 - 0x35FDC00" using hk surrogate_pair by simp
    with g hk show ?thesis by (simp add: unicode_escape_def)
  qed
qed

lemma short_value: "simple_escape e = Some x \<Longrightarrow> utf8 (of_char x) = [x] \<and> scalar_value (of_char x)"
  by (auto simp: simple_escape_def utf8_def scalar_value_def split: if_splits)

lemma jchar_scalar: "jchar_ok j \<Longrightarrow> scalar_value (jchar_value j)"
proof (cases j)
  case (Pair h k)
  assume "jchar_ok j"
  then obtain n m where "hex4 h = Some n" "hex4 k = Some m" "0xD800 \<le> n" "n < 0xDC00" "0xDC00 \<le> m" "m < 0xE000"
    using Pair by auto
  then show ?thesis using Pair by (simp add: scalar_value_def)
qed (auto dest: short_value)

lemma scalar_bound: "scalar_value n \<Longrightarrow> n \<le> 0x10FFFF"
  by (auto simp: scalar_value_def)

text \<open>One turn of the loop takes one character.\<close>

lemma string_turn_added:
  assumes "jchar_ok j" "c # cs = jchar_text j @ r"
  shows "string_turn c cs = Added (utf8 (jchar_value j)) r"
proof (cases j)
  case (Raw n)
  show ?thesis
  proof (cases "n < 0x80")
    case True
    with assms Raw have "c = char_of n" "cs = r" by (simp_all add: utf8_def)
    moreover have "(of_char (char_of n :: char) :: nat) = n" using True by simp
    moreover have "char_of n \<noteq> quot" "char_of n \<noteq> bslash" using assms(1) Raw True calculation(3) by force+
    ultimately show ?thesis using assms(1) Raw True by (simp add: string_turn_def utf8_def)
  next
    case False
    with assms(1) Raw obtain d ds ranges where d: "utf8 n = d # ds" "0x80 \<le> (of_char d :: nat)"
      "utf8_ranges (of_char d) = Some ranges" "next_byte_in_range ranges d [] (ds @ r) = (Some (utf8 n), r)"
      using sequence_encodes [of n r] by auto
    then have "c = d" "cs = ds @ r" "c \<noteq> quot" "c \<noteq> bslash" using assms(2) Raw by auto
    with d Raw show ?thesis by (simp add: string_turn_def)
  qed
next
  case (Short e)
  then show ?thesis using assms short_value [of e] by (auto simp: string_turn_def)
next
  case (Hex h)
  then have "unicode_escape (h @ r) = (Some (jchar_value j), r)"
    using assms(1) unfolding unicode_escape_iff by auto
  then show ?thesis using assms Hex jchar_scalar [OF assms(1)]
    by (simp add: string_turn_def simple_escape_def codepoint_bytes_utf8 scalar_bound)
next
  case (Pair h k)
  then have "unicode_escape (h @ bslash # CHR ''u'' # k @ r) = (Some (jchar_value j), r)"
    using assms(1) unfolding unicode_escape_iff Pair paired_ok by blast
  then show ?thesis using assms Pair jchar_scalar [OF assms(1)]
    by (simp add: string_turn_def simple_escape_def codepoint_bytes_utf8 scalar_bound)
qed

lemma unicode_escape_takes:
  assumes "unicode_escape es = (Some n, r)"
  shows "\<exists>j. jchar_ok j \<and> bslash # CHR ''u'' # es = jchar_text j @ r \<and> n = jchar_value j"
  using assms [unfolded unicode_escape_iff]
proof (elim disjE exE conjE)
  fix h assume h: "hex4 h = Some n" "scalar_value n" "es = h @ r"
  show ?thesis by (rule exI [of _ "Hex h"]) (simp add: h)
next
  fix h k assume h: "paired h k n" "es = h @ bslash # CHR ''u'' # k @ r"
  then have n: "n = jchar_value (Pair h k)" by (auto simp: paired_def)
  have "jchar_ok (Pair h k)" unfolding paired_ok using h(1) n by simp
  then show ?thesis using h(2) n by (intro exI [of _ "Pair h k"]) simp
qed

lemma plain_char:
  assumes "c \<noteq> quot" "c \<noteq> bslash" "0x20 \<le> (of_char c :: nat)" "(of_char c :: nat) < 0x80"
  shows "jchar_ok (Raw (of_char c)) \<and> utf8 (of_char c) = [c]"
proof -
  have "of_char c \<noteq> (of_char quot :: nat)" "of_char c \<noteq> (of_char bslash :: nat)"
    using assms(1,2) by (simp_all only: of_char_eq_iff) simp_all
  then show ?thesis using assms by (simp add: scalar_value_def utf8_def)
qed

lemma string_turn_takes:
  assumes "string_turn c cs = Added bytes r"
  shows "\<exists>j. jchar_ok j \<and> c # cs = jchar_text j @ r \<and> bytes = utf8 (jchar_value j)"
proof (cases "c = bslash")
  case True
  then obtain e es where cs: "cs = e # es" using assms by (cases cs) (auto simp: string_turn_def)
  show ?thesis
  proof (cases "simple_escape e")
    case (Some x)
    then show ?thesis using assms True cs short_value [of e x]
      by (intro exI [of _ "Short e"]) (simp add: string_turn_def)
  next
    case None
    with assms True cs obtain n where u: "e = CHR ''u''" "unicode_escape es = (Some n, r)" "bytes = codepoint_bytes n"
      by (auto simp: string_turn_def split: if_splits prod.splits option.splits)
    from unicode_escape_takes [OF u(2)] obtain j
      where j: "jchar_ok j" "bslash # CHR ''u'' # es = jchar_text j @ r" "n = jchar_value j" by blast
    have "bytes = utf8 (jchar_value j)"
      using u(3) j(3) codepoint_bytes_utf8 [OF scalar_bound [OF jchar_scalar [OF j(1)]]] by simp
    with j(1,2) show ?thesis unfolding True cs u(1) by blast
  qed
next
  case False
  then have c: "c \<noteq> quot" "c \<noteq> bslash" using assms by (auto simp: string_turn_def)
  show ?thesis
  proof (cases "(of_char c :: nat) < 0x80")
    case True
    moreover have "0x20 \<le> (of_char c :: nat)" "bytes = [c]" "r = cs"
      using assms c True by (auto simp: string_turn_def split: if_splits)
    ultimately show ?thesis using plain_char [OF c] by (intro exI [of _ "Raw (of_char c)"]) simp
  next
    case False
    with assms c obtain ranges where "utf8_ranges (of_char c) = Some ranges" "next_byte_in_range ranges c [] cs = (Some bytes, r)"
      by (auto simp: string_turn_def split: if_splits prod.splits option.splits)
    from sequence_decodes [OF this] obtain n where n: "scalar_value n" "0x80 \<le> n" "bytes = utf8 n" "c # cs = bytes @ r" by blast
    then show ?thesis by (intro exI [of _ "Raw n"]) simp
  qed
qed

lemma string_turn_closed: "string_turn c cs = Closed r \<longleftrightarrow> c = quot \<and> r = cs"
  by (auto simp: string_turn_def split: list.splits option.splits prod.splits)

section \<open>String tokens\<close>

definition string_text :: "jchar list \<Rightarrow> string" where
  "string_text js = concat (map jchar_text js)"

definition string_value :: "jchar list \<Rightarrow> string" where
  "string_value js = concat (map (\<lambda>j. utf8 (jchar_value j)) js)"

lemma string_text_simps [simp]:
  "string_text [] = []"
  "string_text (j # js) = jchar_text j @ string_text js"
  "string_text (js @ ks) = string_text js @ string_text ks"
  by (simp_all add: string_text_def)

lemma string_value_simps [simp]:
  "string_value [] = []"
  "string_value (j # js) = utf8 (jchar_value j) @ string_value js"
  "string_value (js @ ks) = string_value js @ string_value ks"
  by (simp_all add: string_value_def)

lemma jchar_text_Cons: "jchar_ok j \<Longrightarrow> \<exists>c cs. jchar_text j = c # cs"
  by (cases j) (auto simp flip: neq_Nil_conv)

lemma scan_string_from_text:
  "list_all jchar_ok js \<Longrightarrow> scan_string_from buf (string_text js @ quot # r) = (Some (buf @ string_value js), r)"
proof (induction js arbitrary: buf)
  case Nil
  then show ?case by (simp add: string_turn_def)
next
  case (Cons j js)
  then obtain c cs where j: "jchar_text j = c # cs" using jchar_text_Cons [of j] by auto
  then have "string_turn c (cs @ string_text js @ quot # r) = Added (utf8 (jchar_value j)) (string_text js @ quot # r)"
    using Cons.prems by (intro string_turn_added) simp_all
  then show ?case using j Cons by simp
qed

lemma scan_string_from_takes:
  "scan_string_from buf s = (Some t, r) \<Longrightarrow>
     \<exists>js. list_all jchar_ok js \<and> s = string_text js @ quot # r \<and> t = buf @ string_value js"
proof (induction buf s rule: scan_string_from.induct)
  case (2 buf c cs)
  show ?case
  proof (cases "string_turn c cs")
    case (Closed x)
    moreover from Closed have "c = quot" "x = cs" by (simp_all add: string_turn_closed)
    moreover have "t = buf" "r = x" using "2.prems" Closed by simp_all
    ultimately show ?thesis by (intro exI [of _ "[]"]) simp
  next
    case (Added bytes x)
    then obtain j where j: "jchar_ok j" "c # cs = jchar_text j @ x" "bytes = utf8 (jchar_value j)"
      using string_turn_takes by blast
    obtain js where "list_all jchar_ok js" "x = string_text js @ quot # r" "t = (buf @ bytes) @ string_value js"
      using "2.IH" [OF Added] "2.prems" Added by auto
    with j show ?thesis by (intro exI [of _ "j # js"]) simp
  qed (use "2.prems" in simp)
qed simp

lemma string_value_utf8: "list_all jchar_ok js \<Longrightarrow> utf8_text (string_value js)"
  unfolding utf8_text_def string_value_def
  by (rule exI [of _ "map jchar_value js"]) (auto simp: list_all_iff jchar_scalar o_def)

end
