(* ===== verification/Json_Numbers.thy ===== *)
theory Json_Numbers
  imports Json_Strings
begin

text \<open>
  The numbers of JSON text, stated apart from the state machine that scans them: a sign, a whole
  part without leading zeros, an optional fraction and an optional exponent. The machine takes
  the longest such text in front of it and fails when there is none.
\<close>

section \<open>The grammar\<close>

definition digits :: "string \<Rightarrow> bool" where
  "digits ds \<longleftrightarrow> ds \<noteq> [] \<and> list_all IsDigit ds"

definition whole_part :: "string \<Rightarrow> bool" where
  "whole_part w \<longleftrightarrow> digits w \<and> (w = ''0'' \<or> hd w \<noteq> CHR ''0'')"

definition fraction_part :: "string \<Rightarrow> bool" where
  "fraction_part f \<longleftrightarrow> f = [] \<or> (\<exists>ds. f = CHR ''.'' # ds \<and> digits ds)"

definition exponent_part :: "string \<Rightarrow> bool" where
  "exponent_part e \<longleftrightarrow> e = [] \<or> (\<exists>m sg ds. e = m # sg @ ds \<and> m \<in> {CHR ''e'', CHR ''E''} \<and> sg \<in> {[], ''+'', ''-''} \<and> digits ds)"

text \<open>No longer number goes on in the rest of the text.\<close>

definition number_ends :: "string \<Rightarrow> string \<Rightarrow> string \<Rightarrow> string \<Rightarrow> bool" where
  "number_ends w f e r \<longleftrightarrow>
     r = [] \<or>
     (if e \<noteq> [] then \<not> IsDigit (hd r)
      else if f \<noteq> [] then \<not> IsDigit (hd r) \<and> hd r \<noteq> CHR ''e'' \<and> hd r \<noteq> CHR ''E''
      else hd r \<noteq> CHR ''.'' \<and> hd r \<noteq> CHR ''e'' \<and> hd r \<noteq> CHR ''E'' \<and> (w = ''0'' \<or> \<not> IsDigit (hd r)))"

section \<open>The machine runs over a number\<close>

lemma not_IsDigit [simp]:
  "\<not> IsDigit (CHR ''.'')" "\<not> IsDigit (CHR ''e'')" "\<not> IsDigit (CHR ''E'')" "\<not> IsDigit (CHR ''+'')" "\<not> IsDigit (CHR ''-'')"
  by (simp_all add: IsDigit_def)

lemma IsDigit_0 [simp]: "IsDigit (CHR ''0'')"
  by (simp add: IsDigit_def)

lemma digits_Cons: "digits (d # ds) \<longleftrightarrow> IsDigit d \<and> list_all IsDigit ds"
  by (simp add: digits_def)

lemma not_digits_Nil [simp]: "\<not> digits []"
  by (simp add: digits_def)

lemma run_AfterAny2:
  "list_all IsDigit ds \<Longrightarrow> r = [] \<or> \<not> IsDigit (hd r) \<Longrightarrow>
     scan_number_from AfterAny2 ty buf (ds @ r) = (Some (ty, buf @ ds), r)"
  by (induction ds arbitrary: buf) (cases r, auto)

lemma run_AfterSign:
  "digits ds \<Longrightarrow> r = [] \<or> \<not> IsDigit (hd r) \<Longrightarrow>
     scan_number_from AfterSign ty buf (ds @ r) = (Some (ty, buf @ ds), r)"
  by (cases ds) (simp_all add: digits_Cons run_AfterAny2)

lemma run_AfterExponent:
  assumes "digits ds" "sg \<in> {[], ''+'', ''-''}" "r = [] \<or> \<not> IsDigit (hd r)"
  shows "scan_number_from AfterExponent ty buf (sg @ ds @ r) = (Some (Float, buf @ sg @ ds), r)"
proof (cases "sg = []")
  case True
  from assms(1) obtain c cs where c: "ds = c # cs" "IsDigit c" "list_all IsDigit cs"
    by (cases ds) (auto simp: digits_Cons)
  then have "c \<noteq> CHR ''+''" "c \<noteq> CHR ''-''" using not_IsDigit by metis+
  with c True assms(3) show ?thesis by (simp add: run_AfterAny2)
next
  case False
  then show ?thesis using assms(2) run_AfterSign [OF assms(1,3)] by auto
qed

lemma run_exponent:
  assumes "exponent_part e" "e \<noteq> []" "r = [] \<or> \<not> IsDigit (hd r)" "st \<in> {AfterZero, AfterAny1, AfterDecimal2}"
  shows "scan_number_from st ty buf (e @ r) = (Some (Float, buf @ e), r)"
proof -
  obtain m sg ds where e: "e = m # sg @ ds" "m \<in> {CHR ''e'', CHR ''E''}" "sg \<in> {[], ''+'', ''-''}" "digits ds"
    using assms(1,2) unfolding exponent_part_def by blast
  have "scan_number_from st ty buf (m # sg @ ds @ r) = scan_number_from AfterExponent ty (buf @ [m]) (sg @ ds @ r)"
    using e(2) assms(4) by auto
  then show ?thesis using run_AfterExponent [OF e(4,3) assms(3)] e(1) by simp
qed

text \<open>Behind the digits of the whole part or of the fraction.\<close>

lemma run_AfterDecimal2:
  assumes "list_all IsDigit ds" "exponent_part e" "number_ends w (CHR ''.'' # ds') e r"
  shows "scan_number_from AfterDecimal2 ty buf (ds @ e @ r) = (Some (if e = [] then ty else Float, buf @ ds @ e), r)"
  using assms(1)
proof (induction ds arbitrary: buf)
  case Nil
  show ?case
  proof (cases "e = []")
    case True
    with assms(3) show ?thesis by (cases r) (auto simp: number_ends_def)
  next
    case False
    then show ?thesis using assms(2,3) by (simp add: number_ends_def run_exponent)
  qed
qed simp

lemma run_AfterDecimal1:
  assumes "digits ds" "exponent_part e" "number_ends w (CHR ''.'' # ds) e r"
  shows "scan_number_from AfterDecimal1 ty buf (ds @ e @ r) = (Some (Float, buf @ ds @ e), r)"
proof -
  obtain c cs where c: "ds = c # cs" "IsDigit c" "list_all IsDigit cs"
    using assms(1) by (cases ds) (auto simp: digits_Cons)
  then show ?thesis using run_AfterDecimal2 [OF c(3) assms(2,3)] by simp
qed

text \<open>The type the machine ends with.\<close>

definition number_type_of :: "number_type \<Rightarrow> string \<Rightarrow> string \<Rightarrow> number_type" where
  "number_type_of ty f e = (if f = [] \<and> e = [] then ty else Float)"

lemma run_after_whole:
  assumes "fraction_part f" "exponent_part e" "number_ends w f e r" "st = (if w = ''0'' then AfterZero else AfterAny1)"
  shows "scan_number_from st ty buf (f @ e @ r) = (Some (number_type_of ty f e, buf @ f @ e), r)"
proof (cases "f = []")
  case False
  then obtain ds where f: "f = CHR ''.'' # ds" "digits ds" using assms(1) by (auto simp: fraction_part_def)
  have "scan_number_from st ty buf (f @ e @ r) = scan_number_from AfterDecimal1 ty (buf @ ''.'') (ds @ e @ r)"
    using assms(4) f(1) by simp
  then show ?thesis using run_AfterDecimal1 [OF f(2) assms(2)] assms(3) f(1) by (simp add: number_type_of_def)
next
  case f: True
  show ?thesis
  proof (cases "e = []")
    case True
    with assms(3,4) f show ?thesis by (cases r) (auto simp: number_ends_def number_type_of_def)
  next
    case False
    then show ?thesis using assms f by (simp add: number_ends_def number_type_of_def run_exponent)
  qed
qed

lemma run_AfterAny1_digits:
  "list_all IsDigit ds \<Longrightarrow> scan_number_from AfterAny1 ty buf (ds @ r) = scan_number_from AfterAny1 ty (buf @ ds) r"
  by (induction ds arbitrary: buf) simp_all

text \<open>A whole part and what follows, from behind its first digit.\<close>

definition whole_state :: "char \<Rightarrow> number_state" where
  "whole_state c = (if c = CHR ''0'' then AfterZero else AfterAny1)"

lemma run_whole:
  assumes "whole_part (c # ds)" "fraction_part f" "exponent_part e" "number_ends (c # ds) f e r"
  shows "scan_number_from (whole_state c) ty buf (ds @ f @ e @ r) = (Some (number_type_of ty f e, buf @ ds @ f @ e), r)"
proof (cases "c = CHR ''0''")
  case True
  then have "ds = []" using assms(1) by (simp add: whole_part_def)
  then show ?thesis using run_after_whole [OF assms(2-4)] True by (simp add: whole_state_def)
next
  case False
  moreover have "list_all IsDigit ds" using assms(1) by (simp add: whole_part_def digits_Cons)
  ultimately show ?thesis using run_after_whole [OF assms(2-4)] by (simp add: whole_state_def run_AfterAny1_digits)
qed

section \<open>What the machine accepts is a number\<close>

lemma takes_AfterAny2:
  "scan_number_from AfterAny2 ty buf s = (Some (ty', b), r) \<Longrightarrow>
     ty' = ty \<and> (r = [] \<or> \<not> IsDigit (hd r)) \<and> (\<exists>ds. list_all IsDigit ds \<and> s = ds @ r \<and> b = buf @ ds)"
proof (induction s arbitrary: buf)
  case (Cons c cs)
  show ?case
  proof (cases "IsDigit c")
    case True
    with Cons.prems have "scan_number_from AfterAny2 ty (buf @ [c]) cs = (Some (ty', b), r)" by simp
    from Cons.IH [OF this] obtain ds where "ty' = ty" "r = [] \<or> \<not> IsDigit (hd r)"
      "list_all IsDigit (c # ds)" "c # cs = (c # ds) @ r" "b = buf @ c # ds" using True by auto
    then show ?thesis by blast
  qed (use Cons.prems in auto)
qed simp

lemma takes_first_digit:
  assumes "scan_number_from AfterAny2 ty (buf @ [c]) cs = (Some (ty', b), r)" "IsDigit c"
  shows "ty' = ty \<and> (r = [] \<or> \<not> IsDigit (hd r)) \<and> (\<exists>ds. digits ds \<and> c # cs = ds @ r \<and> b = buf @ ds)"
proof -
  obtain ds where "ty' = ty" "r = [] \<or> \<not> IsDigit (hd r)" "list_all IsDigit ds" "cs = ds @ r" "b = buf @ c # ds"
    using takes_AfterAny2 [OF assms(1)] by auto
  with assms(2) show ?thesis by (intro conjI exI [of _ "c # ds"]) (simp_all add: digits_Cons)
qed

lemma takes_AfterSign:
  assumes "scan_number_from AfterSign ty buf s = (Some (ty', b), r)"
  shows "ty' = ty \<and> (r = [] \<or> \<not> IsDigit (hd r)) \<and> (\<exists>ds. digits ds \<and> s = ds @ r \<and> b = buf @ ds)"
proof (cases s)
  case (Cons c cs)
  with assms have "IsDigit c" "scan_number_from AfterAny2 ty (buf @ [c]) cs = (Some (ty', b), r)"
    by (auto split: if_splits)
  then show ?thesis using takes_first_digit Cons by blast
qed (use assms in simp)

lemma takes_exponent:
  assumes "scan_number_from AfterExponent ty (buf @ [m]) s = (Some (ty', b), r)" "m \<in> {CHR ''e'', CHR ''E''}"
  shows "ty' = Float \<and> (r = [] \<or> \<not> IsDigit (hd r)) \<and> (\<exists>e. exponent_part e \<and> e \<noteq> [] \<and> m # s = e @ r \<and> b = buf @ e)"
proof -
  obtain c cs where s: "s = c # cs" using assms(1) by (cases s) simp_all
  have "\<exists>sg ds. ty' = Float \<and> (r = [] \<or> \<not> IsDigit (hd r)) \<and> sg \<in> {[], ''+'', ''-''} \<and> digits ds \<and> s = sg @ ds @ r \<and> b = buf @ m # sg @ ds"
  proof (cases "c = CHR ''+'' \<or> c = CHR ''-''")
    case True
    with assms(1) s have "scan_number_from AfterSign Float (buf @ [m, c]) cs = (Some (ty', b), r)" by simp
    from takes_AfterSign [OF this] obtain ds
      where "ty' = Float" "r = [] \<or> \<not> IsDigit (hd r)" "digits ds" "cs = ds @ r" "b = buf @ m # [c] @ ds" by auto
    then show ?thesis using True s by (intro exI [of _ "[c]"] exI [of _ ds]) auto
  next
    case False
    with assms(1) s have "IsDigit c" "scan_number_from AfterAny2 Float ((buf @ [m]) @ [c]) cs = (Some (ty', b), r)"
      by (auto split: if_splits)
    from takes_first_digit [OF this(2,1)] obtain ds
      where "ty' = Float" "r = [] \<or> \<not> IsDigit (hd r)" "digits ds" "c # cs = ds @ r" "b = buf @ m # ds" by auto
    then show ?thesis using s by (intro exI [of _ "[]"] exI [of _ ds]) simp
  qed
  then obtain sg ds where d: "ty' = Float" "r = [] \<or> \<not> IsDigit (hd r)" "sg \<in> {[], ''+'', ''-''}" "digits ds"
    "s = sg @ ds @ r" "b = buf @ m # sg @ ds" by blast
  then have "exponent_part (m # sg @ ds)" using assms(2) unfolding exponent_part_def by blast
  with d show ?thesis by (intro conjI exI [of _ "m # sg @ ds"]) simp_all
qed

lemma takes_AfterDecimal2:
  "scan_number_from AfterDecimal2 ty buf s = (Some (ty', b), r) \<Longrightarrow>
     \<exists>ds e. list_all IsDigit ds \<and> exponent_part e \<and> s = ds @ e @ r \<and> b = buf @ ds @ e \<and>
       ty' = (if e = [] then ty else Float) \<and> (\<forall>w ds'. number_ends w (CHR ''.'' # ds') e r)"
proof (induction s arbitrary: buf)
  case (Cons c cs)
  show ?case
  proof (cases "IsDigit c")
    case True
    with Cons.prems have "scan_number_from AfterDecimal2 ty (buf @ [c]) cs = (Some (ty', b), r)" by simp
    from Cons.IH [OF this] obtain ds e where "list_all IsDigit (c # ds) \<and> exponent_part e \<and> c # cs = (c # ds) @ e @ r \<and>
       b = buf @ (c # ds) @ e \<and> ty' = (if e = [] then ty else Float) \<and> (\<forall>w ds'. number_ends w (CHR ''.'' # ds') e r)"
      using True by auto
    then show ?thesis by blast
  next
    case False
    show ?thesis
    proof (cases "c \<in> {CHR ''e'', CHR ''E''}")
      case True
      with Cons.prems False have "scan_number_from AfterExponent ty (buf @ [c]) cs = (Some (ty', b), r)" by auto
      from takes_exponent [OF this True] obtain e where "ty' = Float" "r = [] \<or> \<not> IsDigit (hd r)"
        "exponent_part e" "e \<noteq> []" "c # cs = e @ r" "b = buf @ e" by blast
      then show ?thesis by (intro exI [of _ "[]"] exI [of _ e]) (simp add: number_ends_def)
    next
      case noexp: False
      with Cons.prems False have "ty' = ty" "b = buf" "r = c # cs" by auto
      with noexp False show ?thesis
        by (intro exI [of _ "[]"]) (simp add: number_ends_def exponent_part_def)
    qed
  qed
qed (auto simp: exponent_part_def number_ends_def)

lemma takes_AfterDecimal1:
  assumes "scan_number_from AfterDecimal1 ty (buf @ ''.'') s = (Some (ty', b), r)"
  shows "\<exists>f e. fraction_part f \<and> f \<noteq> [] \<and> exponent_part e \<and> CHR ''.'' # s = f @ e @ r \<and> b = buf @ f @ e \<and> ty' = Float \<and>
    (\<forall>w. number_ends w f e r)"
proof -
  obtain c cs where c: "s = c # cs" "IsDigit c" using assms by (cases s) (auto split: if_splits)
  with assms have "scan_number_from AfterDecimal2 Float (buf @ [CHR ''.'', c]) cs = (Some (ty', b), r)" by simp
  from takes_AfterDecimal2 [OF this] obtain ds e where d: "list_all IsDigit ds" "exponent_part e" "cs = ds @ e @ r"
    "b = (buf @ [CHR ''.'', c]) @ ds @ e" "ty' = Float" "\<forall>w ds'. number_ends w (CHR ''.'' # ds') e r" by auto
  have "fraction_part (CHR ''.'' # c # ds)" using c(2) d(1) by (simp add: fraction_part_def digits_Cons)
  with c(1) d show ?thesis by (intro exI [of _ "CHR ''.'' # c # ds"] exI [of _ e]) simp
qed

text \<open>Behind the whole part, before a character that does not belong to it.\<close>

lemma takes_after_whole:
  assumes "scan_number_from st ty buf s = (Some (ty', b), r)" "st = (if w = ''0'' then AfterZero else AfterAny1)"
    "w = ''0'' \<or> s = [] \<or> \<not> IsDigit (hd s)"
  shows "\<exists>f e. fraction_part f \<and> exponent_part e \<and> s = f @ e @ r \<and> b = buf @ f @ e \<and> ty' = number_type_of ty f e \<and> number_ends w f e r"
proof (cases s)
  case Nil
  with assms(1,2) show ?thesis
    by (intro exI [of _ "[]"]) (auto simp: fraction_part_def exponent_part_def number_ends_def number_type_of_def split: if_splits)
next
  case (Cons c cs)
  consider (point) "c = CHR ''.''" | (exp) "c \<in> {CHR ''e'', CHR ''E''}" | (other) "c \<noteq> CHR ''.''" "c \<noteq> CHR ''e''" "c \<noteq> CHR ''E''" by auto
  then show ?thesis
  proof cases
    case point
    with assms Cons have "scan_number_from AfterDecimal1 ty (buf @ ''.'') cs = (Some (ty', b), r)" by (auto split: if_splits)
    from takes_AfterDecimal1 [OF this] point Cons show ?thesis by (auto simp: number_type_of_def)
  next
    case exp
    with assms Cons have "scan_number_from AfterExponent ty (buf @ [c]) cs = (Some (ty', b), r)" by (auto split: if_splits)
    from takes_exponent [OF this exp] obtain e where "ty' = Float" "r = [] \<or> \<not> IsDigit (hd r)"
      "exponent_part e" "e \<noteq> []" "c # cs = e @ r" "b = buf @ e" by blast
    then show ?thesis using Cons
      by (intro exI [of _ "[]"] exI [of _ e]) (simp add: number_ends_def number_type_of_def fraction_part_def)
  next
    case other
    with assms Cons have "ty' = ty" "b = buf" "r = c # cs" by (auto split: if_splits)
    with other assms(3) Cons show ?thesis
      by (intro exI [of _ "[]"]) (auto simp: number_ends_def number_type_of_def fraction_part_def exponent_part_def)
  qed
qed

lemma takes_AfterAny1:
  assumes "scan_number_from AfterAny1 ty buf s = (Some (ty', b), r)"
  shows "\<exists>ds s'. list_all IsDigit ds \<and> s = ds @ s' \<and> (s' = [] \<or> \<not> IsDigit (hd s')) \<and>
    scan_number_from AfterAny1 ty (buf @ ds) s' = (Some (ty', b), r)"
proof -
  have s: "s = takeWhile IsDigit s @ dropWhile IsDigit s" by simp
  have d: "list_all IsDigit (takeWhile IsDigit s)" by (auto simp: list_all_iff dest: set_takeWhileD)
  show ?thesis using assms run_AfterAny1_digits [OF d, of ty buf "dropWhile IsDigit s"] d
    by (intro exI [of _ "takeWhile IsDigit s"] exI [of _ "dropWhile IsDigit s"])
      (metis (no_types, lifting) hd_dropWhile s)
qed

lemma takes_whole:
  assumes "scan_number_from (whole_state c) ty buf s = (Some (ty', b), r)" "IsDigit c"
  shows "\<exists>ds f e. whole_part (c # ds) \<and> fraction_part f \<and> exponent_part e \<and> s = ds @ f @ e @ r \<and> b = buf @ ds @ f @ e \<and>
    ty' = number_type_of ty f e \<and> number_ends (c # ds) f e r"
proof (cases "c = CHR ''0''")
  case True
  with takes_after_whole [of AfterZero ty buf s ty' b r "''0''"] assms obtain f e where
    "fraction_part f" "exponent_part e" "s = f @ e @ r" "b = buf @ f @ e" "ty' = number_type_of ty f e" "number_ends ''0'' f e r"
    by (auto simp: whole_state_def)
  then show ?thesis using True
    by (intro exI [of _ "[]"] exI [of _ f] exI [of _ e]) (simp add: whole_part_def digits_Cons)
next
  case False
  with assms(1) have "scan_number_from AfterAny1 ty buf s = (Some (ty', b), r)" by (simp add: whole_state_def)
  from takes_AfterAny1 [OF this] obtain ds s' where d: "list_all IsDigit ds" "s = ds @ s'" "s' = [] \<or> \<not> IsDigit (hd s')"
    "scan_number_from AfterAny1 ty (buf @ ds) s' = (Some (ty', b), r)" by blast
  from takes_after_whole [OF d(4), of "c # ds"] d(3) False obtain f e where
    "fraction_part f" "exponent_part e" "s' = f @ e @ r" "b = (buf @ ds) @ f @ e" "ty' = number_type_of ty f e" "number_ends (c # ds) f e r"
    by auto
  moreover have "whole_part (c # ds)" using False assms(2) d(1) by (simp add: whole_part_def digits_Cons)
  ultimately show ?thesis using d(2) by (intro exI [of _ ds] exI [of _ f] exI [of _ e]) simp
qed

section \<open>Number tokens\<close>

lemma scan_number_digit:
  "IsDigit c \<Longrightarrow> scan_number c cs =
     (case scan_number_from (whole_state c) Unsigned [c] cs of
        (None, r) \<Rightarrow> (LexError, r) | (Some (ty, buf), r) \<Rightarrow> (number_token ty buf, r))"
  by (auto simp: scan_number_def whole_state_def)

lemma scan_AfterMinus:
  "IsDigit d \<Longrightarrow> scan_number_from AfterMinus ty buf (d # ds) = scan_number_from (whole_state d) Integer (buf @ [d]) ds"
  by (simp add: whole_state_def)

lemma number_token_not_error [simp]: "number_token ty buf \<noteq> LexError"
  by (simp add: number_token_def split: number_type.split)

definition number_sign :: "string \<Rightarrow> number_type" where
  "number_sign sg = (if sg = [] then Unsigned else Integer)"

lemma whole_part_Cons: "whole_part w \<Longrightarrow> \<exists>d ds. w = d # ds \<and> IsDigit d"
  by (cases w) (auto simp: whole_part_def digits_Cons)

lemma scan_number_text:
  assumes "sg \<in> {[], ''-''}" "whole_part w" "fraction_part f" "exponent_part e" "number_ends w f e r" "c # cs = sg @ w @ f @ e @ r"
  shows "scan_number c cs = (number_token (number_type_of (number_sign sg) f e) (sg @ w @ f @ e), r)"
proof -
  obtain d ds where w: "w = d # ds" "IsDigit d" using whole_part_Cons [OF assms(2)] by auto
  note run = run_whole [OF assms(2-5) [unfolded w(1)]]
  show ?thesis
  proof (cases "sg = []")
    case True
    with assms(6) w(1) have "c = d" "cs = ds @ f @ e @ r" by simp_all
    then show ?thesis using run w True by (simp add: scan_number_digit number_sign_def)
  next
    case False
    with assms(1,6) w(1) have "c = CHR ''-''" "cs = d # ds @ f @ e @ r" "sg = ''-''" by auto
    then show ?thesis using run w by (simp add: scan_number_def scan_AfterMinus number_sign_def del: scan_number_from.simps)
  qed
qed

lemma scan_number_takes:
  assumes "scan_number c cs = (t, r)" "t \<noteq> LexError" "c = CHR ''-'' \<or> IsDigit c"
  shows "\<exists>sg w f e. sg \<in> {[], ''-''} \<and> whole_part w \<and> fraction_part f \<and> exponent_part e \<and> number_ends w f e r \<and>
    c # cs = sg @ w @ f @ e @ r \<and> t = number_token (number_type_of (number_sign sg) f e) (sg @ w @ f @ e)"
proof (cases "c = CHR ''-''")
  case True
  with assms obtain ty buf where s: "scan_number_from AfterMinus Unsigned ''-'' cs = (Some (ty, buf), r)" "t = number_token ty buf"
    by (auto simp: scan_number_def split: prod.splits option.splits)
  then obtain d ds where d: "cs = d # ds" "IsDigit d" by (cases cs) (auto split: if_splits)
  from s(1) d have "scan_number_from (whole_state d) Integer [CHR ''-'', d] ds = (Some (ty, buf), r)" by (simp add: scan_AfterMinus del: scan_number_from.simps)
  from takes_whole [OF this d(2)] obtain us f e where "whole_part (d # us)" "fraction_part f" "exponent_part e"
    "ds = us @ f @ e @ r" "buf = [CHR ''-'', d] @ us @ f @ e" "ty = number_type_of Integer f e" "number_ends (d # us) f e r" by blast
  with True d s(2) show ?thesis
    by (intro exI [of _ "''-''"] exI [of _ "d # us"] exI [of _ f] exI [of _ e]) (simp add: number_sign_def)
next
  case False
  with assms(3) have c: "IsDigit c" by simp
  with assms(1,2) obtain ty buf where s: "scan_number_from (whole_state c) Unsigned [c] cs = (Some (ty, buf), r)" "t = number_token ty buf"
    by (auto simp: scan_number_digit split: prod.splits option.splits)
  from takes_whole [OF s(1) c] obtain us f e where "whole_part (c # us)" "fraction_part f" "exponent_part e"
    "cs = us @ f @ e @ r" "buf = [c] @ us @ f @ e" "ty = number_type_of Unsigned f e" "number_ends (c # us) f e r" by blast
  with s(2) show ?thesis
    by (intro exI [of _ "[]"] exI [of _ "c # us"] exI [of _ f] exI [of _ e]) (simp add: number_sign_def)
qed

text \<open>
  What a number text stands for: an integer of its type when it has neither fraction nor exponent
  and fits, otherwise the double that \<open>strtod\<close> gives.
\<close>

fun number_means :: "token \<Rightarrow> string \<Rightarrow> string \<Rightarrow> string \<Rightarrow> string \<Rightarrow> bool" where
  "number_means (ValueUnsigned n) sg w f e \<longleftrightarrow> sg = [] \<and> f = [] \<and> e = [] \<and> unat n = dec_value w"
| "number_means (ValueInteger z) sg w f e \<longleftrightarrow> sg \<noteq> [] \<and> f = [] \<and> e = [] \<and> sint z = - int (dec_value w)"
| "number_means (ValueFloat d) sg w f e \<longleftrightarrow>
     d = strtod (sg @ w @ f @ e) \<and>
     (f \<noteq> [] \<or> e \<noteq> [] \<or> sg = [] \<and> 2 ^ 64 \<le> dec_value w \<or> sg \<noteq> [] \<and> 2 ^ 63 < dec_value w)"
| "number_means _ sg w f e \<longleftrightarrow> False"

lemma sint_of_int64: "- (2 ^ 63) \<le> z \<Longrightarrow> z < 2 ^ 63 \<Longrightarrow> sint (of_int z :: i64) = z"
  by (simp add: sint_sbintrunc' signed_take_bit_int_eq_self)

lemma unsigned_value: "unat (n :: u64) = v \<longleftrightarrow> v < 2 ^ 64 \<and> n = of_nat v"
  using unsigned_less [of n] by (auto simp: unsigned_of_nat take_bit_nat_eq_self)

lemma negative_value: "sint (z :: i64) = - int v \<longleftrightarrow> v \<le> 2 ^ 63 \<and> z = of_int (- int v)"
proof
  assume z: "sint z = - int v"
  then have "of_int (- int v) = z" by (simp flip: z)
  moreover have "- (2 ^ 63) \<le> sint z" using sint_ge [of z] by simp
  ultimately show "v \<le> 2 ^ 63 \<and> z = of_int (- int v)" using z by simp
next
  assume z: "v \<le> 2 ^ 63 \<and> z = of_int (- int v)"
  have "sint (of_int (- int v) :: i64) = - int v" by (rule sint_of_int64) (use z in simp_all)
  with z show "sint z = - int v" by simp
qed

lemma number_means_iff:
  assumes "sg \<in> {[], ''-''}"
  shows "number_means tok sg w f e \<longleftrightarrow> tok = number_token (number_type_of (number_sign sg) f e) (sg @ w @ f @ e)"
proof -
  consider (float) "f \<noteq> [] \<or> e \<noteq> []" | (unsigned) "f = []" "e = []" "sg = []" | (integer) "f = []" "e = []" "sg = ''-''"
    using assms by blast
  then show ?thesis
  proof cases
    case float
    then have "number_type_of (number_sign sg) f e = Float" by (auto simp: number_type_of_def)
    then show ?thesis using float by (cases tok) (auto simp: number_token_def)
  next
    case unsigned
    then show ?thesis
      by (cases tok) (auto simp: number_token_def number_type_of_def number_sign_def unsigned_value simp del: of_nat_numeral)
  next
    case integer
    then show ?thesis
      by (cases tok) (auto simp: number_token_def number_type_of_def number_sign_def negative_value simp del: of_int_minus of_int_of_nat_eq)
  qed
qed

text \<open>From a minus sign or a digit on, the number scanner succeeds exactly on a number of the JSON
  grammar (sign, whole part without leading zeros, optional fraction, optional exponent) behind which no longer
  number goes on. It takes the whole number, and the token is what its text stands for.\<close>
theorem number_scanner_exact:
  "(c = CHR ''-'' \<or> IsDigit c) \<and> scan_number c cs = (t, r) \<and> t \<noteq> LexError \<longleftrightarrow>
     (\<exists>sg w f e. sg \<in> {[], ''-''} \<and> whole_part w \<and> fraction_part f \<and> exponent_part e \<and> number_ends w f e r \<and>
        c # cs = sg @ w @ f @ e @ r \<and> number_means t sg w f e)"
proof
  assume "\<exists>sg w f e. sg \<in> {[], ''-''} \<and> whole_part w \<and> fraction_part f \<and> exponent_part e \<and> number_ends w f e r \<and>
    c # cs = sg @ w @ f @ e @ r \<and> number_means t sg w f e"
  then obtain sg w f e where n: "sg \<in> {[], ''-''}" "whole_part w" "fraction_part f" "exponent_part e" "number_ends w f e r"
    "c # cs = sg @ w @ f @ e @ r" "number_means t sg w f e" by blast
  moreover have "c = CHR ''-'' \<or> IsDigit c" using n(1,6) whole_part_Cons [OF n(2)] by auto
  ultimately show "(c = CHR ''-'' \<or> IsDigit c) \<and> scan_number c cs = (t, r) \<and> t \<noteq> LexError"
    by (simp add: scan_number_text number_means_iff)
next
  assume s: "(c = CHR ''-'' \<or> IsDigit c) \<and> scan_number c cs = (t, r) \<and> t \<noteq> LexError"
  then obtain sg w f e where n: "sg \<in> {[], ''-''}" "whole_part w" "fraction_part f" "exponent_part e" "number_ends w f e r"
    "c # cs = sg @ w @ f @ e @ r" "t = number_token (number_type_of (number_sign sg) f e) (sg @ w @ f @ e)"
    using scan_number_takes [of c cs t r] by blast
  then have "number_means t sg w f e" by (simp add: number_means_iff)
  with n show "\<exists>sg w f e. sg \<in> {[], ''-''} \<and> whole_part w \<and> fraction_part f \<and> exponent_part e \<and> number_ends w f e r \<and>
    c # cs = sg @ w @ f @ e @ r \<and> number_means t sg w f e" by blast
qed

end
