(* ===== verification/Json_Text.thy ===== *)
theory Json_Text
  imports Json_Numbers Json_Flatten
begin

text \<open>
  JSON text. A text spells a token sequence when it consists of spellings of the tokens with
  whitespace between them, as in RFC 8259; the lexer reads exactly the texts that spell something.
  With the parser's theorems this says which texts \<open>FlattenJson\<close> accepts, as texts.
\<close>

section \<open>Spellings\<close>

text \<open>A number token's text in front of the rest of the input.\<close>

definition number_text :: "token \<Rightarrow> string \<Rightarrow> string \<Rightarrow> bool" where
  "number_text tok u r \<longleftrightarrow>
     (\<exists>sg w f e. sg \<in> {[], ''-''} \<and> whole_part w \<and> fraction_part f \<and> exponent_part e \<and> number_ends w f e r \<and>
        u = sg @ w @ f @ e \<and> number_means tok sg w f e)"

lemma number_text_iff:
  "number_text tok u r \<longleftrightarrow>
     (\<exists>sg w f e. sg \<in> {[], ''-''} \<and> whole_part w \<and> fraction_part f \<and> exponent_part e \<and> number_ends w f e r \<and>
        u = sg @ w @ f @ e \<and> tok = number_token (number_type_of (number_sign sg) f e) u)"
  unfolding number_text_def by (metis number_means_iff)

definition string_token_text :: "string \<Rightarrow> string \<Rightarrow> bool" where
  "string_token_text t u \<longleftrightarrow> (\<exists>js. list_all jchar_ok js \<and> u = quot # string_text js @ [quot] \<and> t = string_value js)"

fun token_text :: "token \<Rightarrow> string \<Rightarrow> string \<Rightarrow> bool" where
  "token_text LiteralNull u r \<longleftrightarrow> u = ''null''"
| "token_text LiteralTrue u r \<longleftrightarrow> u = ''true''"
| "token_text LiteralFalse u r \<longleftrightarrow> u = ''false''"
| "token_text BeginArray u r \<longleftrightarrow> u = ''[''"
| "token_text EndArray u r \<longleftrightarrow> u = '']''"
| "token_text BeginObject u r \<longleftrightarrow> u = ''{''"
| "token_text EndObject u r \<longleftrightarrow> u = ''}''"
| "token_text NameSeparator u r \<longleftrightarrow> u = '':''"
| "token_text ValueSeparator u r \<longleftrightarrow> u = '',''"
| "token_text (ValueString t) u r \<longleftrightarrow> string_token_text t u"
| "token_text LexError u r \<longleftrightarrow> False"
| "token_text EndOfInput u r \<longleftrightarrow> False"
| "token_text tok u r \<longleftrightarrow> number_text tok u r"

lemma scan_string_exact:
  "scan_string s = (ValueString t, r) \<longleftrightarrow> (\<exists>js. list_all jchar_ok js \<and> s = string_text js @ quot # r \<and> t = string_value js)"
proof
  assume "scan_string s = (ValueString t, r)"
  then have "scan_string_from [] s = (Some t, r)" by (auto simp: scan_string_def split: prod.splits option.splits)
  from scan_string_from_takes [OF this]
  show "\<exists>js. list_all jchar_ok js \<and> s = string_text js @ quot # r \<and> t = string_value js" by simp
qed (auto simp: scan_string_def scan_string_from_text)

lemma scan_string_result: "scan_string s = (tok, r) \<Longrightarrow> tok = LexError \<or> (\<exists>t. tok = ValueString t)"
  by (auto simp: scan_string_def split: prod.splits option.splits)

lemma scan_literal_exact: "tok \<noteq> LexError \<Longrightarrow> scan_literal xs tok' s = (tok, r) \<longleftrightarrow> s = xs @ r \<and> tok = tok'"
  by (induction xs tok' s rule: scan_literal.induct) auto

lemma number_token_result: "(\<exists>n. number_token ty buf = ValueUnsigned n) \<or> (\<exists>z. number_token ty buf = ValueInteger z) \<or> (\<exists>d. number_token ty buf = ValueFloat d)"
  by (simp add: number_token_def split: number_type.split)

lemma number_text_token:
  assumes "number_text tok u r"
  shows "token_text tok u r"
  using assms number_token_result unfolding number_text_iff by (cases tok) (metis assms token.distinct token_text.simps)+

lemma scan_number_spells:
  assumes "c = CHR ''-'' \<or> IsDigit c" "tok \<noteq> LexError"
  shows "scan_number c cs = (tok, r) \<longleftrightarrow> (\<exists>u. c # cs = u @ r \<and> number_text tok u r)"
proof
  assume "scan_number c cs = (tok, r)"
  from scan_number_takes [OF this assms(2,1)] show "\<exists>u. c # cs = u @ r \<and> number_text tok u r"
    unfolding number_text_iff by (metis append.assoc)
next
  assume "\<exists>u. c # cs = u @ r \<and> number_text tok u r"
  then obtain u where u: "c # cs = u @ r" "number_text tok u r" by blast
  then obtain sg w f e where "sg \<in> {[], ''-''}" "whole_part w" "fraction_part f" "exponent_part e" "number_ends w f e r"
    "u = sg @ w @ f @ e" "tok = number_token (number_type_of (number_sign sg) f e) u"
    unfolding number_text_iff by blast
  then show "scan_number c cs = (tok, r)" using scan_number_text [of sg w f e r c cs] u(1) by simp
qed

lemma number_text_hd: "number_text tok u r \<Longrightarrow> \<exists>c cs. u = c # cs \<and> (c = CHR ''-'' \<or> IsDigit c)"
  unfolding number_text_iff using whole_part_Cons by fastforce

section \<open>Tokens\<close>

lemma digit_is_no_other:
  "c = CHR ''-'' \<or> IsDigit c \<Longrightarrow>
     \<not> is_whitespace c \<and> c \<notin> {CHR ''['', CHR '']'', CHR ''{'', CHR ''}'', CHR '':'', CHR '','', CHR ''t'', CHR ''f'', CHR ''n'', quot, CHR 0x00}"
  by (auto simp: is_whitespace_def IsDigit_def)

lemma scan_token_whitespace: "list_all is_whitespace ws \<Longrightarrow> scan_token (ws @ s) = scan_token s"
  by (simp add: scan_token_def skip_whitespace_def dropWhile_append2 list_all_iff)

lemma scan_token_number:
  assumes "c = CHR ''-'' \<or> IsDigit c"
  shows "scan_token (c # cs) = scan_number c cs"
  using digit_is_no_other [OF assms] assms by (simp add: scan_token_def skip_whitespace_def)

lemma scan_token_string: "scan_token (quot # cs) = scan_string cs"
  by (simp add: scan_token_def skip_whitespace_def is_whitespace_def)

lemma spelled_token:
  assumes "token_text tok u r"
  shows "scan_token (u @ r) = (tok, r)"
proof -
  have number: "scan_token (u @ r) = (tok, r)" if t: "number_text tok u r" "tok \<noteq> LexError"
  proof -
    from number_text_hd [OF t(1)] obtain c cs where u: "u = c # cs" "c = CHR ''-'' \<or> IsDigit c" by blast
    have "scan_number c (cs @ r) = (tok, r)" using scan_number_spells [OF u(2) t(2)] t(1) u(1) by auto
    then show ?thesis using scan_token_number [OF u(2)] u(1) by simp
  qed
  show ?thesis
  proof (cases tok)
    case (ValueString t)
    then obtain js where js: "list_all jchar_ok js" "u = quot # string_text js @ [quot]" "t = string_value js"
      using assms by (auto simp: string_token_text_def)
    then show ?thesis using ValueString scan_token_string [of "string_text js @ quot # r"] scan_string_exact [of "string_text js @ quot # r" t r]
      by auto
  qed (use assms number in \<open>auto simp: scan_token_def skip_whitespace_def is_whitespace_def\<close>)
qed

lemma read_token:
  assumes "scan_token (c # cs) = (tok, r)" "tok \<noteq> LexError" "tok \<noteq> EndOfInput" "\<not> is_whitespace c"
  shows "\<exists>u. c # cs = u @ r \<and> token_text tok u r"
proof -
  consider (number) "c = CHR ''-'' \<or> IsDigit c" | (string) "c = quot"
    | (word) "c \<in> {CHR ''t'', CHR ''f'', CHR ''n''}"
    | (mark) "c \<in> {CHR ''['', CHR '']'', CHR ''{'', CHR ''}'', CHR '':'', CHR '',''}"
    | (none) "c \<notin> {CHR ''['', CHR '']'', CHR ''{'', CHR ''}'', CHR '':'', CHR '','', CHR ''t'', CHR ''f'', CHR ''n'', quot}"
        "\<not> (c = CHR ''-'' \<or> IsDigit c)" by auto
  then show ?thesis
  proof cases
    case number
    with assms scan_number_spells [OF number assms(2)] number_text_token show ?thesis
      unfolding scan_token_number [OF number] by blast
  next
    case string
    then have s: "scan_string cs = (tok, r)" using assms(1) by (simp add: scan_token_string)
    then obtain t where t: "tok = ValueString t" using scan_string_result assms(2) by blast
    moreover obtain js where "list_all jchar_ok js" "cs = string_text js @ quot # r" "t = string_value js"
      using s [unfolded t scan_string_exact] by blast
    ultimately show ?thesis using string
      by (intro exI [of _ "quot # string_text js @ [quot]"]) (auto simp: string_token_text_def)
  next
    case word
    then show ?thesis using assms(1,2)
      by (auto simp: scan_token_def skip_whitespace_def is_whitespace_def scan_literal_exact intro: exI [of _ "''true''"] exI [of _ "''false''"] exI [of _ "''null''"])
  next
    case mark
    then show ?thesis using assms(1) by (auto simp: scan_token_def skip_whitespace_def is_whitespace_def)
  next
    case none
    then show ?thesis using assms by (auto simp: scan_token_def skip_whitespace_def split: if_splits)
  qed
qed

lemma scan_token_exact:
  assumes "tok \<noteq> LexError" "tok \<noteq> EndOfInput"
  shows "scan_token s = (tok, r) \<longleftrightarrow> (\<exists>ws u. list_all is_whitespace ws \<and> s = ws @ u @ r \<and> token_text tok u r)"
proof
  assume t: "scan_token s = (tok, r)"
  let ?ws = "takeWhile is_whitespace s"
  have ws: "list_all is_whitespace ?ws" by (auto simp: list_all_iff dest: set_takeWhileD)
  show "\<exists>ws u. list_all is_whitespace ws \<and> s = ws @ u @ r \<and> token_text tok u r"
  proof (cases "dropWhile is_whitespace s")
    case Nil
    then have "scan_token s = (EndOfInput, [])" unfolding scan_token_def skip_whitespace_def by (simp only: list.case)
    then show ?thesis using t assms(2) by simp
  next
    case (Cons c cs)
    then have s: "s = ?ws @ c # cs" "\<not> is_whitespace c" by (metis takeWhile_dropWhile_id, metis hd_dropWhile list.distinct(1) list.sel(1))
    then have "scan_token (c # cs) = (tok, r)" using t scan_token_whitespace [OF ws, of "c # cs"] by simp
    from read_token [OF this assms s(2)] s(1) ws show ?thesis by metis
  qed
qed (auto simp: scan_token_whitespace spelled_token)

section \<open>Token sequences\<close>

inductive spells :: "token list \<Rightarrow> string \<Rightarrow> bool" where
  spells_Nil: "list_all is_whitespace ws \<Longrightarrow> spells [] ws"
| spells_Cons: "list_all is_whitespace ws \<Longrightarrow> token_text tok u r \<Longrightarrow> spells toks r \<Longrightarrow> spells (tok # toks) (ws @ u @ r)"

inductive_cases spells_NilE: "spells [] s"
inductive_cases spells_ConsE: "spells (tok # toks) s"

definition clean :: "token list \<Rightarrow> bool" where
  "clean toks \<longleftrightarrow> LexError \<notin> set toks \<and> EndOfInput \<notin> set toks"

lemma token_text_clean: "token_text tok u r \<Longrightarrow> tok \<noteq> LexError \<and> tok \<noteq> EndOfInput"
  by auto

lemma lex_whitespace: "list_all is_whitespace ws \<Longrightarrow> lex_from ws = [] \<or> lex_from ws = [EndOfInput]"
proof -
  assume ws: "list_all is_whitespace ws"
  then have "dropWhile is_whitespace ws = []" by (simp add: list_all_iff)
  then have "scan_token ws = (EndOfInput, [])" unfolding scan_token_def skip_whitespace_def by (simp only: list.case)
  then show ?thesis by (subst (1 2) lex_from.simps) (simp add: lex_from.simps)
qed

lemma token_text_nonempty: "token_text tok u r \<Longrightarrow> u \<noteq> []"
proof
  assume "token_text tok u r" "u = []"
  then show False by (cases tok) (auto simp: string_token_text_def dest: number_text_hd)
qed

lemma lex_spelled: "spells toks s \<Longrightarrow> clean toks \<and> (lex_from s = toks \<or> lex_from s = toks @ [EndOfInput])"
proof (induction rule: spells.induct)
  case (spells_Nil ws)
  then show ?case using lex_whitespace by (simp add: clean_def)
next
  case (spells_Cons ws tok u r toks)
  have "scan_token (ws @ u @ r) = (tok, r)" using spells_Cons(1,2) by (simp add: scan_token_whitespace spelled_token)
  moreover have "ws @ u @ r \<noteq> []" using token_text_nonempty [OF spells_Cons(2)] by simp
  ultimately have "lex_from (ws @ u @ r) = tok # lex_from r" by (subst lex_from.simps) simp
  then show ?case using spells_Cons.IH token_text_clean [OF spells_Cons(2)] by (auto simp: clean_def)
qed

lemma scan_end: "scan_token s = (EndOfInput, r) \<Longrightarrow> NUL \<notin> set s \<Longrightarrow> list_all is_whitespace s"
proof (cases "dropWhile is_whitespace s")
  case Nil
  then show ?thesis by (simp add: list_all_iff)
next
  case (Cons c cs)
  assume t: "scan_token s = (EndOfInput, r)" and nul: "NUL \<notin> set s"
  have "c \<in> set s" using Cons set_dropWhileD [of c is_whitespace s] by simp
  then have "c \<noteq> NUL" using nul by auto
  have "tok \<noteq> EndOfInput" if "scan_literal xs tok' cs = (tok, r)" "tok' \<noteq> EndOfInput" for xs tok tok'
    using that by (induction xs tok' cs rule: scan_literal.induct) (auto split: if_splits)
  moreover have "number_token ty b \<noteq> EndOfInput" for ty b by (simp add: number_token_def split: number_type.split)
  ultimately have False
    using t \<open>c \<noteq> NUL\<close> unfolding scan_token_def skip_whitespace_def Cons
    by (auto simp: scan_number_def scan_string_def Let_def split: if_splits prod.splits option.splits)
  then show ?thesis ..
qed

lemma lex_spells:
  "clean toks \<Longrightarrow> NUL \<notin> set s \<Longrightarrow> lex_from s = toks \<or> lex_from s = toks @ [EndOfInput] \<Longrightarrow> spells toks s"
proof (induction toks arbitrary: s)
  case Nil
  show ?case
  proof (cases "s = []")
    case True
    then show ?thesis by (simp add: spells_Nil)
  next
    case False
    obtain tok r where t: "scan_token s = (tok, r)" by fastforce
    then have "lex_from s = tok # lex_from r" using False by (subst lex_from.simps) simp
    then have "tok = EndOfInput" using Nil(3) by auto
    then show ?thesis using scan_end t Nil(2) by (simp add: spells_Nil)
  qed
next
  case (Cons tok toks)
  have "s \<noteq> []" using Cons.prems(3) by (auto simp: lex_from.simps)
  obtain tok' r where t: "scan_token s = (tok', r)" by fastforce
  then have "lex_from s = tok' # lex_from r" using \<open>s \<noteq> []\<close> by (subst lex_from.simps) simp
  with Cons.prems(3) have r: "tok' = tok" "lex_from r = toks \<or> lex_from r = toks @ [EndOfInput]" by auto
  have "tok \<noteq> LexError" "tok \<noteq> EndOfInput" using Cons.prems(1) by (auto simp: clean_def)
  with t r(1) obtain ws u where u: "list_all is_whitespace ws" "s = ws @ u @ r" "token_text tok u r"
    by (auto simp: scan_token_exact)
  have "spells toks r" using Cons.IH [OF _ _ r(2)] Cons.prems(1,2) u(2) by (simp add: clean_def)
  with u show ?case by (simp add: spells_Cons)
qed

section \<open>Texts of a value\<close>

definition json_text :: "json \<Rightarrow> string \<Rightarrow> bool" where
  "json_text t s \<longleftrightarrow> spells (value_tokens t) s"

lemma clean_append [simp]: "clean (ts @ us) \<longleftrightarrow> clean ts \<and> clean us"
  by (auto simp: clean_def)

lemma clean_Cons [simp]: "clean (t # ts) \<longleftrightarrow> t \<noteq> LexError \<and> t \<noteq> EndOfInput \<and> clean ts"
  by (auto simp: clean_def)

lemma clean_Nil [simp]: "clean []"
  by (simp add: clean_def)

lemma clean_sep: "(\<And>ts. ts \<in> set tss \<Longrightarrow> clean ts) \<Longrightarrow> clean (sep_tokens tss)"
  by (induction tss rule: sep_tokens.induct) auto

lemma clean_value_tokens: "clean (value_tokens t)"
proof (induction t)
  case (JObject fs)
  have "clean (sep_tokens (map (\<lambda>f. ValueString (fst f) # NameSeparator # value_tokens (snd f)) fs))"
    by (rule clean_sep) (use JObject in \<open>auto simp: snds.simps\<close>)
  then show ?case by simp
next
  case (JArray xs)
  have "clean (sep_tokens (map value_tokens xs))" by (rule clean_sep) (use JArray in auto)
  then show ?case by simp
qed simp_all

lemma lex_end: "clean ts \<Longrightarrow> NUL \<notin> set s \<Longrightarrow> lex_from s = ts @ EndOfInput # us \<Longrightarrow> us = []"
proof (induction ts arbitrary: s)
  case Nil
  then have "s \<noteq> []" by (auto simp: lex_from.simps)
  obtain tok r where t: "scan_token s = (tok, r)" by fastforce
  then have "lex_from s = tok # lex_from r" using \<open>s \<noteq> []\<close> by (subst lex_from.simps) simp
  then have "list_all is_whitespace s" using scan_end [of s r] t Nil by simp
  then show ?case using lex_whitespace [of s] Nil.prems(3) by simp
next
  case (Cons tok ts)
  then have "s \<noteq> []" by (auto simp: lex_from.simps)
  obtain tok' r where t: "scan_token s = (tok', r)" by fastforce
  then have "lex_from s = tok' # lex_from r" using \<open>s \<noteq> []\<close> by (subst lex_from.simps) simp
  with Cons.prems(3) have r: "tok' = tok" "lex_from r = ts @ EndOfInput # us" by auto
  have "NUL \<notin> set r" using t r(1) Cons.prems(1,2) by (auto simp: scan_token_exact)
  then show ?case using Cons.IH r(2) Cons.prems(1) by simp
qed

lemma tree_of_lex:
  assumes "NUL \<notin> set s"
  shows "tree_of (lex_from s) t \<longleftrightarrow> finite_floats t \<and> json_text t s"
proof
  assume "tree_of (lex_from s) t"
  then obtain rest where t: "finite_floats t" "lex_from s = value_tokens t @ rest" "at_end rest" by (auto simp: tree_of_def)
  have "rest = [] \<or> rest = [EndOfInput]"
  proof (cases rest)
    case (Cons tok us)
    then have "tok = EndOfInput" using t(3) by (simp add: at_end_def)
    then show ?thesis using lex_end [OF clean_value_tokens assms] t(2) Cons by simp
  qed simp
  then have "lex_from s = value_tokens t \<or> lex_from s = value_tokens t @ [EndOfInput]" using t(2) by auto
  with t(1) lex_spells [OF clean_value_tokens assms] show "finite_floats t \<and> json_text t s" by (simp add: json_text_def)
next
  assume "finite_floats t \<and> json_text t s"
  then show "tree_of (lex_from s) t" using lex_spelled [of "value_tokens t" s]
    by (auto simp: tree_of_def json_text_def at_end_def get_token_def)
qed

lemma skip_bom_subset: "skip_bom s = (True, u) \<Longrightarrow> set u \<subseteq> set s"
  by (auto simp: skip_bom_def split: list.splits if_splits)

lemma tree_of_lexer:
  assumes "NUL \<notin> set s"
  shows "tree_of (lexer s) t \<longleftrightarrow> finite_floats t \<and> (\<exists>u. skip_bom s = (True, u) \<and> json_text t u)"
proof (cases "skip_bom s")
  case (Pair ok u)
  show ?thesis
  proof (cases ok)
    case True
    then have "NUL \<notin> set u" using skip_bom_subset [of s u] Pair assms by auto
    then show ?thesis using tree_of_lex [of u t] Pair True by (simp add: lexer_def)
  next
    case False
    have "LexError # ts \<noteq> value_tokens t @ rest" for ts rest
      using clean_value_tokens [of t] value_tokens_nonempty [of t] by (cases "value_tokens t") auto
    then show ?thesis using Pair False by (auto simp: lexer_def tree_of_def)
  qed
qed

section \<open>JSON text is standard notation\<close>

text \<open>No apostrophe of a JSON text starts an apostrophe string: quote conversion leaves it alone.\<close>

lemma standard_plain: "quot \<notin> set u \<Longrightarrow> apos \<notin> set u \<Longrightarrow> standard_from False (u @ r) = standard_from False r"
  by (induction u) auto

lemma standard_inside: "quot \<notin> set u \<Longrightarrow> bslash \<notin> set u \<Longrightarrow> standard_from True (u @ r) = standard_from True r"
  by (induction u) auto

lemma utf8_high:
  assumes "scalar_value n" "0x80 \<le> n" "c \<in> set (utf8 n)"
  shows "0x80 \<le> (of_char c :: nat)"
proof -
  have n: "n < 0x110000" using assms(1) by (auto simp: scalar_value_def)
  then have lead: "n div 262144 < 5" by (intro less_mult_imp_div_less) simp
  have lead2: "n < 0x800 \<Longrightarrow> n div 64 < 32" by (intro less_mult_imp_div_less) simp
  have lead3: "n < 0x10000 \<Longrightarrow> n div 4096 < 16" by (intro less_mult_imp_div_less) simp
  have tail: "m mod 64 < 64" for m :: nat by simp
  obtain m :: nat where m: "c = char_of m" "0x80 \<le> m" "m < 256"
  proof (cases "n < 0x800")
    case True
    then show thesis using assms(2,3) lead2 tail [of n] that by (auto simp: utf8_def)
  next
    case ge: False
    show thesis
    proof (cases "n < 0x10000")
      case True
      then show thesis using ge assms(3) lead3 tail [of n] tail [of "n div 64"] that by (auto simp: utf8_def)
    next
      case False
      then show thesis using assms(3) lead tail [of n] tail [of "n div 64"] tail [of "n div 4096"] that by (auto simp: utf8_def)
    qed
  qed
  then show ?thesis by simp
qed

lemma utf8_no_quotes:
  assumes "scalar_value n" "n \<noteq> 0x22" "n \<noteq> 0x5C"
  shows "quot \<notin> set (utf8 n) \<and> bslash \<notin> set (utf8 n)"
proof (cases "n < 0x80")
  case True
  then have "(of_char (char_of n :: char) :: nat) = n" by simp
  then have "char_of n \<noteq> quot" "char_of n \<noteq> bslash" using assms(2,3) by force+
  then show ?thesis using True by (simp add: utf8_def)
next
  case False
  then show ?thesis using utf8_high [OF assms(1), of quot] utf8_high [OF assms(1), of bslash] by auto
qed

lemma hex4_chars: "hex4 h = Some n \<Longrightarrow> c \<in> set h \<Longrightarrow> hex_value c \<noteq> None"
  by (auto simp: hex4_def split: if_splits)

lemma hex4_no_quotes: "hex4 h = Some n \<Longrightarrow> quot \<notin> set h \<and> bslash \<notin> set h"
  using hex4_chars [of h n quot] hex4_chars [of h n bslash] by (auto simp: hex_value_def)

lemma standard_jchar: "jchar_ok j \<Longrightarrow> standard_from True (jchar_text j @ r) = standard_from True r"
proof (cases j)
  case (Hex h)
  assume "jchar_ok j"
  then show ?thesis using Hex by (auto simp: standard_inside dest: hex4_no_quotes)
next
  case (Pair h k)
  assume "jchar_ok j"
  then have "quot \<notin> set h" "bslash \<notin> set h" "quot \<notin> set k" "bslash \<notin> set k"
    using Pair hex4_no_quotes by auto
  then show ?thesis using Pair standard_inside [of h "bslash # CHR ''u'' # k @ r"] by (simp add: standard_inside)
qed (auto simp: standard_inside utf8_no_quotes)

lemma standard_string: "list_all jchar_ok js \<Longrightarrow> standard_from True (string_text js @ quot # r) = standard_from False r"
  by (induction js) (simp_all add: standard_jchar)

lemma digits_chars: "digits ds \<Longrightarrow> c \<in> set ds \<Longrightarrow> IsDigit c"
  by (simp add: digits_def list_all_iff)

lemma number_text_chars:
  assumes "number_text tok u r" "c \<in> set u"
  shows "IsDigit c \<or> c \<in> {CHR ''-'', CHR ''+'', CHR ''.'', CHR ''e'', CHR ''E''}"
proof -
  obtain sg w f e where n: "sg \<in> {[], ''-''}" "whole_part w" "fraction_part f" "exponent_part e" "u = sg @ w @ f @ e"
    using assms(1) unfolding number_text_iff by blast
  moreover have "c \<in> set w \<Longrightarrow> IsDigit c" using n(2) digits_chars by (auto simp: whole_part_def)
  moreover have "c \<in> set f \<Longrightarrow> IsDigit c \<or> c = CHR ''.''" using n(3) digits_chars by (auto simp: fraction_part_def)
  moreover have "c \<in> set e \<Longrightarrow> IsDigit c \<or> c \<in> {CHR ''-'', CHR ''+'', CHR ''e'', CHR ''E''}"
    using n(4) digits_chars by (auto simp: exponent_part_def)
  ultimately show ?thesis using assms(2) by auto
qed

lemma standard_token:
  assumes "token_text tok u r"
  shows "standard_from False (u @ r) = standard_from False r"
proof -
  have number: ?thesis if n: "number_text tok u r"
    using number_text_chars [OF n, of quot] number_text_chars [OF n, of apos] by (intro standard_plain) (auto simp: IsDigit_def)
  show ?thesis
  proof (cases tok)
    case (ValueString t)
    then obtain js where "list_all jchar_ok js" "u = quot # string_text js @ [quot]"
      using assms by (auto simp: string_token_text_def)
    then show ?thesis by (simp add: standard_string)
  qed (use assms number in auto)
qed

lemma spells_standard: "spells toks s \<Longrightarrow> standard_from False s"
proof (induction rule: spells.induct)
  case (spells_Nil ws)
  then show ?case using standard_plain [of ws "[]"] by (force simp: list_all_iff is_whitespace_def)
next
  case (spells_Cons ws tok u r toks)
  have "quot \<notin> set ws" "apos \<notin> set ws" using spells_Cons(1) by (force simp: list_all_iff is_whitespace_def)+
  then show ?case using spells_Cons standard_token by (simp add: standard_plain)
qed

lemma quoted_text: "json_text t s \<Longrightarrow> quoted s = s"
  using convert_standard [of Outside s] spells_standard
  by (simp add: quoted_def json_text_def ConvertApostropheStrings_def)

section \<open>What FlattenJson accepts\<close>

lemma quoted_NUL: "NUL \<notin> set s \<Longrightarrow> NUL \<notin> set (quoted s)"
  using set_convert [of NUL Outside s] by (auto simp: quoted_def ConvertApostropheStrings_def)

lemma skip_bom_keeps: "json_text t s \<Longrightarrow> NUL \<notin> set s \<Longrightarrow> skip_bom s = (True, s)"
proof -
  assume t: "json_text t s" "NUL \<notin> set s"
  have "hd s \<noteq> CHR 0xEF" if ne: "s \<noteq> []"
  proof
    assume "hd s = CHR 0xEF"
    then obtain cs where s: "s = CHR 0xEF # cs" using ne by (cases s) simp_all
    then have "scan_token s = (LexError, cs)" by (simp add: scan_token_def skip_whitespace_def is_whitespace_def IsDigit_def)
    then have "lex_from s = LexError # lex_from cs" using ne by (subst lex_from.simps) simp
    moreover have "lex_from s = value_tokens t \<or> lex_from s = value_tokens t @ [EndOfInput]"
      using lex_spelled t(1) by (simp add: json_text_def)
    ultimately show False using clean_value_tokens [of t] value_tokens_nonempty [of t] by (cases "value_tokens t") auto
  qed
  then show ?thesis by (cases s) (auto simp: skip_bom_def)
qed

lemma FlattenJson_text:
  assumes "json_text t s" "acceptable_text s" "finite_floats t" "within_limits t"
  shows "FlattenJson lexer dtoa False s out =
    Returned (Ok, \<lparr>document = collapse t, entries = flat_entries dtoa (collapse t)\<rparr>)"
proof (rule FlattenJson_tree)
  have "NUL \<notin> set s" using assms(2) by (simp add: acceptable_text_def)
  then show "tree_of (lexer (quoted s)) t"
    using assms(1,3) quoted_text [OF assms(1)] skip_bom_keeps [OF assms(1)] tree_of_lexer [of s t] by auto
qed (fact assms)+

lemma FlattenJson_text_iff:
  "FlattenJson lexer dtoa False s out = Returned (Ok, res) \<longleftrightarrow>
     acceptable_text s \<and>
     (\<exists>t u. skip_bom (quoted s) = (True, u) \<and> json_text t u \<and> finite_floats t \<and> within_limits t \<and>
        res = \<lparr>document = collapse t, entries = flat_entries dtoa (collapse t)\<rparr>)"
proof (cases "acceptable_text s")
  case True
  then have "NUL \<notin> set (quoted s)" using quoted_NUL by (simp add: acceptable_text_def)
  from tree_of_lexer [OF this] show ?thesis unfolding FlattenJson_Ok_iff by blast
qed (simp add: FlattenJson_Ok_iff)

section \<open>Document strings\<close>

fun utf8_json :: "json \<Rightarrow> bool" where
  "utf8_json (JString s) = utf8_text s"
| "utf8_json (JArray xs) = (\<forall>x \<in> set xs. utf8_json x)"
| "utf8_json (JObject fs) = (\<forall>f \<in> set fs. utf8_text (fst f) \<and> utf8_json (snd f))"
| "utf8_json _ = True"

definition utf8_tokens :: "token list \<Rightarrow> bool" where
  "utf8_tokens toks \<longleftrightarrow> (\<forall>s. ValueString s \<in> set toks \<longrightarrow> utf8_text s)"

lemma utf8_tokens_simps [simp]:
  "utf8_tokens []"
  "utf8_tokens (tok # toks) \<longleftrightarrow> (\<forall>s. tok = ValueString s \<longrightarrow> utf8_text s) \<and> utf8_tokens toks"
  "utf8_tokens (ts @ us) \<longleftrightarrow> utf8_tokens ts \<and> utf8_tokens us"
  by (auto simp: utf8_tokens_def)

lemma spells_utf8: "spells toks s \<Longrightarrow> utf8_tokens toks"
proof (induction rule: spells.induct)
  case (spells_Cons ws tok u r toks)
  then show ?case by (auto simp: string_token_text_def string_value_utf8)
qed simp

lemma utf8_tokens_sep: "utf8_tokens (sep_tokens tss) \<longleftrightarrow> (\<forall>ts \<in> set tss. utf8_tokens ts)"
  by (induction tss rule: sep_tokens.induct) auto

lemma utf8_value_tokens: "utf8_tokens (value_tokens t) \<longleftrightarrow> utf8_json t"
proof (induction t)
  case (JObject fs)
  then show ?case by (auto simp: utf8_tokens_sep snds.simps)
qed (auto simp: utf8_tokens_sep)

lemma utf8_collapse: "utf8_json t \<Longrightarrow> utf8_json (collapse t)"
proof (induction t)
  case (JObject fs)
  have "utf8_text (fst f) \<and> utf8_json (snd f)" if "f \<in> set (collapse_fields fs)" for f
    using that set_collapse_fields [of fs] JObject by (fastforce simp: snds.simps)
  then show ?case unfolding collapse_object by simp
qed auto

text \<open>Paths keep it: only ASCII bytes are escaped.\<close>

lemma escape_append: "escape_token (s @ t) = escape_token s @ escape_token t"
  by (induction s) simp_all

lemma utf8_ascii: "(of_char c :: nat) < 0x80 \<Longrightarrow> utf8_text [c]"
  using utf8_text_utf8 [of "of_char c"] by (simp add: utf8_def scalar_value_def)

lemma utf8_text_Cons_ascii: "(of_char c :: nat) < 0x80 \<Longrightarrow> utf8_text s \<Longrightarrow> utf8_text (c # s)"
  using utf8_text_append [OF utf8_ascii] by fastforce

lemma utf8_ascii_text: "(\<And>c. c \<in> set s \<Longrightarrow> (of_char c :: nat) < 0x80) \<Longrightarrow> utf8_text s"
  by (induction s) (simp_all add: utf8_text_Cons_ascii)

lemma utf8_escape: "utf8_text s \<Longrightarrow> utf8_text (escape_token s)"
proof -
  have "utf8_text (escape_token (utf8 n))" if n: "scalar_value n" for n
  proof (cases "n < 0x80")
    case True
    then have "utf8 n = [char_of n]" "(of_char (char_of n :: char) :: nat) < 0x80" by (simp_all add: utf8_def)
    then show ?thesis by (auto intro!: utf8_text_Cons_ascii utf8_ascii)
  next
    case False
    then have "c \<noteq> CHR ''~''" "c \<noteq> CHR ''/''" if "c \<in> set (utf8 n)" for c using utf8_high [OF n _ that] by auto
    then have "escape_token t = t" if "set t \<subseteq> set (utf8 n)" for t using that by (induction t) auto
    then show ?thesis using n by (simp add: utf8_text_utf8)
  qed
  then have "list_all scalar_value ns \<Longrightarrow> utf8_text (escape_token (concat (map utf8 ns)))" for ns
    by (induction ns) (simp_all add: escape_append utf8_text_append)
  then show "utf8_text s \<Longrightarrow> utf8_text (escape_token s)" by (auto simp: utf8_text_def)
qed

lemma utf8_to_string: "utf8_text (to_string n)"
  by (rule utf8_ascii_text) (auto dest!: to_string_digits simp: IsDigit_def)

lemma utf8_pointer: "list_all utf8_text ts \<Longrightarrow> utf8_text (pointer_of ts)"
  by (induction ts) (simp_all add: utf8_text_Cons_ascii utf8_text_append utf8_escape)

lemma utf8_leaves: "utf8_json v \<Longrightarrow> (p, l) \<in> set (leaves v) \<Longrightarrow> list_all utf8_text p \<and> utf8_json l"
proof (induction v arbitrary: p)
  case (JArray xs)
  show ?case
  proof (cases "xs = []")
    case False
    then have "(p, l) \<in> set (below_indices 0 (map leaves xs))" using JArray.prems(2) by simp
    then obtain i q where "i < length xs" "p = to_string i # q" "(q, l) \<in> set (leaves (xs ! i))"
      by (auto simp: mem_below_indices mem_below)
    then show ?thesis using JArray.IH [of "xs ! i" q] JArray.prems(1) by (simp add: utf8_to_string)
  qed (use JArray in simp)
next
  case (JObject fs)
  show ?case
  proof (cases "fs = []")
    case False
    then obtain f where f: "f \<in> set fs" "(p, l) \<in> set (below (fst f) (leaves (snd f)))" using JObject.prems(2) by auto
    then obtain q where "p = fst f # q" "(q, l) \<in> set (leaves (snd f))" by (auto simp: mem_below)
    then show ?thesis using JObject.IH [of f "snd f" q] JObject.prems(1) f(1) by (auto simp: snds.simps)
  qed (use JObject in simp)
qed auto

lemma leaf_type_string: "leaf_type l = EntryString \<Longrightarrow> \<exists>s. l = JString s"
  by (cases l) simp_all

lemma FlattenJson_utf8:
  assumes "FlattenJson lexer dtoa fails s out = Returned (Ok, res)"
  shows "utf8_json (document res)"
    "e \<in> set (entries res) \<Longrightarrow> utf8_text (entry_key e) \<and> (entry_type e = EntryString \<longrightarrow> utf8_text (entry_value e))"
proof -
  have "\<not> fails"
    using assms by (auto simp: FlattenJson_def split: if_splits)
  with assms obtain t u where t: "json_text t u" "res = \<lparr>document = collapse t, entries = flat_entries dtoa (collapse t)\<rparr>"
    using FlattenJson_text_iff by auto
  have u: "utf8_json (collapse t)"
    using t(1) spells_utf8 utf8_value_tokens utf8_collapse by (auto simp: json_text_def)
  then show "utf8_json (document res)" using t(2) by simp
  assume "e \<in> set (entries res)"
  then obtain p l where l: "(p, l) \<in> set (leaves (collapse t))" "entry_key e = pointer_of p"
    "entry_value e = leaf_text dtoa l" "entry_type e = leaf_type l"
    using t(2) by (auto simp: entries_at_def)
  from utf8_leaves [OF u l(1)] have "list_all utf8_text p" "utf8_json l" by simp_all
  then show "utf8_text (entry_key e) \<and> (entry_type e = EntryString \<longrightarrow> utf8_text (entry_value e))"
    using l utf8_pointer by (auto dest: leaf_type_string)
qed

section \<open>Properties\<close>

text \<open>The string scanner succeeds exactly on characters of the JSON grammar up to an unescaped
  quote: UTF-8 of unescaped code points, short escapes, hex escapes of scalar values and surrogate
  pairs. Its token is the UTF-8 of the code points written.\<close>
theorem string_scanner_exact:
  "scan_string s = (ValueString t, r) \<longleftrightarrow>
     (\<exists>js. list_all jchar_ok js \<and> s = string_text js @ quot # r \<and> t = string_value js)"
  by (rule scan_string_exact)

text \<open>C8: The lexer's next token is exactly what the JSON grammar reads there: behind whitespace, a
  punctuation mark, a literal, a string of well-formed UTF-8 and valid escapes, or the longest
  number, taken whole and with the value its text stands for.\<close>
theorem next_token_exact:
  "scan_token s = (tok, r) \<and> tok \<noteq> LexError \<and> tok \<noteq> EndOfInput \<longleftrightarrow>
     (\<exists>ws u. list_all is_whitespace ws \<and> s = ws @ u @ r \<and> token_text tok u r)"
  using scan_token_exact [of tok s r] token_text_clean [of tok _ r] by blast

text \<open>C3: \<open>FlattenJson\<close> over the library's lexer succeeds exactly on a non-empty text of at most 1 MiB
  without NUL that is, after quote conversion and behind an optional byte order mark, JSON text of
  a value with finite numbers within the limits. It returns that value with its leaves as entries.\<close>
theorem flatten_text_exact:
  "FlattenJson lexer dtoa False s out = Returned (Ok, res) \<longleftrightarrow>
     acceptable_text s \<and>
     (\<exists>t u. skip_bom (quoted s) = (True, u) \<and> json_text t u \<and> finite_floats t \<and> within_limits t \<and>
        res = \<lparr>document = collapse t, entries = flat_entries dtoa (collapse t)\<rparr>)"
  by (rule FlattenJson_text_iff)

text \<open>C11: Every key and string of a document that \<open>FlattenJson\<close> builds, every path it lists and every
  string value is well-formed UTF-8, whatever bytes the text held.\<close>
theorem flatten_text_utf8:
  assumes "FlattenJson lexer dtoa fails s out = Returned (Ok, res)"
  shows "utf8_json (document res) \<and>
    (\<forall>e \<in> set (entries res). utf8_text (entry_key e) \<and> (entry_type e = EntryString \<longrightarrow> utf8_text (entry_value e)))"
  using FlattenJson_utf8 [OF assms] by blast

text \<open>An array with one string, written with a hex escape.\<close>

definition sample_text :: string where
  "sample_text = ''['' @ [quot, bslash] @ ''u00e9'' @ [quot] @ '']''"

definition sample_value :: json where
  "sample_value = JArray [JString [CHR 0xC3, CHR 0xA9]]"

lemma sample_json_text: "json_text sample_value sample_text"
proof -
  have "string_value [Hex ''00e9''] = [CHR 0xC3, CHR 0xA9]" by code_simp
  moreover have "hex4 ''00e9'' = Some 233" by code_simp
  ultimately have "string_token_text [CHR 0xC3, CHR 0xA9] ([quot, bslash] @ ''u00e9'' @ [quot])"
    unfolding string_token_text_def by (intro exI [of _ "[Hex ''00e9'']"]) (simp add: scalar_value_def)
  then have "spells [BeginArray, ValueString [CHR 0xC3, CHR 0xA9], EndArray]
      ([] @ ''['' @ [] @ ([quot, bslash] @ ''u00e9'' @ [quot]) @ [] @ '']'' @ [])"
    by (intro spells_Cons spells_Nil) simp_all
  then show ?thesis by (simp add: json_text_def sample_value_def sample_text_def)
qed

lemma sample_text_run:
  "FlattenJson lexer (\<lambda>d. []) False sample_text empty_result =
     Returned (Ok, \<lparr>document = sample_value, entries = flat_entries (\<lambda>d. []) sample_value\<rparr>)"
proof -
  have leaves: "leaves sample_value = [([''0''], JString [CHR 0xC3, CHR 0xA9])]" by (simp add: sample_value_def)
  have "within_limits sample_value"
    unfolding within_limits_def leaves
    by (simp add: sample_value_def key_bytes_def kMaxJsonDepth_def kMaxFlatEntries_def kMaxFlatKeyBytes_def)
  moreover have "acceptable_text sample_text" by (simp add: acceptable_text_def sample_text_def kMaxJsonInputBytes_def)
  moreover have "finite_floats sample_value" "collapse sample_value = sample_value" by (simp_all add: sample_value_def)
  ultimately show ?thesis using FlattenJson_text [OF sample_json_text] by metis
qed

theorem flatten_text_utf8_witness: "utf8_json sample_value"
  using flatten_text_utf8 [OF sample_text_run] by simp

end
