(* ===== verification/Json_Round_Trip.thy ===== *)
theory Json_Round_Trip
  imports Json_Text Json_Text_Api
begin

text \<open>
  Documents written as text and read again. The writer is a specification that gives every value
  one text that stands for it, and models no code: the program writes no documents, it dumps numbers
  and booleans only. It puts no whitespace, escapes quotes, backslashes and control characters, and
  takes the text of a float from the number printer that \<open>FlattenJson\<close> uses for its entries. A
  signed integer is what the parser makes of a text with a minus sign, so its text has one, also
  for \<open>-0\<close>.
\<close>

section \<open>The writer\<close>

definition hex_char :: "nat \<Rightarrow> char" where
  "hex_char d = char_of (if d < 10 then 48 + d else 87 + d)"

definition write_char :: "char \<Rightarrow> string" where
  "write_char c =
     (let n = of_char c :: nat in
      if c = quot \<or> c = bslash then [bslash, c]
      else if n < 0x20 then bslash # ''u00'' @ [hex_char (n div 16), hex_char (n mod 16)]
      else [c])"

definition write_string :: "string \<Rightarrow> string" where
  "write_string s = quot # concat (map write_char s) @ [quot]"

fun comma_join :: "string list \<Rightarrow> string" where
  "comma_join [] = []"
| "comma_join [x] = x"
| "comma_join (x # y # zs) = x @ CHR '','' # comma_join (y # zs)"

fun write_json :: "(f64 \<Rightarrow> string) \<Rightarrow> json \<Rightarrow> string" where
  "write_json dtoa JNull = ''null''"
| "write_json dtoa (JBool b) = (if b then ''true'' else ''false'')"
| "write_json dtoa (JInt z) = CHR ''-'' # to_string (nat (- sint z))"
| "write_json dtoa (JUInt n) = to_string (unat n)"
| "write_json dtoa (JFloat d) = dtoa d"
| "write_json dtoa (JString s) = write_string s"
| "write_json dtoa (JArray xs) = CHR ''['' # comma_join (map (write_json dtoa) xs) @ '']''"
| "write_json dtoa (JObject fs) =
     CHR ''{'' # comma_join (map (\<lambda>f. write_string (fst f) @ CHR '':'' # write_json dtoa (snd f)) fs) @ ''}''"

text \<open>The number printer's text of a double is a number text that reads back as the double.\<close>

definition reads_back :: "(f64 \<Rightarrow> string) \<Rightarrow> f64 \<Rightarrow> bool" where
  "reads_back dtoa d \<longleftrightarrow>
     (\<exists>sg w f e. sg \<in> {[], ''-''} \<and> whole_part w \<and> fraction_part f \<and> exponent_part e \<and> (f \<noteq> [] \<or> e \<noteq> []) \<and>
        dtoa d = sg @ w @ f @ e \<and> strtod (dtoa d) = d)"

fun floats_read_back :: "(f64 \<Rightarrow> string) \<Rightarrow> json \<Rightarrow> bool" where
  "floats_read_back dtoa (JFloat d) = reads_back dtoa d"
| "floats_read_back dtoa (JArray xs) = (\<forall>x \<in> set xs. floats_read_back dtoa x)"
| "floats_read_back dtoa (JObject fs) = (\<forall>f \<in> set fs. floats_read_back dtoa (snd f))"
| "floats_read_back dtoa _ = True"

text \<open>Signed integers come from a text with a minus sign.\<close>

fun signed_ok :: "json \<Rightarrow> bool" where
  "signed_ok (JInt z) = (sint z \<le> 0)"
| "signed_ok (JArray xs) = (\<forall>x \<in> set xs. signed_ok x)"
| "signed_ok (JObject fs) = (\<forall>f \<in> set fs. signed_ok (snd f))"
| "signed_ok _ = True"

section \<open>Strings\<close>

lemma string_value_Raw: "string_value [Raw n] = utf8 n"
  by simp

lemma hex_value_hex_char: "d < 16 \<Longrightarrow> hex_value (hex_char d) = Some d"
  by (auto simp: hex_value_def hex_char_def)

lemma hex4_control:
  assumes "n < 0x20"
  shows "hex4 [CHR ''0'', CHR ''0'', hex_char (n div 16), hex_char (n mod 16)] = Some n"
proof -
  have "n div 16 < 16" "n mod 16 < 16" using assms by simp_all
  moreover have "hex_value (CHR ''0'') = Some 0" by (simp add: hex_value_def)
  ultimately show ?thesis by (simp add: hex4_def hex_value_hex_char)
qed

definition written_char :: "char \<Rightarrow> jchar" where
  "written_char c =
     (let n = of_char c :: nat in
      if c = quot \<or> c = bslash then Short c
      else if n < 0x20 then Hex [CHR ''0'', CHR ''0'', hex_char (n div 16), hex_char (n mod 16)]
      else Raw n)"

lemma written_ascii:
  assumes "(of_char c :: nat) < 0x80"
  shows "jchar_ok (written_char c) \<and> jchar_text (written_char c) = write_char c \<and> utf8 (jchar_value (written_char c)) = [c]"
proof (cases "c = quot \<or> c = bslash")
  case True
  then have "simple_escape c = Some c" by (auto simp: simple_escape_def)
  with True short_value [OF this] show ?thesis by (auto simp: written_char_def write_char_def)
next
  case plain: False
  show ?thesis
  proof (cases "(of_char c :: nat) < 0x20")
    case True
    with plain hex4_control [OF True] show ?thesis
      by (simp add: written_char_def write_char_def Let_def scalar_value_def utf8_def)
  next
    case False
    with plain assms plain_char [of c] show ?thesis by (simp add: written_char_def write_char_def Let_def)
  qed
qed

text \<open>The characters behind the written form of a code point.\<close>

definition written :: "nat \<Rightarrow> jchar" where
  "written n = (if n < 0x80 then written_char (char_of n) else Raw n)"

lemma written_ok:
  assumes "scalar_value n"
  shows "jchar_ok (written n) \<and> jchar_text (written n) = concat (map write_char (utf8 n)) \<and> utf8 (jchar_value (written n)) = utf8 n"
proof (cases "n < 0x80")
  case True
  then have "(of_char (char_of n :: char) :: nat) = n" "utf8 n = [char_of n]" by (simp_all add: utf8_def)
  with True written_ascii [of "char_of n"] show ?thesis by (simp add: written_def)
next
  case False
  have "write_char c = [c]" if "c \<in> set (utf8 n)" for c
    using utf8_high [OF assms _ that] False by (auto simp: write_char_def Let_def)
  then have "concat (map write_char s) = s" if "set s \<subseteq> set (utf8 n)" for s
    using that by (induction s) auto
  with False assms show ?thesis by (simp add: written_def)
qed

lemma write_string_text: "utf8_text s \<Longrightarrow> string_token_text s (write_string s)"
proof -
  assume "utf8_text s"
  then obtain ns where ns: "list_all scalar_value ns" "s = concat (map utf8 ns)" by (auto simp: utf8_text_def)
  have "list_all jchar_ok (map written ns)" "concat (map write_char (concat (map utf8 ns))) = string_text (map written ns)"
      "concat (map utf8 ns) = string_value (map written ns)"
    using ns(1) by (induction ns) (simp_all add: written_ok del: jchar_ok.simps)
  then show ?thesis unfolding string_token_text_def write_string_def ns(2) by metis
qed

section \<open>Written documents are JSON text\<close>

definition delimited :: "string \<Rightarrow> bool" where
  "delimited r \<longleftrightarrow> r = [] \<or> hd r \<in> {CHR '','', CHR '']'', CHR ''}''}"

lemma delimited_ends: "delimited r \<Longrightarrow> number_ends w f e r"
  by (auto simp: delimited_def number_ends_def IsDigit_def)

lemma delimited_simps [simp]:
  "delimited []" "delimited (CHR '','' # r)" "delimited (CHR '']'' # r)" "delimited (CHR ''}'' # r)"
  by (simp_all add: delimited_def)

lemma spells_token: "token_text tok u r \<Longrightarrow> spells toks r \<Longrightarrow> spells (tok # toks) (u @ r)"
  using spells_Cons [of "[]" tok u r toks] by simp

lemma spells_mark:
  "token_text tok [c] r \<Longrightarrow> spells toks r \<Longrightarrow> spells (tok # toks) (c # r)"
  using spells_token [of tok "[c]"] by simp

lemma whole_part_to_string: "whole_part (to_string n)"
proof (cases "n = 0")
  case True
  then show ?thesis by (simp add: whole_part_def digits_def)
next
  case False
  then show ?thesis using hd_to_string [of n] to_string_digits [of _ n] by (auto simp: whole_part_def digits_def list_all_iff)
qed

lemma empty_parts [simp]: "fraction_part []" "exponent_part []"
  by (simp_all add: fraction_part_def exponent_part_def)

lemma unsigned_text:
  assumes "delimited r"
  shows "number_text (ValueUnsigned n) (to_string (unat n)) r"
proof -
  have "unat n < 2 ^ 64" using unsigned_less [of n] by simp
  then show ?thesis unfolding number_text_iff
    by (intro exI [of _ "[]"] exI [of _ "to_string (unat n)"])
      (simp add: whole_part_to_string delimited_ends [OF assms] number_type_of_def number_sign_def number_token_def)
qed

lemma signed_text:
  assumes "delimited r" "sint z \<le> 0"
  shows "number_text (ValueInteger z) (CHR ''-'' # to_string (nat (- sint z))) r"
proof -
  have "- (2 ^ 63) \<le> sint z" using sint_ge [of z] by simp
  then have "nat (- sint z) \<le> 2 ^ 63" by simp
  moreover have "of_int (- int (nat (- sint z))) = z" using assms(2) by simp
  ultimately show ?thesis unfolding number_text_iff
    by (intro exI [of _ "''-''"] exI [of _ "to_string (nat (- sint z))"] exI [of _ "[]"])
      (simp add: whole_part_to_string delimited_ends [OF assms(1)] number_type_of_def number_sign_def number_token_def)
qed

lemma float_text: "delimited r \<Longrightarrow> reads_back dtoa d \<Longrightarrow> number_text (ValueFloat d) (dtoa d) r"
proof -
  assume r: "delimited r" and "reads_back dtoa d"
  then obtain sg w f e where d: "sg \<in> {[], ''-''}" "whole_part w" "fraction_part f" "exponent_part e" "f \<noteq> [] \<or> e \<noteq> []"
    "dtoa d = sg @ w @ f @ e" "strtod (dtoa d) = d" unfolding reads_back_def by blast
  then have "number_type_of (number_sign sg) f e = Float" by (auto simp: number_type_of_def)
  with d delimited_ends [OF r, of w f e] show ?thesis unfolding number_text_iff
    by (intro exI [of _ sg] exI [of _ w] exI [of _ f] exI [of _ e]) (simp only: number_token_def number_type.case simp_thms)
qed

text \<open>The written value in front of text that spells further tokens.\<close>

definition written_spells :: "(f64 \<Rightarrow> string) \<Rightarrow> json \<Rightarrow> bool" where
  "written_spells dtoa t \<longleftrightarrow>
     (\<forall>toks r. delimited r \<longrightarrow> spells toks r \<longrightarrow> spells (value_tokens t @ toks) (write_json dtoa t @ r))"

lemma written_scalar:
  assumes "\<And>r. delimited r \<Longrightarrow> token_text tok (write_json dtoa t) r" "value_tokens t = [tok]"
  shows "written_spells dtoa t"
  using assms by (simp add: written_spells_def spells_token)

lemma spells_join:
  assumes "\<And>x toks r. x \<in> set xs \<Longrightarrow> delimited r \<Longrightarrow> spells toks r \<Longrightarrow> spells (g x @ toks) (h x @ r)"
    and "xs \<noteq> []" "delimited r" "spells toks r"
  shows "spells (sep_tokens (map g xs) @ toks) (comma_join (map h xs) @ r)"
  using assms(1,2)
proof (induction xs)
  case (Cons x xs)
  show ?case
  proof (cases xs)
    case Nil
    then show ?thesis using Cons.prems(1) assms(3,4) by simp
  next
    case (Cons y ys)
    have "spells (sep_tokens (map g xs) @ toks) (comma_join (map h xs) @ r)"
      by (rule Cons.IH) (use Cons.prems(1) Cons in auto)
    then have "spells (ValueSeparator # sep_tokens (map g xs) @ toks) (CHR '','' # comma_join (map h xs) @ r)"
      by (rule spells_mark [rotated]) simp
    then have "spells (g x @ ValueSeparator # sep_tokens (map g xs) @ toks) (h x @ CHR '','' # comma_join (map h xs) @ r)"
      by (intro Cons.prems(1)) simp_all
    then show ?thesis using Cons by simp
  qed
qed simp

lemma spells_closed:
  assumes "\<And>x toks r. x \<in> set xs \<Longrightarrow> delimited r \<Longrightarrow> spells toks r \<Longrightarrow> spells (g x @ toks) (h x @ r)"
    and "spells (final # toks) (c # r)" "delimited (c # r)" "token_text first [b] (comma_join (map h xs) @ c # r)"
  shows "spells (first # sep_tokens (map g xs) @ final # toks) (b # comma_join (map h xs) @ c # r)"
proof (rule spells_mark)
  show "spells (sep_tokens (map g xs) @ final # toks) (comma_join (map h xs) @ c # r)"
  proof (cases "xs = []")
    case False
    from spells_join [of xs g h, OF assms(1) this assms(3,2)] show ?thesis by simp
  qed (use assms(2) in simp)
qed (fact assms(4))

lemma written: "utf8_json t \<Longrightarrow> signed_ok t \<Longrightarrow> floats_read_back dtoa t \<Longrightarrow> written_spells dtoa t"
proof (induction t)
  case (JArray xs)
  show ?case unfolding written_spells_def
  proof (intro allI impI)
    fix toks r assume "delimited r" "spells toks r"
    then have "spells (EndArray # toks) (CHR '']'' # r)" by (intro spells_mark) simp_all
    then have "spells (BeginArray # sep_tokens (map value_tokens xs) @ EndArray # toks)
        (CHR ''['' # comma_join (map (write_json dtoa) xs) @ CHR '']'' # r)"
      using JArray by (intro spells_closed) (simp_all add: written_spells_def)
    then show "spells (value_tokens (JArray xs) @ toks) (write_json dtoa (JArray xs) @ r)" by simp
  qed
next
  case (JObject fs)
  let ?g = "\<lambda>f. ValueString (fst f) # NameSeparator # value_tokens (snd f)"
  let ?h = "\<lambda>f. write_string (fst f) @ CHR '':'' # write_json dtoa (snd f)"
  have field: "spells (?g f @ toks) (?h f @ r)" if f: "f \<in> set fs" "delimited r" "spells toks r" for f toks r
  proof -
    have "written_spells dtoa (snd f)" using JObject f(1) by (auto simp: snds.simps)
    then have "spells (value_tokens (snd f) @ toks) (write_json dtoa (snd f) @ r)" using f(2,3) by (simp add: written_spells_def)
    then have "spells (NameSeparator # value_tokens (snd f) @ toks) (CHR '':'' # write_json dtoa (snd f) @ r)"
      by (rule spells_mark [rotated]) simp
    moreover have "utf8_text (fst f)" using JObject.prems(1) f(1) by auto
    ultimately show ?thesis using spells_token [of "ValueString (fst f)" "write_string (fst f)"] write_string_text by simp
  qed
  show ?case unfolding written_spells_def
  proof (intro allI impI)
    fix toks r assume "delimited r" "spells toks r"
    then have "spells (EndObject # toks) (CHR ''}'' # r)" by (intro spells_mark) simp_all
    then have "spells (BeginObject # sep_tokens (map ?g fs) @ EndObject # toks) (CHR ''{'' # comma_join (map ?h fs) @ CHR ''}'' # r)"
      using field by (intro spells_closed) simp_all
    then show "spells (value_tokens (JObject fs) @ toks) (write_json dtoa (JObject fs) @ r)" by simp
  qed
qed (auto intro!: written_scalar simp: unsigned_text signed_text float_text write_string_text)

theorem write_json_text:
  assumes "utf8_json t" "signed_ok t" "floats_read_back dtoa t"
  shows "json_text t (write_json dtoa t)"
proof -
  have "spells [] []" by (simp add: spells_Nil)
  then have "spells (value_tokens t @ []) (write_json dtoa t @ [])"
    using written [OF assms] delimited_simps(1) unfolding written_spells_def by blast
  then show ?thesis by (simp add: json_text_def)
qed

section \<open>Texts have no NUL\<close>

lemma jchar_no_NUL: "jchar_ok j \<Longrightarrow> NUL \<notin> set (jchar_text j)"
proof (cases j)
  case (Raw n)
  assume ok: "jchar_ok j"
  show ?thesis
  proof (cases "n < 0x80")
    case True
    then have "(of_char (char_of n :: char) :: nat) = n" by simp
    then have "char_of n \<noteq> NUL" using ok Raw by force
    then show ?thesis using True Raw by (simp add: utf8_def)
  next
    case False
    then show ?thesis using utf8_high [of n NUL] ok Raw by auto
  qed
next
  case (Short e)
  then show "jchar_ok j \<Longrightarrow> ?thesis" by (auto simp: simple_escape_def)
next
  case (Hex h)
  then show "jchar_ok j \<Longrightarrow> ?thesis" using hex4_chars [of h _ NUL] by (auto simp: hex_value_def)
next
  case (Pair h k)
  then show "jchar_ok j \<Longrightarrow> ?thesis" using hex4_chars [of h _ NUL] hex4_chars [of k _ NUL] by (auto simp: hex_value_def)
qed

lemma token_no_NUL: "token_text tok u r \<Longrightarrow> NUL \<notin> set u"
proof -
  assume t: "token_text tok u r"
  have number: "NUL \<notin> set u" if "number_text tok u r"
    using number_text_chars [OF that, of NUL] by (auto simp: IsDigit_def)
  show ?thesis
  proof (cases tok)
    case (ValueString x)
    then obtain js where "list_all jchar_ok js" "u = quot # string_text js @ [quot]"
      using t by (auto simp: string_token_text_def)
    moreover from this(1) have "NUL \<notin> set (string_text js)" by (induction js) (simp_all add: jchar_no_NUL)
    ultimately show ?thesis by simp
  qed (use t number in auto)
qed

lemma spells_no_NUL: "spells toks s \<Longrightarrow> NUL \<notin> set s"
proof (induction rule: spells.induct)
  case (spells_Nil ws)
  then show ?case by (force simp: list_all_iff is_whitespace_def)
next
  case (spells_Cons ws tok u r toks)
  then have "NUL \<notin> set ws" by (force simp: list_all_iff is_whitespace_def)
  then show ?case using spells_Cons token_no_NUL by auto
qed

lemma json_text_acceptable: "json_text t s \<Longrightarrow> length s \<le> kMaxJsonInputBytes \<Longrightarrow> acceptable_text s"
proof -
  assume t: "json_text t s" "length s \<le> kMaxJsonInputBytes"
  then have "NUL \<notin> set s" using spells_no_NUL by (simp add: json_text_def)
  moreover have "s \<noteq> []"
  proof
    assume "s = []"
    then have "lex_from s = []" by (simp add: lex_from.simps)
    then show False using lex_spelled t(1) value_tokens_nonempty [of t] by (fastforce simp: json_text_def)
  qed
  ultimately show ?thesis using t(2) by (simp add: acceptable_text_def)
qed

section \<open>Documents the parser builds can be written\<close>

lemma finite_collapse: "finite_floats t \<Longrightarrow> finite_floats (collapse t)"
proof (induction t)
  case (JObject fs)
  have "finite_floats (snd f)" if "f \<in> set (collapse_fields fs)" for f
    using that set_collapse_fields [of fs] JObject by (fastforce simp: snds.simps)
  then show ?case unfolding collapse_object by simp
qed auto

lemma signed_collapse: "signed_ok t \<Longrightarrow> signed_ok (collapse t)"
proof (induction t)
  case (JObject fs)
  have "signed_ok (snd f)" if "f \<in> set (collapse_fields fs)" for f
    using that set_collapse_fields [of fs] JObject by (fastforce simp: snds.simps)
  then show ?case unfolding collapse_object by simp
qed auto

definition signed_tokens :: "token list \<Rightarrow> bool" where
  "signed_tokens toks \<longleftrightarrow> (\<forall>z. ValueInteger z \<in> set toks \<longrightarrow> sint z \<le> 0)"

lemma signed_tokens_simps [simp]:
  "signed_tokens []"
  "signed_tokens (tok # toks) \<longleftrightarrow> (\<forall>z. tok = ValueInteger z \<longrightarrow> sint z \<le> 0) \<and> signed_tokens toks"
  "signed_tokens (ts @ us) \<longleftrightarrow> signed_tokens ts \<and> signed_tokens us"
  by (auto simp: signed_tokens_def)

lemma number_token_signed: "number_token ty buf = ValueInteger z \<Longrightarrow> sint z \<le> 0"
proof -
  assume "number_token ty buf = ValueInteger z"
  then have v: "dec_value (tl buf) \<le> 2 ^ 63" "z = of_int (- int (dec_value (tl buf)))"
    by (auto simp: number_token_def split: number_type.splits if_splits)
  have "sint (of_int (- int (dec_value (tl buf))) :: i64) = - int (dec_value (tl buf))"
    by (rule sint_of_int64) (use v(1) in simp_all)
  then show ?thesis unfolding v(2) by simp
qed

lemma spells_signed: "spells toks s \<Longrightarrow> signed_tokens toks"
proof (induction rule: spells.induct)
  case (spells_Cons ws tok u r toks)
  have "sint z \<le> 0" if "tok = ValueInteger z" for z
    using spells_Cons(2) number_token_signed that by (auto simp: number_text_iff)
  then show ?case using spells_Cons by simp
qed simp

lemma signed_tokens_sep: "signed_tokens (sep_tokens tss) \<longleftrightarrow> (\<forall>ts \<in> set tss. signed_tokens ts)"
  by (induction tss rule: sep_tokens.induct) auto

lemma signed_value_tokens: "signed_tokens (value_tokens t) \<longleftrightarrow> signed_ok t"
proof (induction t)
  case (JObject fs)
  then show ?case by (auto simp: signed_tokens_sep snds.simps)
qed (auto simp: signed_tokens_sep)

lemma FlattenJson_writable:
  assumes "FlattenJson lexer dtoa fails s out = Returned (Ok, res)"
  shows "utf8_json (document res) \<and> signed_ok (document res) \<and> wf_json (document res) \<and>
    finite_floats (document res) \<and> within_limits (document res) \<and> entries res = flat_entries dtoa (document res)"
proof -
  have "\<not> fails" using assms by (auto simp: FlattenJson_def split: if_splits)
  with assms obtain t u where t: "json_text t u" "finite_floats t" "within_limits t"
    "res = \<lparr>document = collapse t, entries = flat_entries dtoa (collapse t)\<rparr>"
    using FlattenJson_text_iff by auto
  moreover have "signed_ok (collapse t)"
    using t(1) spells_signed signed_value_tokens signed_collapse by (auto simp: json_text_def)
  ultimately show ?thesis
    using FlattenJson_utf8(1) [OF assms] wf_collapse finite_collapse within_limits_collapse by simp
qed

lemma FlattenJson_written:
  assumes "utf8_json t" "signed_ok t" "floats_read_back dtoa t" "wf_json t" "finite_floats t" "within_limits t"
    "length (write_json dtoa t) \<le> kMaxJsonInputBytes"
  shows "FlattenJson lexer dtoa False (write_json dtoa t) out = Returned (Ok, \<lparr>document = t, entries = flat_entries dtoa t\<rparr>)"
proof -
  note w = write_json_text [OF assms(1-3)]
  from FlattenJson_text [OF w json_text_acceptable [OF w assms(7)] assms(5,6)] show ?thesis
    by (simp add: collapse_wf [OF assms(4)])
qed

section \<open>Parsing a text into the store and reading from it\<close>

lemma ParseJsonDocument_text:
  assumes "store_ok dtoa s" "card (dom (lookup_document s)) < kJsonDocumentSlotCount"
    and "json_text t str" "length str \<le> kMaxJsonInputBytes" "finite_floats t" "within_limits t" "length str < unat n"
  obtains i s' where "ParseJsonDocument lexer dtoa False False ticks (Buf (str @ NUL # junk)) n s = Some (Ok, i, s')"
    "lookup_document s' = (lookup_document s)(i \<mapsto> \<lparr>document = collapse t, entries = flat_entries dtoa (collapse t)\<rparr>)"
proof -
  let ?r = "\<lparr>document = collapse t, entries = flat_entries dtoa (collapse t)\<rparr>"
  note ok = json_text_acceptable [OF assms(3,4)]
  from FlattenJson_text [OF assms(3) ok assms(5,6)] have flat: "FlattenJson lexer dtoa False str out = Returned (Ok, ?r)" for out .
  obtain st i s' where ins: "InsertDocument ticks ?r 0 s = Some (st, i, s')"
    using store.insert_total [OF assms(1)] by (metis option.exhaust prod.exhaust)
  have "st = Ok"
    using store.insert_fails [OF ins] ins InsertDocument_full [OF assms(1), of ticks ?r 0 i s'] assms(2) by auto
  moreover have "result_ok dtoa ?r" using FlattenJson_result_ok [OF flat] .
  moreover have "NUL \<notin> set str" using ok by (simp add: acceptable_text_def)
  ultimately show thesis
    using that [of i s'] ins flat store.insert_Ok [OF assms(1), of ?r ticks 0 i s'] assms(7)
    by (simp add: ParseJsonDocument_def mem_simps)
qed

lemma pointer_no_NUL:
  assumes "reaches v ts node" "\<not> IsNonEmptyContainer node" "\<not> nul_in_key v"
  shows "NUL \<notin> set (pointer_of ts)"
  using nul_free_pointer reach_leaves assms by blast

lemma ReadJsonLong_stored:
  assumes "lookup_document s i = Some r" "reaches (document r) ts node" "ToLong node 0 = (Ok, v)" "\<not> nul_in_key (document r)"
    "length (pointer_of ts) < unat n"
  shows "ReadJsonLong False i (Buf (pointer_of ts @ NUL # junk)) n s = Some (Ok, v)"
proof -
  have "\<not> IsNonEmptyContainer node" 
  proof (cases "is_array node \<or> is_object node")
    case True
    then show ?thesis using assms(3) by (cases node) (simp_all add: json_kind_defs)
  qed (simp add: IsNonEmptyContainer_def)
  then have nul: "NUL \<notin> set (pointer_of ts)" using pointer_no_NUL assms(2,4) by blast
  then have "c_string (pointer_of ts @ NUL # junk) = pointer_of ts" by (rule c_string_terminated)
  moreover have "NUL \<in> set (take (unat n) (pointer_of ts @ NUL # junk))" using assms(5) by (simp add: take_Cons')
  ultimately show ?thesis using assms(1-3)
    unfolding ReadJsonLong_def long_read.ReadTypedAt_Ok_iff long_of_Some by auto
qed

section \<open>Conversion and parsing\<close>

text \<open>
  Converting a text first changes nothing about what it parses to, as long as the escapes the
  conversion adds leave it within the size limit.
\<close>

lemma quoted_quoted: "quoted (quoted s) = quoted s"
  using convert_standard [of Outside s] no_apostrophe_standard
  by (simp add: quoted_def ConvertApostropheStrings_def convert_idempotent)

lemma convert_nonempty: "s \<noteq> [] \<Longrightarrow> convert_from st s \<noteq> []"
  by (cases st; cases s) (auto simp: Let_def)

lemma quoted_normal_form: "normal_form s = quoted s"
  using convert_standard [of Outside s] no_apostrophe_standard
  by (simp add: normal_form_def quoted_def ConvertApostropheStrings_def)

lemma converted_text_flattens_alike:
  assumes "length (quoted s) \<le> kMaxJsonInputBytes" "acceptable_text s"
  shows "FlattenJson L dtoa fails (quoted s) out = FlattenJson L dtoa fails s out"
proof -
  have "quoted s \<noteq> []" using assms(2) convert_nonempty [of s Outside]
    by (simp add: acceptable_text_def quoted_def ConvertApostropheStrings_def)
  moreover have "NUL \<notin> set (quoted s)" using assms(2) quoted_NUL by (simp add: acceptable_text_def)
  ultimately have ok: "acceptable_text (quoted s)" using assms(1) by (simp add: acceptable_text_def)
  show ?thesis
  proof (cases fails)
    case True
    then show ?thesis using assms(2) ok by (simp add: FlattenJson_def acceptable_text_def)
  next
    case False
    with FlattenJson_acceptable [OF ok] FlattenJson_acceptable [OF assms(2)] show ?thesis by (simp only: quoted_quoted)
  qed
qed

lemma ParseJsonDocument_converted:
  assumes "NUL \<in> set (take (unat n) b)" "acceptable_text (c_string b)"
    and "length (quoted (c_string b)) < unat m" "unat m \<le> Suc kMaxJsonInputBytes"
  shows "ParseJsonDocument L dtoa ft it ticks (Buf (quoted (c_string b) @ NUL # rest)) m s =
    ParseJsonDocument L dtoa ft it ticks (Buf b) n s"
proof -
  have "NUL \<notin> set (quoted (c_string b))" using assms(2) quoted_NUL by (simp add: acceptable_text_def)
  moreover have "FlattenJson L dtoa ft (quoted (c_string b)) out = FlattenJson L dtoa ft (c_string b) out" for out
    by (rule converted_text_flattens_alike) (use assms in simp_all)
  ultimately show ?thesis using assms(1,3) by (simp add: ParseJsonDocument_def mem_simps)
qed

section \<open>What a number printer promises\<close>

text \<open>The text of every finite double reads back; then so do the documents written with the printer.\<close>

locale number_printer =
  fixes dtoa :: "f64 \<Rightarrow> string"
  assumes print_reads_back: "is_finite_fp (decode_f64 d) \<Longrightarrow> reads_back dtoa d"
begin

lemma finite_floats_read_back: "finite_floats t \<Longrightarrow> floats_read_back dtoa t"
  by (induction t) (auto simp: print_reads_back)

lemma written_text: "utf8_json t \<Longrightarrow> signed_ok t \<Longrightarrow> finite_floats t \<Longrightarrow> json_text t (write_json dtoa t)"
  by (intro write_json_text finite_floats_read_back)

lemma flatten_document:
  "utf8_json t \<Longrightarrow> signed_ok t \<Longrightarrow> wf_json t \<Longrightarrow> finite_floats t \<Longrightarrow> within_limits t \<Longrightarrow>
     length (write_json dtoa t) \<le> kMaxJsonInputBytes \<Longrightarrow>
     FlattenJson lexer dtoa False (write_json dtoa t) out = Returned (Ok, \<lparr>document = t, entries = flat_entries dtoa t\<rparr>)"
  by (intro FlattenJson_written finite_floats_read_back)

lemma flatten_again:
  assumes "FlattenJson lexer dtoa fails s out = Returned (Ok, res)" "length (write_json dtoa (document res)) \<le> kMaxJsonInputBytes"
  shows "FlattenJson lexer dtoa False (write_json dtoa (document res)) out' = Returned (Ok, res)"
  using FlattenJson_writable [OF assms(1)] flatten_document [of "document res" out'] assms(2) by simp

end

section \<open>Properties\<close>

text \<open>A document that \<open>FlattenJson\<close> built from any text, written out as JSON text again and flattened
  once more, gives the same document and the same entries, if that text is within the limit of
  1 MiB (escaped control characters can make it longer than the text it came from).\<close>
theorem flatten_write_flatten:
  assumes "FlattenJson lexer dtoa fails s out = Returned (Ok, res)"
    and "floats_read_back dtoa (document res)" "length (write_json dtoa (document res)) \<le> kMaxJsonInputBytes"
  shows "FlattenJson lexer dtoa False (write_json dtoa (document res)) out' = Returned (Ok, res)"
  using FlattenJson_writable [OF assms(1)] FlattenJson_written [of "document res" dtoa out'] assms(2,3) by simp

theorem flatten_write_flatten_witness:
  "FlattenJson lexer (\<lambda>d. []) False (''['' @ [quot, CHR 0xC3, CHR 0xA9, quot] @ '']'') empty_result =
     Returned (Ok, \<lparr>document = sample_value, entries = flat_entries (\<lambda>d. []) sample_value\<rparr>)"
proof -
  let ?res = "\<lparr>document = sample_value, entries = flat_entries (\<lambda>d. []) sample_value\<rparr>"
  have w: "write_json (\<lambda>d. []) sample_value = ''['' @ [quot, CHR 0xC3, CHR 0xA9, quot] @ '']''"
    by (simp add: sample_value_def write_string_def write_char_def Let_def)
  have "floats_read_back (\<lambda>d. []) (document ?res)" by (simp add: sample_value_def)
  moreover have "length (write_json (\<lambda>d. []) (document ?res)) \<le> kMaxJsonInputBytes" using w by (simp add: kMaxJsonInputBytes_def)
  ultimately have "FlattenJson lexer (\<lambda>d. []) False (write_json (\<lambda>d. []) (document ?res)) empty_result = Returned (Ok, ?res)"
    by (rule flatten_write_flatten [OF sample_text_run])
  then show ?thesis by (simp only: w FlattenResult.select_convs)
qed

text \<open>C36: A text normalized into a buffer of at most 1 MiB and then parsed from that buffer gives exactly what
  parsing the text itself gives: the same status, id and store.\<close>
theorem normalize_then_parse:
  assumes "buf_ok p n" "buf_ok q m" "unat m \<le> Suc kMaxJsonInputBytes"
    and "NormalizeJsonText L False p n q m = Some (Ok, q')"
  shows "ParseJsonDocument L dtoa ft it ticks q' m s = ParseJsonDocument L dtoa ft it ticks p n s"
proof -
  obtain b c where bc: "p = Buf b" "NUL \<in> set (take (unat n) b)" "c_string b \<noteq> []" "length (c_string b) \<le> kMaxJsonInputBytes"
    "length (quoted (c_string b)) < unat m" "q' = Buf (quoted (c_string b) @ NUL # drop (Suc (length (quoted (c_string b)))) c)"
    using assms(4) unfolding NormalizeJsonText_Ok_iff [OF assms(1,2)] quoted_normal_form by blast
  have "NUL \<notin> set (c_string b)" by (auto simp: c_string_def dest: set_takeWhileD)
  with bc have "acceptable_text (c_string b)" by (simp add: acceptable_text_def)
  with bc assms(3) show ?thesis by (simp add: ParseJsonDocument_converted)
qed

theorem normalize_then_parse_witness:
  "ParseJsonDocument (\<lambda>s. [LiteralTrue]) (\<lambda>d. []) False False 0 (Buf ([quot, CHR ''x'', quot, NUL] @ ''56'')) 6 JsonDocumentStore =
     ParseJsonDocument (\<lambda>s. [LiteralTrue]) (\<lambda>d. []) False False 0 (Buf [apos, CHR ''x'', apos, NUL]) 4 JsonDocumentStore"
proof -
  let ?p = "Buf [apos, CHR ''x'', apos, NUL]" and ?q = "Buf ''123456''"
  have ok: "buf_ok ?p 4" "buf_ok ?q 6" by simp_all
  have "tree_of [LiteralTrue] (JBool True)" by (simp add: tree_of_def at_end_def get_token_def)
  then have "json_accept [LiteralTrue]" unfolding json_accept_iff tree_of_def by blast
  moreover have "normal_form [apos, CHR ''x'', apos] = [quot, CHR ''x'', quot]"
    by (simp add: normal_form_def ConvertApostropheStrings_def)
  moreover have "c_string [apos, CHR ''x'', apos, NUL] = [apos, CHR ''x'', apos]" by (simp add: c_string_def)
  ultimately have "NormalizeJsonText (\<lambda>s. [LiteralTrue]) False ?p 4 ?q 6 = Some (Ok, Buf ([quot, CHR ''x'', quot, NUL] @ ''56''))"
    unfolding NormalizeJsonText_Ok_iff [OF ok] by (simp add: kMaxJsonInputBytes_def)
  from normalize_then_parse [OF ok _ this] show ?thesis by (simp add: kMaxJsonInputBytes_def)
qed

text \<open>Any JSON text of a value within the limits, parsed from the caller's buffer into a store with a
  free slot, is stored under a fresh id, and every number in it that is a 32-bit integer is then
  read back at its pointer.\<close>
theorem parsed_text_reads_back:
  assumes "store_ok dtoa s" "card (dom (lookup_document s)) < kJsonDocumentSlotCount"
    and "json_text t str" "length str \<le> kMaxJsonInputBytes" "finite_floats t" "within_limits t" "length str < unat n"
  shows "\<exists>i s'. ParseJsonDocument lexer dtoa False False ticks (Buf (str @ NUL # rest)) n s = Some (Ok, i, s') \<and>
    lookup_document s i = None \<and>
    (\<forall>ts node v m junk. reaches (collapse t) ts node \<longrightarrow> ToLong node 0 = (Ok, v) \<longrightarrow> length (pointer_of ts) < unat m \<longrightarrow>
       ReadJsonLong False i (Buf (pointer_of ts @ NUL # junk)) m s' = Some (Ok, v))"
proof -
  obtain i s' where p: "ParseJsonDocument lexer dtoa False False ticks (Buf (str @ NUL # rest)) n s = Some (Ok, i, s')"
    "lookup_document s' = (lookup_document s)(i \<mapsto> \<lparr>document = collapse t, entries = flat_entries dtoa (collapse t)\<rparr>)"
    by (rule ParseJsonDocument_text [OF assms])
  then have "lookup_document s' i = Some \<lparr>document = collapse t, entries = flat_entries dtoa (collapse t)\<rparr>" by simp
  moreover have "\<not> nul_in_key (collapse t)" using within_limits_collapse [OF assms(6)] by (simp add: within_limits_def)
  moreover have "lookup_document s i = None" by (rule ParseJsonDocument_Ok [OF assms(1) p(1)])
  ultimately show ?thesis using p(1) ReadJsonLong_stored [of s' i] by simp
qed

text \<open>A text with one number, for the witnesses.\<close>

lemma one_number_text:
  "json_text (JArray [JUInt 7]) ''[7]''" "finite_floats (JArray [JUInt 7])" "within_limits (JArray [JUInt 7])"
  "length ''[7]'' \<le> kMaxJsonInputBytes"
  "store_ok (\<lambda>d. []) JsonDocumentStore" "card (dom (lookup_document JsonDocumentStore)) < kJsonDocumentSlotCount"
proof -
  let ?t = "JArray [JUInt 7]"
  have "to_string 7 = ''7''" by code_simp
  then show "json_text ?t ''[7]''" using write_json_text [of ?t "\<lambda>d. []"] by simp
  have leaves: "leaves ?t = [([''0''], JUInt 7)]" by simp
  show "within_limits ?t"
    unfolding within_limits_def leaves by (simp add: key_bytes_def kMaxJsonDepth_def kMaxFlatEntries_def kMaxFlatKeyBytes_def)
  have "lookup_document JsonDocumentStore = (\<lambda>i. None)"
    by (rule ext) (simp add: lookup_document_find JsonDocumentStore_def free_slot_def kJsonDocumentSlotCount_def numeral_eq_Suc)
  then show "card (dom (lookup_document JsonDocumentStore)) < kJsonDocumentSlotCount" by (simp add: kJsonDocumentSlotCount_def)
qed (simp_all add: kMaxJsonInputBytes_def store_ok_start)

lemma one_number_reaches: "reaches (collapse (JArray [JUInt 7])) [''0''] (JUInt 7)"
  using leaves_reach [of "collapse (JArray [JUInt 7])"] by simp

end
