(* ===== verification/Number_Printing.thy ===== *)
theory Number_Printing
  imports Double_Rounding Type_Conversion Json_Round_Trip
begin

text \<open>
  The printing of numbers in the vendored \<open>json.hpp\<close>: \<open>format_buffer\<close>, \<open>to_chars\<close> and the
  serializer's \<open>dump_float\<close> and \<open>dump_integer\<close>, over its buffer of 64 characters. A printed double is
  JSON number text that reads back as the double, a printed integer the decimal text; no access
  leaves the buffer and no assertion fails.
\<close>

section \<open>Doubles: the code\<close>

definition mem_move :: "char list \<Rightarrow> nat \<Rightarrow> nat \<Rightarrow> nat \<Rightarrow> char list option" where
  "mem_move buf dst src n =
     (if src + n \<le> length buf then mem_write buf dst (take n (drop src buf)) else None)"

definition append_exponent :: "char list \<Rightarrow> nat \<Rightarrow> int \<Rightarrow> (char list \<times> nat) option" where
  "append_exponent buf p e = do {
     JSON_ASSERT (e > - 1000);
     JSON_ASSERT (e < 1000);
     buf \<leftarrow> mem_write buf p (if e < 0 then ''-'' else ''+'');
     let p = p + 1; k = (of_int (if e < 0 then - e else e) :: u32)
     in if k < 10 then do {
          buf \<leftarrow> mem_write buf p ''0'';
          buf \<leftarrow> mem_write buf (p + 1) [digit_char (unat k)];
          Some (buf, p + 2) }
        else if k < 100 then do {
          buf \<leftarrow> mem_write buf p [digit_char (unat (k div 10))];
          buf \<leftarrow> mem_write buf (p + 1) [digit_char (unat (k mod 10))];
          Some (buf, p + 2) }
        else do {
          buf \<leftarrow> mem_write buf p [digit_char (unat (k div 100))];
          let k = k mod 100
          in do {
            buf \<leftarrow> mem_write buf (p + 1) [digit_char (unat (k div 10))];
            buf \<leftarrow> mem_write buf (p + 2) [digit_char (unat (k mod 10))];
            Some (buf, p + 3) } } }"

text \<open>\<open>b\<close> is the pointer \<open>buf\<close>; the result is the buffer and the position behind the text.\<close>

definition format_buffer :: "char list \<Rightarrow> nat \<Rightarrow> nat \<Rightarrow> int \<Rightarrow> int \<Rightarrow> int \<Rightarrow> (char list \<times> nat) option" where
  "format_buffer buf b len decimal_exponent min_exp max_exp = do {
     JSON_ASSERT (min_exp < 0);
     JSON_ASSERT (max_exp > 0);
     let k = int len; n = int len + decimal_exponent
     in if k \<le> n \<and> n \<le> max_exp then do {
          buf \<leftarrow> mem_write buf (b + nat k) (replicate (nat n - nat k) (CHR ''0''));
          buf \<leftarrow> mem_write buf (b + nat n) ''.'';
          buf \<leftarrow> mem_write buf (b + nat n + 1) ''0'';
          Some (buf, b + nat n + 2) }
        else if 0 < n \<and> n \<le> max_exp then do {
          JSON_ASSERT (k > n);
          buf \<leftarrow> mem_move buf (b + nat n + 1) (b + nat n) (nat k - nat n);
          buf \<leftarrow> mem_write buf (b + nat n) ''.'';
          Some (buf, b + nat k + 1) }
        else if min_exp < n \<and> n \<le> 0 then do {
          buf \<leftarrow> mem_move buf (b + 2 + nat (- n)) b (nat k);
          buf \<leftarrow> mem_write buf b ''0'';
          buf \<leftarrow> mem_write buf (b + 1) ''.'';
          buf \<leftarrow> mem_write buf (b + 2) (replicate (nat (- n)) (CHR ''0''));
          Some (buf, b + 2 + nat (- n) + nat k) }
        else do {
          (buf, p) \<leftarrow> (if k = 1 then Some (buf, b + 1)
            else do {
              buf \<leftarrow> mem_move buf (b + 2) (b + 1) (nat k - 1);
              buf \<leftarrow> mem_write buf (b + 1) ''.'';
              Some (buf, b + 1 + nat k) });
          buf \<leftarrow> mem_write buf p ''e'';
          append_exponent buf (p + 1) (n - 1) } }"

definition to_chars :: "char list \<Rightarrow> nat \<Rightarrow> nat \<Rightarrow> f64 \<Rightarrow> (char list \<times> nat) option" where
  "to_chars buf first final val = do {
     JSON_ASSERT (is_finite_fp (decode_f64 val));
     (buf, first, val) \<leftarrow> (if bit val 63
       then do { buf \<leftarrow> mem_write buf first ''-''; Some (buf, first + 1, val XOR push_bit 63 1) }
       else Some (buf, first, val));
     if fp_eq (decode_f64 val) (fp_of_int 0) then do {
       buf \<leftarrow> mem_write buf first ''0'';
       buf \<leftarrow> mem_write buf (first + 1) ''.'';
       buf \<leftarrow> mem_write buf (first + 2) ''0'';
       Some (buf, first + 3) }
     else do {
       JSON_ASSERT (int final - int first \<ge> 17);
       (buf, len, decimal_exponent) \<leftarrow> grisu2 buf first 0 val;
       JSON_ASSERT (len \<le> 17);
       let kMinExp = - 4; kMaxExp = 15
       in do {
         JSON_ASSERT (int final - int first \<ge> kMaxExp + 2);
         JSON_ASSERT (int final - int first \<ge> 2 + (- kMinExp - 1) + 17);
         JSON_ASSERT (int final - int first \<ge> 17 + 6);
         format_buffer buf first len decimal_exponent kMinExp kMaxExp } } }"

text \<open>The characters written to the output.\<close>

definition dump_float :: "char list \<Rightarrow> f64 \<Rightarrow> string option" where
  "dump_float number_buffer x =
     (if \<not> is_finite_fp (decode_f64 x) then Some ''null''
      else do {
        (number_buffer, final) \<leftarrow> to_chars number_buffer 0 (length number_buffer) x;
        Some (take final number_buffer) })"

section \<open>The layout of a printed number\<close>

definition exponent_text :: "int \<Rightarrow> string" where
  "exponent_text e =
     (let k = nat \<bar>e\<bar>
      in (if e < 0 then CHR ''-'' else CHR ''+'') #
         (if k < 10 then [CHR ''0'', digit_char k]
          else if k < 100 then [digit_char (k div 10), digit_char (k mod 10)]
          else [digit_char (k div 100), digit_char (k mod 100 div 10), digit_char (k mod 100 mod 10)]))"

text \<open>Whole part, fraction and exponent of digits whose decimal point is behind the first \<open>n\<close>.\<close>

definition layout :: "string \<Rightarrow> int \<Rightarrow> string \<times> string \<times> string" where
  "layout ds n =
     (if int (length ds) \<le> n \<and> n \<le> 15 then (ds @ replicate (nat n - length ds) (CHR ''0''), ''.0'', [])
      else if 0 < n \<and> n \<le> 15 then (take (nat n) ds, CHR ''.'' # drop (nat n) ds, [])
      else if - 4 < n \<and> n \<le> 0 then (''0'', CHR ''.'' # replicate (nat (- n)) (CHR ''0'') @ ds, [])
      else if length ds = 1 then (ds, [], CHR ''e'' # exponent_text (n - 1))
      else ([hd ds], CHR ''.'' # tl ds, CHR ''e'' # exponent_text (n - 1)))"

text \<open>Writing inside the buffer, as an operation on its list.\<close>

lemma mem_write_single: "i < length buf \<Longrightarrow> mem_write buf i [c] = Some (buf[i := c])"
  by (simp add: mem_write_def upd_conv_take_nth_drop)

lemma mem_write_gap: "i = length pre \<Longrightarrow> length gap = length s \<Longrightarrow> mem_write (pre @ gap @ rest) i s = Some (pre @ s @ rest)"
  by (simp add: mem_write_def)

lemma split_at_least:
  assumes "n \<le> length xs"
  obtains ys zs where "xs = ys @ zs" "length ys = n"
  using that [of "take n xs" "drop n xs"] assms by simp

lemma unat_of_int_u32: "0 \<le> z \<Longrightarrow> z < 2 ^ 32 \<Longrightarrow> unat (of_int z :: u32) = nat z"
  by (simp add: unat_eq_nat_uint uint_word_of_int_eq take_bit_int_eq_self)

lemma append_exponent_text:
  assumes "\<bar>e\<bar> < 1000" "length pre = p" "4 \<le> length junk"
  shows "\<exists>junk'. append_exponent (pre @ junk) p e = Some (pre @ exponent_text e @ junk', p + length (exponent_text e)) \<and>
    length (exponent_text e) + length junk' = length junk"
proof -
  obtain c1 c2 c3 c4 rest where junk: "junk = c1 # c2 # c3 # c4 # rest"
    using assms(3) by (auto simp: numeral_eq_Suc Suc_le_length_iff)
  define k where "k = nat \<bar>e\<bar>"
  let ?w = "of_int (if e < 0 then - e else e) :: u32"
  have w: "unat ?w = k" using assms(1) by (subst unat_of_int_u32) (auto simp: k_def)
  have cmp: "?w < 10 \<longleftrightarrow> k < 10" "?w < 100 \<longleftrightarrow> k < 100" using w by (simp_all add: word_less_nat_alt)
  have parts: "unat (?w div 10) = k div 10" "unat (?w mod 10) = k mod 10" "unat (?w div 100) = k div 100"
    "unat (?w mod 100 div 10) = k mod 100 div 10" "unat (?w mod 100 mod 10) = k mod 100 mod 10"
    using w by (simp_all add: unat_div unat_mod)
  show ?thesis
    unfolding append_exponent_def Let_def cmp w parts exponent_text_def k_def [symmetric] junk
    using assms(1,2) by (auto simp: mem_write_single list_update_append)
qed

text \<open>One lemma per notation of \<open>format_buffer\<close>.\<close>

lemma format_integral:
  assumes "int (length ds) \<le> n" "n \<le> 15" "length pre = b" "17 \<le> length ds + length junk" "n = int (length ds) + x"
  shows "\<exists>junk'. format_buffer (pre @ ds @ junk) b (length ds) x (- 4) 15 =
      Some (pre @ (ds @ replicate (nat n - length ds) (CHR ''0'') @ ''.0'') @ junk', b + nat n + 2) \<and>
    nat n + 2 + length junk' = length ds + length junk"
proof -
  have "nat n - length ds + 2 \<le> length junk" using assms(1,2,4) by linarith
  then have "nat n - length ds \<le> length junk" by linarith
  then obtain gap rest where junk: "junk = gap @ rest" "length gap = nat n - length ds" by (rule split_at_least)
  then have "2 \<le> length rest" using \<open>nat n - length ds + 2 \<le> length junk\<close> by simp
  then obtain c1 c2 r where rest: "rest = c1 # c2 # r" by (auto simp: numeral_eq_Suc Suc_le_length_iff)
  have n: "nat n = length ds + length gap" using junk(2) assms(1) by linarith
  have fill: "mem_write (pre @ ds @ gap @ rest) (b + length ds) (replicate (nat n - length ds) (CHR ''0'')) =
      Some (pre @ ds @ replicate (nat n - length ds) (CHR ''0'') @ rest)"
    using mem_write_gap [of "b + length ds" "pre @ ds" gap "replicate (nat n - length ds) (CHR ''0'')" rest] assms(3) junk(2) by simp
  have "format_buffer (pre @ ds @ junk) b (length ds) x (- 4) 15 =
      Some (pre @ (ds @ replicate (nat n - length ds) (CHR ''0'') @ ''.0'') @ r, b + nat n + 2)"
    unfolding format_buffer_def Let_def assms(5) [symmetric] junk(1)
    using assms(1-3) fill n by (simp add: rest mem_write_single list_update_append)
  moreover have "nat n + 2 + length r = length ds + length junk" unfolding n junk(1) rest by simp
  ultimately show ?thesis by blast
qed

lemma take_with_mark: "n < length ds \<Longrightarrow> (take (Suc n) ds)[n := c] = take n ds @ [c]"
  by (simp add: take_Suc_conv_app_nth list_update_append)

lemma format_fixed:
  assumes "0 < n" "n \<le> 15" "n < int (length ds)" "length pre = b" "18 \<le> length ds + length junk" "length ds \<le> 17" "n = int (length ds) + x"
  shows "\<exists>junk'. format_buffer (pre @ ds @ junk) b (length ds) x (- 4) 15 =
      Some (pre @ (take (nat n) ds @ CHR ''.'' # drop (nat n) ds) @ junk', b + length ds + 1) \<and>
    length ds + 1 + length junk' = length ds + length junk"
proof -
  obtain c rest where junk: "junk = c # rest" using assms(5,6) by (cases junk) simp_all
  have n: "nat n < length ds" "nat n + (length ds - nat n) = length ds" using assms(1,3) by simp_all
  have move: "mem_move (pre @ ds @ junk) (b + nat n + 1) (b + nat n) (length ds - nat n) =
      Some (pre @ take (Suc (nat n)) ds @ drop (nat n) ds @ rest)"
    using n assms(4) by (simp add: mem_move_def mem_write_def junk Suc_diff_le)
  have "format_buffer (pre @ ds @ junk) b (length ds) x (- 4) 15 =
      Some (pre @ (take (nat n) ds @ CHR ''.'' # drop (nat n) ds) @ rest, b + length ds + 1)"
    unfolding format_buffer_def Let_def assms(7) [symmetric]
    using assms(1-4) move n by (simp add: mem_write_single list_update_append take_with_mark)
  then show ?thesis using junk by auto
qed

lemma format_small:
  assumes "- 4 < n" "n \<le> 0" "length pre = b" "22 \<le> length ds + length junk" "length ds \<le> 17" "n = int (length ds) + x" "ds \<noteq> []"
  shows "\<exists>junk'. format_buffer (pre @ ds @ junk) b (length ds) x (- 4) 15 =
      Some (pre @ (''0.'' @ replicate (nat (- n)) (CHR ''0'') @ ds) @ junk', b + 2 + nat (- n) + length ds) \<and>
    2 + nat (- n) + length ds + length junk' = length ds + length junk"
proof -
  let ?z = "nat (- n)"
  have z: "?z \<le> 3" using assms(1) by linarith
  have "0 < int (length ds)" using assms(7) by simp
  then have big: "\<not> int (length ds) \<le> n" using assms(2) by linarith
  have "2 + ?z + length ds \<le> length (ds @ junk)" using assms(4,5) z by simp
  then obtain g rest where g: "ds @ junk = g @ rest" "length g = 2 + ?z + length ds" by (rule split_at_least)
  have "2 \<le> length g" using g(2) by simp
  then obtain c1 c2 g' where g': "g = c1 # c2 # g'" by (auto simp: numeral_eq_Suc Suc_le_length_iff)
  have "take (length ds) (drop b (pre @ ds @ junk)) = ds" using assms(3) by simp
  moreover have "b + 2 + ?z + length ds \<le> length (pre @ ds @ junk)" using assms(3,4,5) z by simp
  ultimately have "mem_move (pre @ ds @ junk) (b + 2 + ?z) b (length ds) =
      Some (take (b + 2 + ?z) (pre @ ds @ junk) @ ds @ drop (b + 2 + ?z + length ds) (pre @ ds @ junk))"
    by (simp only: mem_move_def mem_write_def if_True) simp
  also have "\<dots> = Some (take (b + 2 + ?z) (pre @ g @ rest) @ ds @ drop (b + 2 + ?z + length ds) (pre @ g @ rest))"
    unfolding g(1) ..
  also have "\<dots> = Some (pre @ c1 # c2 # take ?z g' @ ds @ rest)"
    using assms(3) g(2) g' by simp
  finally have move: "mem_move (pre @ ds @ junk) (b + 2 + ?z) b (length ds) = Some (pre @ c1 # c2 # take ?z g' @ ds @ rest)" .
  have fill: "mem_write (pre @ CHR ''0'' # CHR ''.'' # take ?z g' @ ds @ rest) (b + 2) (replicate ?z (CHR ''0'')) =
      Some (pre @ CHR ''0'' # CHR ''.'' # replicate ?z (CHR ''0'') @ ds @ rest)"
    using mem_write_gap [of "b + 2" "pre @ ''0.''" "take ?z g'" "replicate ?z (CHR ''0'')" "ds @ rest"] assms(3) g(2) g' by simp
  have "format_buffer (pre @ ds @ junk) b (length ds) x (- 4) 15 =
      Some (pre @ (''0.'' @ replicate ?z (CHR ''0'') @ ds) @ rest, b + 2 + ?z + length ds)"
    unfolding format_buffer_def Let_def assms(6) [symmetric]
    using assms(1-3) big move fill z by (simp add: mem_write_single list_update_append)
  moreover have "2 + ?z + length ds + length rest = length ds + length junk"
    using arg_cong [OF g(1), of length] g(2) by simp
  ultimately show ?thesis by blast
qed

lemma format_exponent:
  assumes "\<not> (0 < n \<and> n \<le> 15)" "\<not> (- 4 < n \<and> n \<le> 0)" "ds \<noteq> []" "length pre = b" "23 \<le> length ds + length junk" "length ds \<le> 17"
    "\<bar>n - 1\<bar> < 1000" "n = int (length ds) + x"
  defines "t \<equiv> (if length ds = 1 then ds else hd ds # CHR ''.'' # tl ds) @ CHR ''e'' # exponent_text (n - 1)"
  shows "\<exists>junk'. format_buffer (pre @ ds @ junk) b (length ds) x (- 4) 15 = Some (pre @ t @ junk', b + length t) \<and>
    length t + length junk' = length ds + length junk"
proof -
  have "0 < int (length ds)" using assms(3) by simp
  then have first: "\<not> (int (length ds) \<le> n \<and> n \<le> 15)" using assms(1) by linarith
  show ?thesis
  proof (cases "length ds = 1")
    case True
    then obtain d where ds: "ds = [d]" by (cases ds) simp_all
    obtain c rest where junk: "junk = c # rest" "4 \<le> length rest" using assms(5) ds by (cases junk) simp_all
    obtain junk' where ex: "append_exponent ((pre @ d # ''e'') @ rest) (b + 2) (n - 1) =
        Some ((pre @ d # ''e'') @ exponent_text (n - 1) @ junk', b + 2 + length (exponent_text (n - 1)))"
      "length (exponent_text (n - 1)) + length junk' = length rest"
      using append_exponent_text [OF assms(7) _ junk(2), of "pre @ d # ''e''" "b + 2"] assms(4) by auto
    have "format_buffer (pre @ ds @ junk) b (length ds) x (- 4) 15 = Some (pre @ t @ junk', b + length t)"
      unfolding format_buffer_def Let_def assms(8) [symmetric] t_def
      using assms(1,2,4) first ex(1) by (auto simp: ds junk mem_write_single list_update_append)
    then show ?thesis using ex(2) junk(1) by (auto simp: t_def ds)
  next
    case False
    then obtain d u where ds: "ds = d # u" "u \<noteq> []" using assms(3) by (cases ds) auto
    have "6 \<le> length junk" using assms(5,6) by simp
    then obtain c c' rest where junk: "junk = c # c' # rest" "4 \<le> length rest" by (auto simp: numeral_eq_Suc Suc_le_length_iff)
    obtain u1 u' where u: "u = u1 # u'" using ds(2) by (cases u) simp_all
    have move: "mem_move (pre @ ds @ junk) (b + 2) (b + 1) (length ds - 1) = Some (pre @ d # u1 # u @ c' # rest)"
      using assms(4) by (simp add: mem_move_def mem_write_def ds junk u numeral_3_eq_3)
    let ?p = "pre @ d # CHR ''.'' # u @ ''e''"
    have "length ?p = b + length ds + 2" using assms(4) ds by simp
    from append_exponent_text [OF assms(7) this junk(2)]
    obtain junk' where ex: "append_exponent (?p @ rest) (b + length ds + 2) (n - 1) =
        Some (?p @ exponent_text (n - 1) @ junk', b + length ds + 2 + length (exponent_text (n - 1)))"
      "length (exponent_text (n - 1)) + length junk' = length rest" by auto
    have mark: "mem_write (pre @ d # CHR ''.'' # u @ c' # rest) (b + 1 + length ds) ''e'' = Some (?p @ rest)"
      using mem_write_gap [of "b + 1 + length ds" "pre @ d # CHR ''.'' # u" "[c']" "''e''" rest] assms(4) ds by simp
    have "format_buffer (pre @ ds @ junk) b (length ds) x (- 4) 15 = Some (pre @ t @ junk', b + length t)"
      unfolding format_buffer_def Let_def assms(8) [symmetric] t_def
      using assms(1,2,4) first ex(1) move mark False by (auto simp: ds mem_write_single list_update_append nat_add_distrib)
    then show ?thesis using ex(2) junk(1) by (auto simp: t_def ds)
  qed
qed

lemma format_buffer_layout:
  assumes "ds \<noteq> []" "length ds \<le> 17" "length pre = b" "23 \<le> length ds + length junk" "\<bar>int (length ds) + x - 1\<bar> < 1000"
    and "layout ds (int (length ds) + x) = (w, f, e)"
  shows "\<exists>junk'. format_buffer (pre @ ds @ junk) b (length ds) x (- 4) 15 = Some (pre @ (w @ f @ e) @ junk', b + length (w @ f @ e)) \<and>
    length (w @ f @ e) + length junk' = length ds + length junk"
proof -
  define n where "n = int (length ds) + x"
  note lay = assms(6) [folded n_def]
  consider (a) "int (length ds) \<le> n" "n \<le> 15" | (b) "0 < n" "n \<le> 15" "n < int (length ds)" | (c) "- 4 < n" "n \<le> 0" "\<not> int (length ds) \<le> n"
    | (d) "\<not> (0 < n \<and> n \<le> 15)" "\<not> (- 4 < n \<and> n \<le> 0)" by linarith
  then show ?thesis
  proof cases
    case a
    then have "layout ds n = (ds @ replicate (nat n - length ds) (CHR ''0''), ''.0'', [])" by (simp add: layout_def)
    with lay have parts: "w = ds @ replicate (nat n - length ds) (CHR ''0'')" "f = ''.0''" "e = []" by simp_all
    have "17 \<le> length ds + length junk" using assms(4) by simp
    from format_integral [OF a assms(3) this n_def] show ?thesis using a(1) by (simp add: parts)
  next
    case b
    then have "layout ds n = (take (nat n) ds, CHR ''.'' # drop (nat n) ds, [])" by (simp add: layout_def)
    with lay have parts: "w = take (nat n) ds" "f = CHR ''.'' # drop (nat n) ds" "e = []" by simp_all
    have "18 \<le> length ds + length junk" using assms(4) by simp
    from format_fixed [OF b assms(3) this assms(2) n_def] show ?thesis using b by (simp add: parts)
  next
    case c
    then have "layout ds n = (''0'', CHR ''.'' # replicate (nat (- n)) (CHR ''0'') @ ds, [])" by (simp add: layout_def)
    with lay have parts: "w = ''0''" "f = CHR ''.'' # replicate (nat (- n)) (CHR ''0'') @ ds" "e = []" by simp_all
    have "22 \<le> length ds + length junk" using assms(4) by simp
    from format_small [OF c(1,2) assms(3) this assms(2) n_def assms(1)] obtain junk' where
      "format_buffer (pre @ ds @ junk) b (length ds) x (- 4) 15 =
        Some (pre @ (''0.'' @ replicate (nat (- n)) (CHR ''0'') @ ds) @ junk', b + 2 + nat (- n) + length ds)"
      "2 + nat (- n) + length ds + length junk' = length ds + length junk" by blast
    then show ?thesis by (intro exI [of _ junk']) (simp add: parts)
  next
    case d
    have "0 < int (length ds)" using assms(1) by simp
    with d(1) have "\<not> (int (length ds) \<le> n \<and> n \<le> 15)" by linarith
    with d have "layout ds n = (if length ds = 1 then (ds, [], CHR ''e'' # exponent_text (n - 1)) else ([hd ds], CHR ''.'' # tl ds, CHR ''e'' # exponent_text (n - 1)))"
      by (simp only: layout_def if_False)
    with lay have parts: "w @ f @ e = (if length ds = 1 then ds else hd ds # CHR ''.'' # tl ds) @ CHR ''e'' # exponent_text (n - 1)"
      by (simp split: if_splits)
    from format_exponent [OF d assms(1,3,4,2) assms(5) [folded n_def] n_def] show ?thesis unfolding parts .
  qed
qed

section \<open>What a layout is\<close>

lemma IsDigit_digit_char_div [simp]: "k < 1000 \<Longrightarrow> IsDigit (digit_char (k div 100))" "k < 100 \<Longrightarrow> IsDigit (digit_char (k div 10))"
  by (simp_all add: less_mult_imp_div_less)

lemma exponent_text_digits:
  assumes "\<bar>x\<bar> < 1000"
  obtains sg ds where "exponent_text x = sg # ds" "digits ds" "dec_value ds = nat \<bar>x\<bar>" "sg = (if x < 0 then CHR ''-'' else CHR ''+'')"
proof -
  define k where "k = nat \<bar>x\<bar>"
  have k: "k < 1000" using assms by (simp add: k_def)
  let ?ds = "tl (exponent_text x)"
  have "digits ?ds \<and> dec_value ?ds = k"
    unfolding exponent_text_def Let_def k_def [symmetric] using k
    by (auto simp: digits_def dec_value_def less_mult_imp_div_less digit_value_def [of "CHR ''0''"])
  then show thesis using that [of "if x < 0 then CHR ''-'' else CHR ''+''" ?ds] by (auto simp: exponent_text_def Let_def k_def)
qed

lemma exponent_text_part: "\<bar>x\<bar> < 1000 \<Longrightarrow> exponent_part (CHR ''e'' # exponent_text x)"
proof -
  assume "\<bar>x\<bar> < 1000"
  then obtain sg ds where "exponent_text x = [sg] @ ds" "digits ds" "sg = (if x < 0 then CHR ''-'' else CHR ''+'')"
    by (rule exponent_text_digits) simp
  then show ?thesis unfolding exponent_part_def by (intro disjI2 exI [of _ "CHR ''e''"] exI [of _ "[sg]"] exI [of _ ds]) simp
qed

lemma exponent_exponent_text: "\<bar>x\<bar> < 1000 \<Longrightarrow> exponent (CHR ''e'' # exponent_text x) = (x, [])"
proof -
  assume "\<bar>x\<bar> < 1000"
  then obtain sg ds where d: "exponent_text x = sg # ds" "digits ds" "dec_value ds = nat \<bar>x\<bar>" "sg = (if x < 0 then CHR ''-'' else CHR ''+'')"
    by (rule exponent_text_digits)
  then have t: "takeWhile IsDigit ds = ds" "dropWhile IsDigit ds = []" "ds \<noteq> []" by (auto simp: digits_def list_all_iff)
  show ?thesis by (simp add: exponent_def Let_def d(1,3,4) t del: takeWhile_eq_all_conv dropWhile_eq_Nil_conv)
qed

lemma exponent_Nil [simp]: "exponent [] = (0, [])"
  by (simp add: exponent_def)

text \<open>The five cases of a layout.\<close>

lemma layout_cases:
  assumes "layout ds n = (w, f, e)" "ds \<noteq> []"
  obtains (integral) "int (length ds) \<le> n" "n \<le> 15" "w = ds @ replicate (nat n - length ds) (CHR ''0'')" "f = ''.0''" "e = []"
    | (fixed) "0 < n" "n < int (length ds)" "n \<le> 15" "w = take (nat n) ds" "f = CHR ''.'' # drop (nat n) ds" "e = []"
    | (small) "- 4 < n" "n \<le> 0" "w = ''0''" "f = CHR ''.'' # replicate (nat (- n)) (CHR ''0'') @ ds" "e = []"
    | (single) "length ds = 1" "w = ds" "f = []" "e = CHR ''e'' # exponent_text (n - 1)"
    | (point) "1 < length ds" "w = [hd ds]" "f = CHR ''.'' # tl ds" "e = CHR ''e'' # exponent_text (n - 1)"
proof -
  have "0 < length ds" using assms(2) by simp
  show thesis
  proof (cases "int (length ds) \<le> n \<and> n \<le> 15")
    case True
    then show ?thesis using assms(1) integral by (simp add: layout_def)
  next
    case a: False
    show ?thesis
    proof (cases "0 < n \<and> n \<le> 15")
      case True
      with a assms(1) show ?thesis by (intro fixed) (simp_all add: layout_def)
    next
      case b: False
      show ?thesis
      proof (cases "- 4 < n \<and> n \<le> 0")
        case True
        with a b assms(1) show ?thesis by (intro small) (simp_all add: layout_def)
      next
        case False
        with a b assms(1) have "(w, f, e) = (if length ds = 1 then (ds, [], CHR ''e'' # exponent_text (n - 1)) else ([hd ds], CHR ''.'' # tl ds, CHR ''e'' # exponent_text (n - 1)))"
          by (simp only: layout_def if_False)
        moreover have "length ds = 1 \<or> 1 < length ds" using \<open>0 < length ds\<close> by linarith
        ultimately show ?thesis using single point by (auto split: if_splits)
      qed
    qed
  qed
qed

lemma layout_parts:
  assumes "list_all IsDigit ds" "ds \<noteq> []" "hd ds \<noteq> CHR ''0''" "\<bar>n - 1\<bar> < 1000" "layout ds n = (w, f, e)"
  shows "whole_part w" "fraction_part f" "exponent_part e" "f \<noteq> [] \<or> e \<noteq> []"
proof -
  note ex = exponent_text_part [OF assms(4)]
  have all: "list_all IsDigit (take i ds)" "list_all IsDigit (drop i ds)" "list_all IsDigit (tl ds)" "IsDigit (hd ds)" for i
    using assms(1,2) by (auto simp: list_all_iff dest: in_set_takeD in_set_dropD list.set_sel(2))
  have zeros: "list_all IsDigit (replicate i (CHR ''0''))" for i by (simp add: list_all_iff)
  from assms(5,2) have "whole_part w \<and> fraction_part f \<and> exponent_part e \<and> (f \<noteq> [] \<or> e \<noteq> [])"
  proof (cases rule: layout_cases)
    case fixed
    then have "hd (take (nat n) ds) = hd ds" "take (nat n) ds \<noteq> []" "drop (nat n) ds \<noteq> []" using assms(2) by (auto simp: hd_take)
    with fixed assms(3) all show ?thesis by (simp add: whole_part_def fraction_part_def digits_def)
  next
    case point
    then have "tl ds \<noteq> []" by (cases ds) auto
    with point ex assms(3) all show ?thesis by (auto simp: whole_part_def fraction_part_def digits_def)
  qed (use ex assms(1-3) zeros in \<open>auto simp: whole_part_def fraction_part_def digits_def\<close>)
  then show "whole_part w" "fraction_part f" "exponent_part e" "f \<noteq> [] \<or> e \<noteq> []" by blast+
qed

text \<open>The number in the text is the number of the digits.\<close>

lemma dec_value_zeros [simp]: "dec_value (replicate i (CHR ''0'')) = 0"
  by (induction i) (simp_all add: dec_value_Cons dec_value_def [of "[]"] digit_value_def)

lemma layout_value:
  assumes "ds \<noteq> []" "\<bar>n - 1\<bar> < 1000" "layout ds n = (w, f, e)"
  shows "real (dec_value (w @ tl f)) * 10 powi (fst (exponent e) - int (length (tl f))) = real (dec_value ds) * 10 powi (n - int (length ds))"
  using assms(3,1)
proof (cases rule: layout_cases)
  case integral
  define z where "z = nat n - length ds"
  have z: "n - int (length ds) = int z" using integral(1) by (simp add: z_def)
  have "dec_value (w @ tl f) = dec_value ds * 10 ^ Suc z"
    using integral by (simp add: z_def [symmetric] dec_value_append digit_value_def)
  then have "real (dec_value (w @ tl f)) * 10 powi (- 1) = real (dec_value ds) * 10 ^ z" by (simp add: power_int_minus)
  with integral show ?thesis unfolding z by simp
next
  case fixed
  then have "w @ tl f = ds" "0 - int (length (tl f)) = n - int (length ds)" by (simp_all add: of_nat_diff)
  with fixed(6) show ?thesis by simp
next
  case small
  then have "dec_value (w @ tl f) = dec_value ds" "0 - int (length (tl f)) = n - int (length ds)"
    by (simp_all add: dec_value_Cons dec_value_append digit_value_def)
  with small(5) show ?thesis by simp
next
  case single
  then show ?thesis using assms(2) by (simp add: exponent_exponent_text)
next
  case point
  then have "w @ tl f = ds" "n - 1 - int (length (tl f)) = n - int (length ds)" using assms(1) by (simp_all add: of_nat_diff)
  moreover have "fst (exponent e) = n - 1" using point(4) assms(2) by (simp add: exponent_exponent_text)
  ultimately show ?thesis by (simp only:)
qed

text \<open>A whole part of more than one digit stands without an exponent, and does not exceed the number.\<close>

lemma layout_whole: "ds \<noteq> [] \<Longrightarrow> layout ds n = (w, f, e) \<Longrightarrow> length w = 1 \<or> e = []"
  by (auto elim: layout_cases)

lemma whole_le_value: "real (dec_value w) \<le> real (dec_value (w @ u)) * 10 powi (- int (length u))"
  by (simp add: dec_value_append power_int_minus field_simps)

lemma number_pieces:
  assumes "whole_part w" "fraction_part f" "exponent_part e"
  shows "takeWhile IsDigit (w @ f @ e) = w" "dropWhile IsDigit (w @ f @ e) = f @ e" "(f @ e \<noteq> [] \<and> hd (f @ e) = CHR ''.'') = (f \<noteq> [])"
    "(if f \<noteq> [] then takeWhile IsDigit (tl (f @ e)) else []) = tl f" "(if f \<noteq> [] then dropWhile IsDigit (tl (f @ e)) else f @ e) = e"
proof -
  have w: "list_all IsDigit w" using assms(1) by (simp add: whole_part_def digits_def)
  have e: "e = [] \<or> hd e = CHR ''e'' \<or> hd e = CHR ''E''" using assms(3) by (auto simp: exponent_part_def)
  have tw: "takeWhile IsDigit (u @ r) = u" "dropWhile IsDigit (u @ r) = r" if "list_all IsDigit u" "r = [] \<or> \<not> IsDigit (hd r)" for u r
    using that by (cases r; auto simp: list_all_iff takeWhile_append dropWhile_append)+
  have stop: "e = [] \<or> \<not> IsDigit (hd e)" using e by auto
  have "f = [] \<or> (\<exists>fs. f = CHR ''.'' # fs \<and> list_all IsDigit fs)" using assms(2) by (auto simp: fraction_part_def digits_def)
  then consider "f = []" | fs where "f = CHR ''.'' # fs" "list_all IsDigit fs" by blast
  then have "(f @ e = [] \<or> \<not> IsDigit (hd (f @ e))) \<and> (f @ e \<noteq> [] \<and> hd (f @ e) = CHR ''.'') = (f \<noteq> []) \<and>
      (if f \<noteq> [] then takeWhile IsDigit (tl (f @ e)) else []) = tl f \<and> (if f \<noteq> [] then dropWhile IsDigit (tl (f @ e)) else f @ e) = e"
    by cases (use stop e tw [OF _ stop] in auto)
  with tw [OF w] show "takeWhile IsDigit (w @ f @ e) = w" "dropWhile IsDigit (w @ f @ e) = f @ e"
    "(f @ e \<noteq> [] \<and> hd (f @ e) = CHR ''.'') = (f \<noteq> [])" "(if f \<noteq> [] then takeWhile IsDigit (tl (f @ e)) else []) = tl f"
    "(if f \<noteq> [] then dropWhile IsDigit (tl (f @ e)) else f @ e) = e" by blast+
qed

lemma sign_pieces:
  assumes "sg \<in> {[], ''-''}" "whole_part w"
  shows "(sg @ w @ r \<noteq> [] \<and> hd (sg @ w @ r) = CHR ''-'') = (sg \<noteq> [])" "(if sg \<noteq> [] then tl (sg @ w @ r) else sg @ w @ r) = w @ r"
proof -
  have "list_all IsDigit w" "w \<noteq> []" using assms(2) by (simp_all add: whole_part_def digits_def)
  then have "hd w \<noteq> CHR ''-''" by (cases w) auto
  with assms(1) \<open>w \<noteq> []\<close> show "(sg @ w @ r \<noteq> [] \<and> hd (sg @ w @ r) = CHR ''-'') = (sg \<noteq> [])"
    "(if sg \<noteq> [] then tl (sg @ w @ r) else sg @ w @ r) = w @ r" by auto
qed

lemma strtod_number:
  assumes "sg \<in> {[], ''-''}" "whole_part w" "fraction_part f" "exponent_part e"
  shows "strtod (sg @ w @ f @ e) = f64_of_decimal (sg \<noteq> []) (dec_value (w @ tl f)) (fst (exponent e) - int (length (tl f)))"
  by (simp only: strtod_def Let_def sign_pieces [OF assms(1,2)] number_pieces [OF assms(2-4)])

lemma exponent_part_rest: "exponent_part e \<Longrightarrow> snd (exponent e) = []"
proof -
  assume "exponent_part e"
  moreover have "snd (exponent (c # sg @ ds)) = []" if "c = CHR ''e'' \<or> c = CHR ''E''" "sg \<in> {[], ''+'', ''-''}" "digits ds" for c sg ds
  proof -
    have t: "takeWhile IsDigit ds = ds" "dropWhile IsDigit ds = []" "ds \<noteq> []" "hd ds \<noteq> CHR ''+''" "hd ds \<noteq> CHR ''-''"
      using that(3) by (cases ds; auto simp: digits_def list_all_iff)+
    from that(1,2) t show ?thesis
      by (auto simp: exponent_def Let_def simp del: takeWhile_eq_all_conv dropWhile_eq_Nil_conv)
  qed
  ultimately show ?thesis by (auto simp: exponent_part_def)
qed

lemma after_word_digit:
  assumes "IsDigit (hd t)" "word \<in> {''infinity'', ''inf'', ''nan''}"
  shows "after_word word t = None"
proof (cases t)
  case (Cons c r)
  with assms(1) have "lower c = c" "c \<noteq> CHR ''i''" "c \<noteq> CHR ''n''" by (auto simp: lower_def IsDigit_def)
  with assms(2) Cons show ?thesis by (auto simp: after_word_def)
qed (use assms(2) in \<open>auto simp: after_word_def\<close>)

lemma from_chars_number:
  assumes "sg \<in> {[], ''-''}" "whole_part w" "fraction_part f" "exponent_part e"
    and "decimal_f64 (sg \<noteq> []) (dec_value (w @ tl f)) (fst (exponent e) - int (length (tl f))) = Some d"
  shows "from_chars_f64 (sg @ w @ f @ e) old = (NoErrc, [], d)"
proof -
  have w: "w \<noteq> []" "IsDigit (hd (w @ f @ e))" using assms(2) by (auto simp: whole_part_def digits_def list_all_iff)
  have "exponent e = (fst (exponent e), [])" using exponent_part_rest [OF assms(4)] by (metis prod.collapse)
  then obtain x where x: "exponent e = (x, [])" by blast
  have none: "after_word ''infinity'' (w @ f @ e) = None" "after_word ''inf'' (w @ f @ e) = None" "after_word ''nan'' (w @ f @ e) = None"
    using after_word_digit [OF w(2)] by simp_all
  have "\<not> (w = [] \<and> tl f = [])" using w(1) by simp
  with assms(5) show ?thesis
    by (simp only: from_chars_f64_def Let_def sign_pieces [OF assms(1,2)] number_pieces [OF assms(2-4)] none x
        option.case prod.case fst_conv if_False)
qed

lemma layout_length:
  assumes "ds \<noteq> []" "length ds \<le> 17" "layout ds n = (w, f, e)"
  shows "length (w @ f @ e) \<le> 23"
proof -
  have ex: "length (exponent_text x) \<le> 4" for x by (simp add: exponent_text_def Let_def)
  from assms(3,1) show ?thesis
  proof (cases rule: layout_cases)
    case integral
    then show ?thesis using nat_mono [OF integral(2)] by simp
  next
    case small
    then show ?thesis using nat_mono [of "- n" 3] assms(2) by simp
  qed (use assms(1,2) ex [of "n - 1"] in \<open>auto simp: min_def\<close>)
qed

section \<open>Signs\<close>

lemma sign_bit: "bit d 63 \<longleftrightarrow> 2 ^ 63 \<le> unat (d :: u64)"
proof -
  have "unat d div 2 ^ 63 < 2" using unat_u64_less [of d] by (simp add: less_mult_imp_div_less)
  moreover have "bit d 63 \<longleftrightarrow> odd (unat d div 2 ^ 63)"
    using bit_unsigned_iff [of d 63, where 'a = nat] by (simp add: bit_iff_odd [where 'a = nat])
  moreover have "2 ^ 63 \<le> unat d \<longleftrightarrow> 0 < unat d div 2 ^ 63" by (simp add: div_greater_zero_iff)
  moreover obtain q where "q = unat d div 2 ^ 63" by blast
  ultimately have "q < 2" "bit d 63 \<longleftrightarrow> odd q" "2 ^ 63 \<le> unat d \<longleftrightarrow> 0 < q" by simp_all
  moreover from this(1) have "q = 0 \<or> q = 1" by linarith
  ultimately show ?thesis by auto
qed

lemma xor_top: "Suc k = 64 \<Longrightarrow> bit d k \<Longrightarrow> d XOR push_bit k 1 = take_bit k (d :: u64)"
proof (rule bit_word_eqI)
  fix n assume k: "Suc k = 64" "bit d k" "n < LENGTH(64)"
  then have "n \<le> k" by simp
  moreover have "bit (push_bit k 1 :: u64) n \<longleftrightarrow> n = k" using k(3) by (auto simp only: bit_push_bit_iff bit_1_iff possible_bit_word)
  ultimately show "bit (d XOR push_bit k 1) n = bit (take_bit k d) n"
    using k(2) by (cases "n = k") (simp_all only: bit_xor_iff bit_take_bit_iff, auto)
qed

lemma clear_sign_bit:
  assumes "bit d 63"
  shows "unat d = 2 ^ 63 + unat (d XOR push_bit 63 1 :: u64)"
proof -
  have "d XOR push_bit 63 1 = take_bit 63 d" using assms by (intro xor_top) simp_all
  then have "unat (d XOR push_bit 63 1) = unat d mod 2 ^ 63"
    by (simp only: unsigned_take_bit_eq) (simp only: take_bit_eq_mod)
  moreover have "unat d div 2 ^ 63 = 1"
    by (rule div_nat_eqI) (use assms unat_u64_less [of d] in \<open>simp_all add: sign_bit\<close>)
  ultimately show ?thesis using div_mult_mod_eq [of "unat d" "2 ^ 63"] by simp
qed

lemma decode_clear_sign:
  assumes "decode_f64 d = FpFin s m e"
  defines "d' \<equiv> (if s then d XOR push_bit 63 1 else d)"
  shows "s \<longleftrightarrow> bit d 63" "decode_f64 d' = FpFin False m e" "f64_of_bits s (unat d') = d" "unat d' < 2 ^ 63"
proof -
  have sign: "unat d div 2 ^ 63 = of_bool (bit d 63)"
    by (rule div_nat_eqI) (use unat_u64_less [of d] in \<open>simp_all add: sign_bit\<close>)
  show s: "s \<longleftrightarrow> bit d 63"
    using assms(1) unfolding decode_f64_def Let_def sign by (cases "bit d 63"; auto split: if_splits)
  have u: "unat d = (if s then 2 ^ 63 else 0) + unat d'" using clear_sign_bit [of d] by (simp add: s d'_def)
  then show less: "unat d' < 2 ^ 63" using unat_u64_less [of d] s by (auto simp: sign_bit split: if_splits)
  have split: "(2::nat) ^ 63 = 2 ^ 11 * 2 ^ 52" by (simp flip: power_add)
  have top: "(2 ^ 63 + n) div 2 ^ 52 mod 2 ^ 11 = n div 2 ^ 52 mod 2 ^ 11" "(2 ^ 63 + n) mod 2 ^ 52 = n mod 2 ^ 52" for n :: nat
    unfolding split by (subst div_mult_self3) (simp, simp, rule mod_mult_self3)
  have q: "unat d div 2 ^ 52 mod 2 ^ 11 = unat d' div 2 ^ 52 mod 2 ^ 11" "unat d mod 2 ^ 52 = unat d' mod 2 ^ 52"
    unfolding u by (cases s; simp only: if_True if_False top add_0)+
  have "unat d' div 2 ^ 63 = 0" using less by simp
  then show "decode_f64 d' = FpFin False m e"
    using assms(1) unfolding decode_f64_def Let_def q by (auto split: if_splits)
  show "f64_of_bits s (unat d') = d" unfolding f64_of_bits_def u [symmetric] by simp
qed

section \<open>Reading back\<close>

lemma scaled_decimal: "real (v * 10 ^ nat x) / real (10 ^ nat (- x)) = real v * 10 powi x"
  by (cases "0 \<le> x") (simp_all add: power_int_def field_simps)

lemma decimal_reads_back:
  assumes "decode_f64 d = FpFin s m e" "0 < m" "lower_midpoint m e < real v * 10 powi x" "real v * 10 powi x < upper_midpoint m e"
  shows "f64_of_decimal s v x = d" "decimal_f64 s v x = Some d"
proof -
  let ?d = "if s then d XOR push_bit 63 1 else d"
  note clear = decode_clear_sign [OF assms(1)]
  have "round_f64 (v * 10 ^ nat x) (10 ^ nat (- x)) = Some (double_bits m e)"
    using round_f64_between [OF decode_double_parts [OF clear(2) assms(2)], of "10 ^ nat (- x)" "v * 10 ^ nat x"] assms(3,4)
    unfolding scaled_decimal by simp
  moreover have "double_bits m e \<noteq> 0" using assms(2) by (simp add: double_bits_def)
  ultimately show "f64_of_decimal s v x = d" "decimal_f64 s v x = Some d"
    using clear(3) decode_double_bits [OF clear(2)] by (simp_all add: f64_of_decimal_def decimal_f64_def)
qed

lemma midpoint_bounds:
  assumes "double_parts m e"
  shows "10 powi (- 359) \<le> lower_midpoint m e" "upper_midpoint m e \<le> 10 powi 342"
proof -
  have m: "0 < m" "m < 2 ^ 53" "- 1074 \<le> e" "e \<le> 971" using assms by (simp_all add: double_parts_def)
  have mono: "i \<le> j \<Longrightarrow> (2::real) powi i \<le> 2 powi j" for i j by (rule power_int_increasing) simp_all
  have eight: "(2::real) powi (3 * i) = 8 powi i" for i by (simp add: power_int_mult)
  have least: "2 powi (- 1077) \<le> real (Suc q) * 2 powi j" if "- 1077 \<le> j" for q j
    using mult_mono [OF _ mono [OF that], of 1 "real (Suc q)"] by simp
  have "(10::real) powi (- 359) \<le> 8 powi (- 359)" by (simp add: power_int_minus power_mono)
  also have "\<dots> = 2 powi (- 1077)" using eight [of "- 359"] by simp
  also have "\<dots> \<le> lower_midpoint m e"
  proof (cases "closer_below m e")
    case True
    then have "- 1077 \<le> e - 2" by (simp add: closer_below_def)
    from least [OF this, of "4 * m - 2"] True m(1) show ?thesis by (simp add: lower_midpoint_def)
  next
    case False
    have "- 1077 \<le> e - 1" using m by simp
    from least [OF this, of "2 * m - 2"] False m(1) show ?thesis by (simp add: lower_midpoint_def)
  qed
  finally show "10 powi (- 359) \<le> lower_midpoint m e" .
  have "real (2 * m + 1) \<le> 2 powi 54" using m(2) by simp
  moreover have "2 powi (e - 1) \<le> (2::real) powi 972" using m(4) by (intro mono) simp
  ultimately have "upper_midpoint m e \<le> 2 powi 54 * 2 powi 972" unfolding upper_midpoint_def by (intro mult_mono) simp_all
  also have "\<dots> = 2 powi (3 * 342)" by (simp flip: power_add)
  also have "\<dots> = 8 powi 342" by (rule eight)
  also have "\<dots> \<le> 10 powi 342" by (simp add: power_mono)
  finally show "upper_midpoint m e \<le> 10 powi 342" .
qed

lemma exponent_range:
  assumes "double_parts m e" "list_all IsDigit ds" "ds \<noteq> []" "hd ds \<noteq> CHR ''0''"
    and "lower_midpoint m e < real (dec_value ds) * 10 powi x" "real (dec_value ds) * 10 powi x < upper_midpoint m e"
  shows "\<bar>int (length ds) + x - 1\<bar> < 1000"
proof -
  note b = midpoint_bounds [OF assms(1)]
  let ?n = "int (length ds)"
  have n: "int (length ds - 1) = ?n - 1" using assms(3) by (simp add: of_nat_diff Suc_leI)
  have scale: "10 powi i * 10 powi x = (10::real) powi (i + x)" for i by (simp add: power_int_add)
  have less: "(10::real) powi i < 10 powi j \<Longrightarrow> i < j" for i j
    using power_int_increasing [of j i "10::real"] by (simp flip: not_le) argo
  have "real (dec_value ds) < 10 powi ?n" using dec_value_less [OF assms(2)] by (simp add: of_nat_less_numeral_power_cancel_iff)
  then have "real (dec_value ds) * 10 powi x < 10 powi (?n + x)" unfolding scale [symmetric] by (rule mult_strict_right_mono) simp
  with b(1) assms(5) have "(10::real) powi (- 359) < 10 powi (?n + x)" by linarith
  then have lo: "- 359 < ?n + x" by (rule less)
  have "10 powi (?n - 1) \<le> real (dec_value ds)" using dec_value_ge [OF assms(2-4)] unfolding n [symmetric] by simp
  then have "10 powi (?n - 1 + x) \<le> real (dec_value ds) * 10 powi x" unfolding scale [symmetric] by (rule mult_right_mono) simp
  with b(2) assms(6) have "(10::real) powi (?n - 1 + x) < 10 powi 342" by linarith
  then have "?n - 1 + x < 342" by (rule less)
  with lo show ?thesis by linarith
qed

section \<open>Printing a double\<close>

lemma dump_float_zero:
  assumes "decode_f64 d = FpFin s 0 e" "length buf = 64"
  shows "dump_float buf d = Some ((if s then ''-'' else []) @ ''0'' @ ''.0'' @ [])" "f64_of_decimal s (dec_value ''00'') (- 1) = d"
    "decimal_f64 s (dec_value ''00'') (- 1) = Some d"
proof -
  note clear = decode_clear_sign [OF assms(1)]
  have zero: "fp_eq (FpFin False 0 e) (fp_of_int 0)" by (simp add: fp_of_int_def signed_def)
  obtain c1 c2 c3 c4 rest where buf: "buf = c1 # c2 # c3 # c4 # rest"
    using assms(2) by (auto simp: numeral_eq_Suc length_Suc_conv)
  show "dump_float buf d = Some ((if s then ''-'' else []) @ ''0'' @ ''.0'' @ [])"
    unfolding dump_float_def to_chars_def clear(1) [symmetric] assms(1)
    using clear(2) zero by (cases s) (simp_all add: is_finite_fp_def JSON_ASSERT_def buf mem_write_single)
  have "f64_of_bits s 0 = d"
  proof -
    have "unat (if s then d XOR push_bit 63 1 else d) div 2 ^ 52 = 0"
      by (rule ccontr) (use decode_fields(4) [OF clear(2)] in \<open>simp del: if_split\<close>)
    then have "e = - 1074" by (rule decode_fields(3) [OF clear(2), THEN mp, THEN conjunct2])
    then have "double_bits 0 e = 0" by (simp add: double_bits_def)
    then show ?thesis using clear(3) unfolding decode_double_bits [OF clear(2)] by simp
  qed
  then show "f64_of_decimal s (dec_value ''00'') (- 1) = d" "decimal_f64 s (dec_value ''00'') (- 1) = Some d"
    by (simp_all add: f64_of_decimal_def decimal_f64_def round_f64_def dec_value_def digit_value_def)
qed

lemma to_chars_positive:
  assumes "decode_f64 v = FpFin False m e" "0 < m" "length pre \<le> 1" "length pre + length junk = 64"
  shows "\<exists>ds x w f ex junk'. grisu2 (pre @ junk) (length pre) 0 v = Some (pre @ ds @ junk', length ds, x) \<and>
    list_all IsDigit ds \<and> ds \<noteq> [] \<and> length ds \<le> 17 \<and> hd ds \<noteq> CHR ''0'' \<and>
    lower_midpoint m e < real (dec_value ds) * 10 powi x \<and> real (dec_value ds) * 10 powi x < upper_midpoint m e \<and>
    layout ds (int (length ds) + x) = (w, f, ex) \<and>
    (\<exists>rest. format_buffer (pre @ ds @ junk') (length pre) (length ds) x (- 4) 15 = Some (pre @ (w @ f @ ex) @ rest, length pre + length (w @ f @ ex)))"
proof -
  have "17 \<le> length junk" using assms(3,4) by simp
  from grisu2_between [OF assms(1,2) refl this] obtain ds x junk' where g:
    "grisu2 (pre @ junk) (length pre) 0 v = Some (pre @ ds @ junk', length ds, x)"
    "length ds + length junk' = length junk" "list_all IsDigit ds" "ds \<noteq> []" "length ds \<le> 17" "hd ds \<noteq> CHR ''0''"
    "lower_midpoint m e < real (dec_value ds) * 10 powi x" "real (dec_value ds) * 10 powi x < upper_midpoint m e" by blast
  obtain w f ex where lay: "layout ds (int (length ds) + x) = (w, f, ex)" by (rule prod_cases3)
  have "23 \<le> length ds + length junk'" using g(2) assms(3,4) by simp
  from format_buffer_layout [OF g(4,5) refl this exponent_range [OF decode_double_parts [OF assms(1,2)] g(3,4,6-8)] lay] g lay
  show ?thesis by blast
qed

theorem dump_float_reads_back:
  assumes "decode_f64 d = FpFin s m e" "length buf = 64"
  shows "\<exists>sg w f ex. dump_float buf d = Some (sg @ w @ f @ ex) \<and> sg = (if s then ''-'' else []) \<and> whole_part w \<and> fraction_part f \<and>
    exponent_part ex \<and> (f \<noteq> [] \<or> ex \<noteq> []) \<and> strtod (sg @ w @ f @ ex) = d \<and>
    from_chars_f64 (sg @ w @ f @ ex) old = (NoErrc, [], d) \<and> length (sg @ w @ f @ ex) \<le> 24 \<and>
    (length w = 1 \<or> real (dec_value w) < upper_midpoint m e)"
proof (cases "m = 0")
  case True
  let ?sg = "if s then ''-'' else []"
  have zero: "decode_f64 d = FpFin s 0 e" using assms(1) True by simp
  have parts: "whole_part ''0''" "fraction_part ''.0''" "exponent_part []" "?sg \<in> {[], ''-''}"
    by (simp_all add: whole_part_def fraction_part_def exponent_part_def digits_def)
  have "strtod (?sg @ ''0'' @ ''.0'' @ []) = d" "from_chars_f64 (?sg @ ''0'' @ ''.0'' @ []) old = (NoErrc, [], d)"
    using dump_float_zero(2,3) [OF zero assms(2)] strtod_number [OF parts(4,1-3)]
      from_chars_number [OF parts(4,1-3), of d old] by (cases s; simp)+
  with dump_float_zero(1) [OF zero assms(2)] parts show ?thesis
    by (intro exI [of _ ?sg] exI [of _ "''0''"] exI [of _ "''.0''"] exI [of _ "[]"]) simp
next
  case False
  then have m: "0 < m" by simp
  let ?sg = "if s then ''-'' else []"
  let ?v = "if s then d XOR push_bit 63 1 else d"
  note clear = decode_clear_sign [OF assms(1)]
  have nz: "\<not> fp_eq (FpFin False m e) (fp_of_int 0)" using m by (simp add: fp_of_int_def signed_def)
  have "length (?sg :: string) \<le> 1" "length ?sg + length (drop (length ?sg) buf) = 64" using assms(2) by simp_all
  from to_chars_positive [OF clear(2) m this] obtain ds x w f ex junk' rest where run:
    "grisu2 (?sg @ drop (length ?sg) buf) (length ?sg) 0 ?v = Some (?sg @ ds @ junk', length ds, x)"
    "list_all IsDigit ds" "ds \<noteq> []" "length ds \<le> 17" "hd ds \<noteq> CHR ''0''"
    "lower_midpoint m e < real (dec_value ds) * 10 powi x" "real (dec_value ds) * 10 powi x < upper_midpoint m e"
    "layout ds (int (length ds) + x) = (w, f, ex)"
    "format_buffer (?sg @ ds @ junk') (length ?sg) (length ds) x (- 4) 15 = Some (?sg @ (w @ f @ ex) @ rest, length ?sg + length (w @ f @ ex))"
    by blast
  note range = exponent_range [OF decode_double_parts [OF clear(2) m] run(2,3,5-7)]
  note parts = layout_parts [OF run(2,3,5) range run(8)]
  have start: "(if s then do { buf \<leftarrow> mem_write buf 0 ''-''; Some (buf, 0 + 1, d XOR push_bit 63 1) } else Some (buf, 0, d)) =
      Some (?sg @ drop (length ?sg) buf, length ?sg, ?v)" using assms(2) by (cases buf) (auto simp: mem_write_single)
  have "to_chars buf 0 64 d = Some (?sg @ (w @ f @ ex) @ rest, length ?sg + length (w @ f @ ex))"
    unfolding to_chars_def clear(1) [symmetric] start assms(1)
    using clear(2) nz run(1,4,9) by (simp add: is_finite_fp_def JSON_ASSERT_def)
  then have out: "dump_float buf d = Some (?sg @ w @ f @ ex)"
    using assms by (simp add: dump_float_def is_finite_fp_def)
  have sg: "?sg \<in> {[], ''-''}" "(?sg \<noteq> []) = s" by simp_all
  have near: "lower_midpoint m e < real (dec_value (w @ tl f)) * 10 powi (fst (exponent ex) - int (length (tl f)))"
    "real (dec_value (w @ tl f)) * 10 powi (fst (exponent ex) - int (length (tl f))) < upper_midpoint m e"
    using run(6,7) layout_value [OF run(3) range run(8)] by simp_all
  have "length w = 1 \<or> real (dec_value w) < upper_midpoint m e"
    using layout_whole [OF run(3,8)] near(2) whole_le_value [of w "tl f"] by (cases "ex = []") (auto intro: le_less_trans)
  note whole = this
  note reads = decimal_reads_back [OF assms(1) m near]
  have read: "strtod (?sg @ w @ f @ ex) = d" "from_chars_f64 (?sg @ w @ f @ ex) old = (NoErrc, [], d)"
    using reads strtod_number [OF sg(1) parts(1-3)] from_chars_number [OF sg(1) parts(1-3), of d old] unfolding sg(2) by simp_all
  have "length (?sg @ w @ f @ ex) \<le> 24" using layout_length [OF run(3,4,8)] by simp
  with out read parts whole show ?thesis by blast
qed

lemma dump_float_not_finite: "\<not> is_finite_fp (decode_f64 d) \<Longrightarrow> dump_float buf d = Some ''null''"
  by (simp add: dump_float_def)

end
