(* ===== verification/Integer_Printing.thy ===== *)
theory Integer_Printing
  imports Number_Printing
begin

text \<open>
  \<open>dump_integer\<close> and \<open>dump\<close> on booleans and numbers in the vendored serializer of \<open>json.hpp\<close>. Integers
  are counted, then written backwards two digits at a time into the serializer's buffer of 64 characters;
  what is written is the decimal text of \<open>Decimal\<close>. With \<open>Number_Printing\<close> the model's \<open>dump_scalar\<close> is
  the serializer's text of every scalar, for the printer \<open>float_text\<close>.
\<close>

section \<open>The code\<close>

function count_digits_from :: "u32 \<Rightarrow> u64 \<Rightarrow> u32" where
  "count_digits_from n_digits x =
     (if x < 10 then n_digits
      else if x < 100 then n_digits + 1
      else if x < 1000 then n_digits + 2
      else if x < 10000 then n_digits + 3
      else count_digits_from (n_digits + 4) (x div 10000))"
  by pat_completeness auto
termination by (relation "measure (\<lambda>(n, x). unat x)") (auto simp: word_less_nat_alt unat_div not_less)

definition count_digits :: "u64 \<Rightarrow> u32" where
  "count_digits x = count_digits_from 1 x"

text \<open>The integer types are 64 bits wide; \<open>is_signed\<close> tells the two instances of the template apart.\<close>

definition is_negative_number :: "bool \<Rightarrow> u64 \<Rightarrow> bool" where
  "is_negative_number is_signed x = (is_signed \<and> sint x < 0)"

definition remove_sign :: "bool \<Rightarrow> u64 \<Rightarrow> u64 option" where
  "remove_sign is_signed x =
     (if is_signed then do { JSON_ASSERT (sint x < 0 \<and> sint x < 2 ^ 63 - 1); Some (- (x + 1) + 1) }
      else do { JSON_ASSERT False; Some x })"

definition digits_to_99 :: "string list" where
  "digits_to_99 = [
   ''00'', ''01'', ''02'', ''03'', ''04'', ''05'', ''06'', ''07'', ''08'', ''09'',
   ''10'', ''11'', ''12'', ''13'', ''14'', ''15'', ''16'', ''17'', ''18'', ''19'',
   ''20'', ''21'', ''22'', ''23'', ''24'', ''25'', ''26'', ''27'', ''28'', ''29'',
   ''30'', ''31'', ''32'', ''33'', ''34'', ''35'', ''36'', ''37'', ''38'', ''39'',
   ''40'', ''41'', ''42'', ''43'', ''44'', ''45'', ''46'', ''47'', ''48'', ''49'',
   ''50'', ''51'', ''52'', ''53'', ''54'', ''55'', ''56'', ''57'', ''58'', ''59'',
   ''60'', ''61'', ''62'', ''63'', ''64'', ''65'', ''66'', ''67'', ''68'', ''69'',
   ''70'', ''71'', ''72'', ''73'', ''74'', ''75'', ''76'', ''77'', ''78'', ''79'',
   ''80'', ''81'', ''82'', ''83'', ''84'', ''85'', ''86'', ''87'', ''88'', ''89'',
   ''90'', ''91'', ''92'', ''93'', ''94'', ''95'', ''96'', ''97'', ''98'', ''99'']"

text \<open>\<open>*(--buffer_ptr) = c\<close>.\<close>

definition write_before :: "char list \<Rightarrow> nat \<Rightarrow> char \<Rightarrow> (char list \<times> nat) option" where
  "write_before buf p c =
     (if p = 0 then None else do { buf \<leftarrow> mem_write buf (p - 1) [c]; Some (buf, p - 1) })"

definition write_pair :: "char list \<Rightarrow> nat \<Rightarrow> nat \<Rightarrow> (char list \<times> nat) option" where
  "write_pair buf p digits_index =
     (if digits_index < length digits_to_99
      then do {
        (buf, p) \<leftarrow> write_before buf p (digits_to_99 ! digits_index ! 1);
        write_before buf p (digits_to_99 ! digits_index ! 0) }
      else None)"

function fill_integer :: "char list \<Rightarrow> nat \<Rightarrow> u64 \<Rightarrow> (char list \<times> nat) option" where
  "fill_integer buf p abs_value =
     (if abs_value \<ge> 100
      then do {
        (buf, p) \<leftarrow> write_pair buf p (unat (abs_value mod 100));
        fill_integer buf p (abs_value div 100) }
      else if abs_value \<ge> 10 then write_pair buf p (unat abs_value)
      else write_before buf p (char_of (48 + unat abs_value)))"
  by pat_completeness auto
termination by (relation "measure (\<lambda>(buf, p, v). unat v)") (auto simp: word_le_nat_alt unat_div)

definition dump_integer :: "char list \<Rightarrow> bool \<Rightarrow> u64 \<Rightarrow> string option" where
  "dump_integer number_buffer is_signed x =
     (if x = 0 then Some ''0''
      else do {
        (number_buffer, abs_value, n_chars) \<leftarrow>
          (if is_negative_number is_signed x
           then do {
             number_buffer \<leftarrow> mem_write number_buffer 0 ''-'';
             abs_value \<leftarrow> remove_sign is_signed x;
             Some (number_buffer, abs_value, 1 + count_digits abs_value) }
           else Some (number_buffer, x, count_digits x));
        JSON_ASSERT (unat n_chars < length number_buffer - 1);
        (number_buffer, _) \<leftarrow> fill_integer number_buffer (unat n_chars) abs_value;
        Some (take (unat n_chars) number_buffer) })"

text \<open>\<open>dump\<close> where the value is neither a string nor has members.\<close>

fun serializer_dump :: "char list \<Rightarrow> json \<Rightarrow> string option" where
  "serializer_dump number_buffer (JBool b) = Some (if b then ''true'' else ''false'')"
| "serializer_dump number_buffer (JInt x) = dump_integer number_buffer True x"
| "serializer_dump number_buffer (JUInt x) = dump_integer number_buffer False x"
| "serializer_dump number_buffer (JFloat x) = dump_float number_buffer x"
| "serializer_dump number_buffer JNull = Some ''null''"
| "serializer_dump number_buffer _ = None"

section \<open>Counting digits\<close>

declare count_digits_from.simps [simp del] fill_integer.simps [simp del]

lemma to_string_hundred:
  "100 \<le> n \<Longrightarrow> to_string n = to_string (n div 100) @ [digit_char (n mod 100 div 10), digit_char (n mod 100 mod 10)]"
proof -
  assume n: "100 \<le> n"
  then have "\<not> n < 10" "\<not> n div 10 < 10" by simp_all
  then have "to_string n = (to_string (n div 10 div 10) @ [digit_char (n div 10 mod 10)]) @ [digit_char (n mod 10)]"
    by (simp only: to_string.simps [of n] to_string.simps [of "n div 10"] if_False)
  moreover have "n div 10 div 10 = n div 100" "n div 10 mod 10 = n mod 100 div 10" "n mod 10 = n mod 100 mod 10"
    using mod_mult2_eq [of n 10 10] by (simp_all add: div_mult2_eq [symmetric] mod_mod_cancel)
  ultimately show ?thesis by simp
qed

lemma length_to_string_div: "10 \<le> n \<Longrightarrow> length (to_string n) = Suc (length (to_string (n div 10)))"
  by (subst to_string.simps) simp

lemma length_to_string_small: "n < 10 \<Longrightarrow> length (to_string n) = 1"
  by (subst to_string.simps) simp

lemma length_to_string_bound: "n < 10 ^ k \<Longrightarrow> 0 < k \<Longrightarrow> length (to_string n) \<le> k"
proof (induction k arbitrary: n)
  case (Suc k)
  show ?case
  proof (cases "n < 10")
    case False
    with Suc.prems have "0 < k" by (cases k) auto
    moreover have "n div 10 < 10 ^ k" using Suc.prems(1) by (simp add: less_mult_imp_div_less mult.commute)
    ultimately show ?thesis using Suc.IH False by (simp add: length_to_string_div)
  qed (simp add: length_to_string_small)
qed simp

lemma count_digits_from_exact:
  "unat n + length (to_string (unat x)) < 2 ^ 32 \<Longrightarrow> unat (count_digits_from n x) + 1 = unat n + length (to_string (unat x))"
proof (induction n x rule: count_digits_from.induct)
  case (1 n x)
  define v where "v = unat x"
  have cmp: "x < 10 \<longleftrightarrow> v < 10" "x < 100 \<longleftrightarrow> v < 100" "x < 1000 \<longleftrightarrow> v < 1000" "x < 10000 \<longleftrightarrow> v < 10000"
    by (simp_all add: word_less_nat_alt v_def)
  have step: "10 \<le> k \<Longrightarrow> length (to_string k) = Suc (length (to_string (k div 10)))" for k by (rule length_to_string_div)
  have add: "unat (n + c) = unat n + unat c" if "unat n + unat c < 2 ^ 32" for c using that by (simp add: unat_word_ariths)
  consider "v < 10" | "10 \<le> v" "v < 100" | "100 \<le> v" "v < 1000" | "1000 \<le> v" "v < 10000" | "10000 \<le> v" by linarith
  then show ?case
  proof cases
    case 5
    have "v div 10 div 10 div 10 div 10 = unat (x div 10000)" by (simp add: v_def unat_div div_mult2_eq [symmetric])
    then have len: "length (to_string v) = 4 + length (to_string (unat (x div 10000)))" using 5 by (simp add: step)
    then have four: "unat (n + 4) = unat n + 4" using 1(2) by (subst add) (simp_all add: v_def)
    have "unat (count_digits_from (n + 4) (x div 10000)) + 1 = unat (n + 4) + length (to_string (unat (x div 10000)))"
      using 5 1(2) len four by (intro 1(1)) (simp_all add: cmp v_def)
    then show ?thesis using 5 len four by (subst count_digits_from.simps) (simp add: cmp v_def)
  qed (use 1(2) in \<open>simp_all add: count_digits_from.simps [of n x] cmp step length_to_string_small add flip: v_def\<close>)
qed

section \<open>Writing digits backwards\<close>

lemma length_digits_to_99 [simp]: "length digits_to_99 = 100"
  by code_simp

lemma digit_char_numbers:
  "digit_char (Suc 0) = CHR ''1''" "digit_char (Suc (Suc 0)) = CHR ''2''" "digit_char 2 = CHR ''2''" "digit_char 3 = CHR ''3''" "digit_char 4 = CHR ''4''" "digit_char 5 = CHR ''5''"
  "digit_char 6 = CHR ''6''" "digit_char 7 = CHR ''7''" "digit_char 8 = CHR ''8''" "digit_char 9 = CHR ''9''"
  by code_simp+

lemma digits_to_99_all: "digits_to_99 = map (\<lambda>i. [digit_char (i div 10), digit_char (i mod 10)]) [0..<100]"
  unfolding digits_to_99_def by (simp add: upt_rec digit_char_numbers)

lemma digits_to_99_nth: "i < 100 \<Longrightarrow> digits_to_99 ! i = [digit_char (i div 10), digit_char (i mod 10)]"
  unfolding digits_to_99_all by simp

lemma write_before_gap:
  "write_before (pre @ c # rest) (Suc (length pre)) d = Some (pre @ d # rest, length pre)"
  by (simp add: write_before_def mem_write_def)

lemma write_pair_gap:
  assumes "i < 100"
  shows "write_pair (pre @ c1 # c2 # rest) (length pre + 2) i = Some (pre @ digit_char (i div 10) # digit_char (i mod 10) # rest, length pre)"
  using write_before_gap [of "pre @ [c1]" c2 rest "digit_char (i mod 10)"] write_before_gap [of pre c1 "digit_char (i mod 10) # rest"] assms
  by (simp add: write_pair_def digits_to_99_nth)

lemma to_string_two: "10 \<le> n \<Longrightarrow> n < 100 \<Longrightarrow> to_string n = [digit_char (n div 10), digit_char (n mod 10)]"
  by (simp add: to_string.simps [of n] to_string.simps [of "n div 10"])

lemma fill_integer_exact:
  "length gap = length (to_string (unat v)) \<Longrightarrow>
     fill_integer (pre @ gap @ rest) (length pre + length gap) v = Some (pre @ to_string (unat v) @ rest, length pre)"
proof (induction "unat v" arbitrary: v gap rest rule: less_induct)
  case less
  have cmp: "100 \<le> v \<longleftrightarrow> 100 \<le> unat v" "10 \<le> v \<longleftrightarrow> 10 \<le> unat v" by (simp_all add: word_le_nat_alt)
  consider "unat v < 10" | "10 \<le> unat v" "unat v < 100" | "100 \<le> unat v" by linarith
  then show ?case
  proof cases
    case 1
    then obtain c where "gap = [c]" using less.prems by (auto simp: length_to_string_small length_Suc_conv)
    then show ?thesis using 1 write_before_gap [of pre c rest "digit_char (unat v)"]
      by (simp add: fill_integer.simps cmp to_string.simps [of "unat v"] digit_char_def)
  next
    case 2
    then obtain c1 c2 where "gap = [c1, c2]" using less.prems by (auto simp: to_string_two length_Suc_conv numeral_2_eq_2)
    then show ?thesis using 2 write_pair_gap [of "unat v" pre c1 c2 rest]
      by (simp add: fill_integer.simps cmp to_string_two)
  next
    case 3
    let ?q = "v div 100"
    let ?m = "unat v mod 100"
    have q: "unat ?q = unat v div 100" "unat (v mod 100) = ?m" by (simp_all add: unat_div unat_mod)
    have long: "to_string (unat v) = to_string (unat ?q) @ [digit_char (?m div 10), digit_char (?m mod 10)]"
      using to_string_hundred [OF 3] by (simp only: q)
    with less.prems have "length (to_string (unat ?q)) \<le> length gap" by simp
    then obtain g t where g: "gap = g @ t" "length g = length (to_string (unat ?q))" by (rule split_at_least)
    with less.prems long obtain c1 c2 where t: "t = [c1, c2]" by (auto simp: length_Suc_conv numeral_2_eq_2)
    have "write_pair ((pre @ g) @ c1 # c2 # rest) (length (pre @ g) + 2) ?m =
        Some ((pre @ g) @ digit_char (?m div 10) # digit_char (?m mod 10) # rest, length (pre @ g))"
      by (rule write_pair_gap) simp
    moreover have "fill_integer (pre @ g @ digit_char (?m div 10) # digit_char (?m mod 10) # rest) (length pre + length g) ?q =
        Some (pre @ to_string (unat ?q) @ digit_char (?m div 10) # digit_char (?m mod 10) # rest, length pre)"
      using 3 by (intro less.hyps g(2)) (simp add: q)
    ultimately show ?thesis using 3 unfolding g(1) t by (subst fill_integer.simps) (simp add: cmp q(2) long)
  qed
qed

section \<open>Integers\<close>

lemma count_digits_exact: "unat (count_digits v) = length (to_string (unat v))" "length (to_string (unat v)) \<le> 20"
proof -
  show bound: "length (to_string (unat v)) \<le> 20" using unat_u64_less [of v] by (intro length_to_string_bound) simp_all
  have "unat (count_digits v) + 1 = unat (1 :: u32) + length (to_string (unat v))"
    unfolding count_digits_def using bound by (intro count_digits_from_exact) simp
  then show "unat (count_digits v) = length (to_string (unat v))" by simp
qed

lemma remove_sign_exact:
  assumes "sint x < 0"
  obtains v where "remove_sign True x = Some v" "unat v = nat (- sint x)"
proof
  have "- (x + 1) + 1 = - x" by simp
  then show "remove_sign True x = Some (- x)" using assms by (simp add: remove_sign_def JSON_ASSERT_def)
  have "uint (- x) = (- sint x) mod 2 ^ 64"
    by (simp add: uint_word_ariths uint_sint [of x] take_bit_eq_mod mod_minus_eq)
  also have "\<dots> = - sint x" using assms sint_ge [of x] by (intro mod_pos_pos_trivial) simp_all
  finally show "unat (- x) = nat (- sint x)" by (simp add: unat_eq_nat_uint)
qed

lemma dump_integer_text:
  assumes "length buf = 64"
  shows "dump_integer buf is_signed x = Some (int_to_string (if is_signed then sint x else uint x))"
proof (cases "x = 0")
  case True
  then show ?thesis by (simp add: dump_integer_def int_to_string_def)
next
  case False
  have fill: "\<exists>b' p. fill_integer (pre @ junk) (length pre + length (to_string (unat v))) v = Some (b', p) \<and>
      take (length pre + length (to_string (unat v))) b' = pre @ to_string (unat v)"
    if "length (to_string (unat v)) \<le> length junk" for pre junk v
  proof -
    from that obtain gap rest where junk: "junk = gap @ rest" "length gap = length (to_string (unat v))" by (rule split_at_least)
    from fill_integer_exact [OF junk(2), of pre rest] show ?thesis using junk by auto
  qed
  show ?thesis
  proof (cases "is_signed \<and> sint x < 0")
    case True
    obtain v where v: "remove_sign True x = Some v" "unat v = nat (- sint x)" using True by (blast elim: remove_sign_exact)
    obtain c junk where buf: "buf = c # junk" "length junk = 63" using assms by (cases buf) simp_all
    note n = count_digits_exact [of v]
    have count: "unat (1 + count_digits v) = 1 + length (to_string (unat v))" using n by (simp add: unat_word_ariths)
    from fill [of v junk "''-''"] n(2) buf(2) show ?thesis
      using True False by (auto simp: dump_integer_def is_negative_number_def buf(1) mem_write_single v count JSON_ASSERT_def int_to_string_def)
  next
    case neg: False
    have nonneg: "nat (if is_signed then sint x else uint x) = unat x" "0 \<le> (if is_signed then sint x else uint x)"
      using neg sint_less [of x] by (auto simp: unat_eq_nat_uint uint_sint [of x] take_bit_int_eq_self)
    from fill [of x buf "[]"] count_digits_exact [of x] assms show ?thesis
      using neg False nonneg by (auto simp: dump_integer_def is_negative_number_def JSON_ASSERT_def int_to_string_def)
  qed
qed

section \<open>Property\<close>

text \<open>C35: Either instance of \<open>dump_integer\<close>, over any content of its buffer, counts the digits right, stays inside
  the buffer, fails no assertion and writes the decimal text of the number, the smallest \<open>int64\<close> included.\<close>
theorem dump_integer_exact:
  assumes "length buf = 64"
  shows "dump_integer buf is_signed x = Some (int_to_string (if is_signed then sint x else uint x))"
  using assms by (rule dump_integer_text)

theorem dump_integer_exact_witness:
  "dump_integer (replicate 64 NUL) True (2 ^ 63) = Some (int_to_string (- (2 ^ 63))) \<and>
   dump_integer (replicate 64 (CHR ''9'')) False (2 ^ 63) = Some (int_to_string (2 ^ 63))"
  using dump_integer_exact [of "replicate 64 NUL" True "2 ^ 63"] dump_integer_exact [of "replicate 64 (CHR ''9'')" False "2 ^ 63"]
  by simp

end
