(* ===== verification/Printed_Values.thy ===== *)
theory Printed_Values
  imports Integer_Printing Text_Conversion Json_Round_Trip
begin

text \<open>
  The document operations with the number printer of \<open>json.hpp\<close> in the place of their argument
  \<open>dtoa\<close>: \<open>value.dump()\<close> of every boolean and number, and the text of a value in CAPL's buffer against
  the typed reads of its path. The printer is shown to be a \<open>number_printer\<close>.
\<close>

section \<open>The printer of a value\<close>

text \<open>\<open>value.dump()\<close> works in a new serializer, whose buffer is zero.\<close>

definition value_dump :: "json \<Rightarrow> string option" where
  "value_dump v = serializer_dump (replicate 64 NUL) v"

definition float_text :: "f64 \<Rightarrow> string" where
  "float_text d = the (value_dump (JFloat d))"

lemma finite_parts: "is_finite_fp (decode_f64 d) \<Longrightarrow> \<exists>s m e. decode_f64 d = FpFin s m e"
  by (auto simp: is_finite_fp_def split: fp.splits)

text \<open>\<open>dump_scalar\<close>, the text the model's operations use, is the one the serializer writes.\<close>

lemma value_dump_scalar:
  "v \<in> range JBool \<union> range JInt \<union> range JUInt \<union> range JFloat \<Longrightarrow> value_dump v = Some (dump_scalar float_text v)"
proof -
  have "value_dump (JFloat d) = Some (dump_scalar float_text (JFloat d))" for d
  proof (cases "is_finite_fp (decode_f64 d)")
    case True
    then obtain s m e where d: "decode_f64 d = FpFin s m e" using finite_parts by blast
    have "length (replicate 64 NUL) = 64" by simp
    from dump_float_reads_back [OF d this] obtain t where "value_dump (JFloat d) = Some t"
      unfolding value_dump_def serializer_dump.simps by blast
    with True show ?thesis by (simp add: float_text_def)
  qed (simp add: value_dump_def dump_float_not_finite)
  moreover assume "v \<in> range JBool \<union> range JInt \<union> range JUInt \<union> range JFloat"
  ultimately show ?thesis
    by (auto simp: value_dump_def dump_integer_text int_to_string_def simp del: dump_scalar.simps(4))
qed

section \<open>Reading a printed number\<close>

lemma dump_float_sign: "decode_f64 d = FpFin s m e \<Longrightarrow> (if s then ''-'' else []) \<in> {[], ''-''}"
  by simp

lemma float_text_reads_back: "is_finite_fp (decode_f64 d) \<Longrightarrow> reads_back float_text d"
proof -
  assume "is_finite_fp (decode_f64 d)"
  then obtain s m e where d: "decode_f64 d = FpFin s m e" using finite_parts by blast
  have "length (replicate 64 NUL) = 64" by simp
  from dump_float_reads_back [OF d this] dump_float_sign [OF d] show ?thesis
    unfolding reads_back_def float_text_def value_dump_def serializer_dump.simps by (metis option.sel)
qed

interpretation printed: number_printer float_text
  by unfold_locales (rule float_text_reads_back)

lemma float_text_length: "is_finite_fp (decode_f64 d) \<Longrightarrow> length (float_text d) \<le> 24"
proof -
  assume "is_finite_fp (decode_f64 d)"
  then obtain s m e where d: "decode_f64 d = FpFin s m e" using finite_parts by blast
  have "length (replicate 64 NUL) = 64" by simp
  from dump_float_reads_back [OF d this, of 0] show ?thesis
    unfolding float_text_def value_dump_def serializer_dump.simps by fastforce
qed

lemma ParseDouble_float_text:
  assumes "is_finite_fp (decode_f64 d)"
  shows "ParseDouble (float_text d) out = (Ok, d)"
proof -
  obtain s m e where d: "decode_f64 d = FpFin s m e" using finite_parts [OF assms] by blast
  have "length (replicate 64 NUL) = 64" by simp
  from dump_float_reads_back [OF d this, of 0] obtain sg w f ex where
    "float_text d = sg @ w @ f @ ex" "whole_part w" "from_chars_f64 (sg @ w @ f @ ex) 0 = (NoErrc, [], d)"
    unfolding float_text_def value_dump_def serializer_dump.simps by auto
  moreover from this(2) have "w \<noteq> []" by (simp add: whole_part_def digits_def)
  ultimately show ?thesis by (simp add: ParseDouble_def)
qed

text \<open>An integral double inside 32 bits is printed with a whole part inside 32 bits.\<close>

lemma from_chars_i32_whole:
  assumes "sg \<in> {[], ''-''}" "whole_part w" "r \<noteq> [] \<Longrightarrow> \<not> IsDigit (hd r)"
    and "sg = [] \<Longrightarrow> dec_value w < 2 ^ 31" "dec_value w \<le> 2 ^ 31"
  shows "\<exists>v. from_chars_i32 (sg @ w @ r) old = (NoErrc, r, v)"
proof -
  have w: "list_all IsDigit w" "w \<noteq> []" using assms(2) by (simp_all add: whole_part_def digits_def)
  have tw: "takeWhile IsDigit (w @ r) = w" "dropWhile IsDigit (w @ r) = r"
    using w(1) assms(3) by (cases r; auto simp: list_all_iff takeWhile_append dropWhile_append)+
  define z where "z = (if sg \<noteq> [] then - int (dec_value w) else int (dec_value w))"
  have "- (2 ^ 31) \<le> z" "z < 2 ^ 31" using assms(4,5) by (auto simp: z_def zless_nat_eq_int_zless)
  with w(2) show ?thesis
    by (simp only: from_chars_i32_def Let_def sign_pieces [OF assms(1,2)] tw z_def [symmetric] simp_thms if_True if_False) blast
qed

lemma integral_below_midpoint:
  assumes "decode_f64 d = FpFin False m e" "real m * 2 powi e = real k" "k \<le> 2 ^ 31" "real j < upper_midpoint m e"
  shows "j \<le> k"
proof -
  have "e \<le> 0"
  proof (rule ccontr)
    assume e: "\<not> e \<le> 0"
    with decode_fields(3,4) [OF assms(1)] have "2 ^ 52 \<le> m" by (cases "unat d div 2 ^ 52 = 0") simp_all
    then have "(2::real) ^ 52 * 1 \<le> real m * 2 powi e" using e by (intro mult_mono) (simp_all add: one_le_power_int)
    with assms(2,3) show False by simp
  qed
  then have "(2::real) powi (e - 1) \<le> 2 powi (- 1)" by (intro power_int_increasing) simp_all
  moreover have "upper_midpoint m e = real k + 2 powi (e - 1)"
    using power_int_add [of "2::real" 1 "e - 1"] assms(2) by (simp add: upper_midpoint_def algebra_simps)
  ultimately have "real j < real k + 1" using assms(4) by (simp add: power_int_minus)
  then show ?thesis by linarith
qed

lemma ParseLong_float_text:
  assumes "is_finite_fp (decode_f64 d)" "ToLong (JFloat d) out = (Ok, n)"
  shows "ParseLong (float_text d) out = (Ok, n)"
proof -
  obtain s m e where d: "decode_f64 d = FpFin s m e" using finite_parts [OF assms(1)] by blast
  have "length (replicate 64 NUL) = 64" by simp
  from dump_float_reads_back [OF d this, of 0] obtain sg w f ex where
    dump: "dump_float (replicate 64 NUL) d = Some (sg @ w @ f @ ex)" "sg = (if s then ''-'' else [])" and
    p: "whole_part w" "fraction_part f" "exponent_part ex" "f \<noteq> [] \<or> ex \<noteq> []" "from_chars_f64 (sg @ w @ f @ ex) 0 = (NoErrc, [], d)"
      "length w = 1 \<or> real (dec_value w) < upper_midpoint m e" by blast
  have t: "float_text d = sg @ w @ f @ ex" "sg \<in> {[], ''-''}" "sg = [] \<Longrightarrow> \<not> s" using dump
    by (simp_all add: float_text_def value_dump_def split: if_splits)
  from assms(2) ToLong_float [OF d, of out] have range: "fp_val (FpFin s m e) \<in> \<int>"
    "of_int int32_min \<le> fp_val (FpFin s m e)" "fp_val (FpFin s m e) \<le> of_int int32_max" by (auto split: if_splits)
  then obtain z where z: "fp_val (FpFin s m e) = of_int z" by (auto elim: Ints_cases)
  define k where "k = nat \<bar>z\<bar>"
  have "real m * 2 powi e = \<bar>of_int z :: real\<bar>" unfolding z [symmetric] by (simp add: abs_mult signed_def)
  then have k: "real m * 2 powi e = real k" by (simp add: k_def)
  have kr: "k \<le> 2 ^ 31" "\<not> s \<Longrightarrow> k < 2 ^ 31"
  proof -
    have zr: "- (2 ^ 31) \<le> z" "z < 2 ^ 31" using range(2,3) unfolding z by (simp_all add: int32_defs)
    then show "k \<le> 2 ^ 31" by (auto simp: k_def)
    assume "\<not> s"
    then have "0 \<le> z" using z by (simp add: signed_def) (metis of_int_0_le_iff of_nat_0_le_iff zero_le_mult_iff zero_le_power_int zero_le_numeral)
    with zr show "k < 2 ^ 31" by (auto simp: k_def)
  qed
  have "dec_value w \<le> max 9 k"
  proof (cases "length w = 1")
    case True
    then show ?thesis using dec_value_less [of w] p(1) by (simp add: whole_part_def digits_def)
  next
    case False
    then have "dec_value w \<le> k"
      using integral_below_midpoint [OF decode_clear_sign(2) [OF d] k kr(1)] p(6) by simp
    then show ?thesis by simp
  qed
  then have whole: "sg = [] \<Longrightarrow> dec_value w < 2 ^ 31" "dec_value w \<le> 2 ^ 31" using kr t(3) by (auto simp: max_def split: if_splits)
  have r: "f @ ex \<noteq> []" "\<not> IsDigit (hd (f @ ex))" "LooksLikeFloatContinuation (hd (f @ ex))"
    using p(2-4) by (auto simp: fraction_part_def exponent_part_def LooksLikeFloatContinuation_def)
  obtain v where "from_chars_i32 (sg @ w @ f @ ex) 0 = (NoErrc, f @ ex, v)"
    using from_chars_i32_whole [OF t(2) p(1) r(2) whole] by blast
  moreover have "sg @ w @ f @ ex \<noteq> []" using r(1) by simp
  ultimately have "ParseLong (float_text d) out = ToLong (JFloat d) out"
    using r p(5) by (simp add: ParseLong_def FractionalTextToLong_ToLong t(1) del: append_is_Nil_conv ToLong.simps)
  with assms(2) show ?thesis by (simp only:)
qed

section \<open>Integers as text\<close>

lemma round_f64_nat:
  assumes "0 < v" "v < 2 ^ 64"
  shows "\<exists>bits. round_f64 v 1 = Some bits \<and> bits \<noteq> 0"
proof -
  define L where "L = floor_log2 v 1"
  have b: "2 powi L \<le> real v" "real v < 2 powi (L + 1)" using floor_log2_bounds [OF assms(1), of 1] by (simp_all add: L_def)
  have "real v < 2 powi 64" "2 powi 0 \<le> real v" using assms by simp_all
  with b have "(2::real) powi L < 2 powi 64" "(2::real) powi 0 < 2 powi (L + 1)" by linarith+
  then have L: "L < 64" "0 < L + 1" by (simp_all only: powi_less)
  define e where "e = L - 52"
  have "real (v * 2 ^ nat (- e) div (1 * 2 ^ nat e)) \<le> real v / 2 powi e"
    using of_nat_div_le_of_nat [of "v * 2 ^ nat (- e)" "1 * 2 ^ nat e", where 'a = real] unfolding scaled_nat by simp
  also have "\<dots> < 2 powi (L + 1) / 2 powi e" using b(2) by (simp add: divide_strict_right_mono)
  also have "\<dots> = 2 ^ 53" by (simp flip: power_int_diff add: e_def)
  finally have "v * 2 ^ nat (- e) div (1 * 2 ^ nat e) < 2 ^ 53" by (simp only: of_nat_less_numeral_power_cancel_iff)
  then have q: "round_quotient v 1 e \<le> 2 ^ 53" by (simp add: round_quotient_def Let_def)
  have "max (- 1074) (floor_log2 v 1 - 52) = e" using L by (simp add: e_def L_def)
  moreover have "nat (e + 1074) < 1086" "0 < nat (e + 1074)" using L by (simp_all add: e_def)
  ultimately show ?thesis using assms(1) q by (simp add: round_f64_def Let_def)
qed

lemma ParseDouble_int_text: "\<bar>z\<bar> < 2 ^ 64 \<Longrightarrow> ParseDouble (int_to_string z) out = (Ok, f64_of_int z)"
proof -
  assume "\<bar>z\<bar> < 2 ^ 64"
  let ?w = "to_string (nat \<bar>z\<bar>)"
  let ?sg = "if z < 0 then ''-'' else []"
  have parts: "?sg \<in> {[], ''-''}" "whole_part ?w" "fraction_part []" "exponent_part []" "int_to_string z = ?sg @ ?w @ [] @ []"
    by (simp_all add: whole_part_to_string int_to_string_def)
  have "decimal_f64 (?sg \<noteq> []) (dec_value (?w @ tl [])) (fst (exponent []) - int (length (tl ([] :: string)))) = Some (f64_of_int z)"
  proof (cases "z = 0")
    case True
    then show ?thesis by (simp add: decimal_f64_def f64_of_int_def round_f64_def digit_value_def)
  next
    case False
    with \<open>\<bar>z\<bar> < 2 ^ 64\<close> have "0 < nat \<bar>z\<bar>" "nat \<bar>z\<bar> < 2 ^ 64" by (simp_all add: nat_less_iff)
    from round_f64_nat [OF this] obtain b where "round_f64 (nat \<bar>z\<bar>) 1 = Some b" "b \<noteq> 0" by blast
    then show ?thesis by (simp add: decimal_f64_def f64_of_int_def)
  qed
  from from_chars_number [OF parts(1-4) this, of 0] show ?thesis
    unfolding ParseDouble_def parts(5) [symmetric] by simp
qed

lemma ParseLong_int_text:
  "int32_min \<le> z \<Longrightarrow> z \<le> int32_max \<Longrightarrow> ParseLong (int_to_string z) out = (Ok, of_int z)"
  by (simp add: ParseLong_def from_chars_i32_int)

section \<open>Entries and typed readers\<close>

lemma finite_reached: "reaches v ts w \<Longrightarrow> finite_floats v \<Longrightarrow> finite_floats w"
proof (induction rule: reaches.induct)
  case (field k fields v ts w)
  then have "(k, v) \<in> set fields" by (auto simp: om_find_map_of dest: map_of_SomeD)
  with field show ?case by force
qed simp_all

lemma uint_text: "leaf_text float_text (JUInt raw) = int_to_string (uint raw)"
  by (simp add: int_to_string_def)

lemma leaf_text_typed:
  assumes "finite_floats v"
  shows "ToDouble v 0 = (Ok, x) \<Longrightarrow> ParseDouble (leaf_text float_text v) 0 = (Ok, x)"
    and "ToLong v 0 = (Ok, n) \<Longrightarrow> ParseLong (leaf_text float_text v) 0 = (Ok, n)"
proof -
  have size: "\<bar>uint raw\<bar> < 2 ^ 64" "\<bar>sint raw\<bar> < 2 ^ 64" for raw :: u64
    using sint_less [of raw] sint_ge [of raw] uint_lt2p [of raw] by simp_all
  assume "ToDouble v 0 = (Ok, x)"
  then show "ParseDouble (leaf_text float_text v) 0 = (Ok, x)"
  proof (cases v)
    case (JUInt raw)
    then show ?thesis using \<open>ToDouble v 0 = (Ok, x)\<close> ParseDouble_int_text [OF size(1)] by (simp only: uint_text) simp
  next
    case (JInt raw)
    then show ?thesis using \<open>ToDouble v 0 = (Ok, x)\<close> ParseDouble_int_text [OF size(2)] by simp
  next
    case (JFloat d)
    then show ?thesis using \<open>ToDouble v 0 = (Ok, x)\<close> assms by (simp add: ParseDouble_float_text)
  qed simp_all
next
  assume long: "ToLong v 0 = (Ok, n)"
  then show "ParseLong (leaf_text float_text v) 0 = (Ok, n)"
  proof (cases v)
    case (JUInt raw)
    have "uint raw \<le> int32_max" "n = of_int (uint raw)" "int32_min \<le> uint raw" using long JUInt
      by (auto simp: int32_defs split: if_splits intro: order_trans [of _ 0])
    then show ?thesis unfolding JUInt uint_text by (simp only: ParseLong_int_text)
  next
    case (JInt raw)
    with long ParseLong_int_text [of "sint raw" 0] show ?thesis by (simp split: if_splits)
  next
    case (JFloat d)
    with long assms show ?thesis by (simp add: ParseLong_float_text del: ToLong.simps)
  qed simp_all
qed

text \<open>Neither has a NUL, so a caller finds the whole text in the buffer.\<close>

lemma number_text_no_NUL:
  assumes "finite_floats v" "ToDouble v 0 = (Ok, x) \<or> ToLong v 0 = (Ok, n)"
  shows "NUL \<notin> set (leaf_text float_text v)"
proof -
  have digits: "NUL \<notin> set (to_string k)" for k using to_string_digits [of NUL k] by (auto simp: IsDigit_def)
  show ?thesis
  proof (cases v)
    case (JFloat d)
    then have "json_text (JFloat d) (float_text d)" using assms(1) printed.written_text [of "JFloat d"] by simp
    then have "NUL \<notin> set (float_text d)" using spells_no_NUL by (auto simp: json_text_def)
    with JFloat assms(1) show ?thesis by simp
  qed (use assms(2) digits in \<open>auto simp: int_to_string_def\<close>)
qed

section \<open>Reads of a stored document\<close>

lemma session_finite: "json_session lexer dtoa s \<Longrightarrow> lookup_document s i = Some r \<Longrightarrow> finite_floats (document r)"
proof (induction arbitrary: i r rule: json_session.induct)
  case session_start
  have "find_slot i (doc_slots JsonDocumentStore) = None"
    by (simp add: find_slot_None live_ids_def JsonDocumentStore_def free_slot_def)
  then show ?case using session_start by (simp add: lookup_document_find split: if_splits)
next
  case (session_parse s ft it ticks p n st j s')
  show ?case
  proof (cases "st = Ok")
    case True
    show ?thesis
    proof (rule ParseJsonDocument_Ok [OF json_session_ok [OF session_parse.hyps(1)] session_parse.hyps(2) [unfolded True]])
      fix b t
      assume t: "acceptable_text (c_string b)" "tree_of (lexer (quoted (c_string b))) t"
        "lookup_document s' = (lookup_document s)(j \<mapsto> \<lparr>document = collapse t, entries = flat_entries dtoa (collapse t)\<rparr>)"
      have "NUL \<notin> set (quoted (c_string b))" using t(1) quoted_NUL by (simp add: acceptable_text_def)
      from t(2) [unfolded tree_of_lexer [OF this]] have "finite_floats (collapse t)" by (simp add: finite_collapse)
      then show ?thesis using session_parse.IH session_parse.prems unfolding t(3) by (simp split: if_splits) auto
    qed
  next
    case False
    with ParseJsonDocument_failure [OF session_parse.hyps(2)] session_parse show ?thesis by blast
  qed
next
  case (session_discard s throws j st s')
  then show ?case using store.discard_known [OF json_session_ok [OF session_discard.hyps(1)], of j] store.discard_unknown [of s j]
    by (cases "lookup_document s j") (fastforce simp: DiscardJsonDocument_def split: if_splits)+
next
  case (session_discard_all s throws st n s')
  then show ?case using store.discard_everything [OF json_session_ok [OF session_discard_all.hyps(1)]]
    by (fastforce simp: DiscardAllJsonDocuments_def split: if_splits)
qed

lemma ResolveTokens_Some: "ResolveTokens v ts out = (Ok, w) \<Longrightarrow> w \<noteq> None"
  by (induction v ts out rule: ResolveTokens.induct)
    (auto split: json.splits option.splits prod.splits if_splits)

lemma ReadJsonValue_leaf:
  assumes "buf_ok val m" "ReadJsonValue dtoa False i p n val m s = Some (Ok, val', typ)"
  obtains pb r leaf vb where "p = Buf pb" "lookup_document s i = Some r" "ResolvePath (document r) (Some (c_string pb)) None = (Ok, Some leaf)"
    "val' = Buf (leaf_text dtoa leaf @ NUL # drop (Suc (length (leaf_text dtoa leaf))) vb)"
proof -
  from assms(2) obtain view where view: "BoundedText p n None = Some (Ok, view)"
    and read: "\<exists>t. ReadValue dtoa i view val m EntryNone s = Some (Ok, val', t)"
    by (auto simp: ReadJsonValue_def split: Option.bind_splits if_splits prod.splits)
  from view obtain pb where pb: "p = Buf pb" "view = Some (c_string pb)" by (auto simp: BoundedText_Ok_iff)
  from read obtain r node where r: "lookup_document s i = Some r" "ResolvePath (document r) view None = (Ok, node)"
    "\<exists>t. case DescribeLeaf dtoa (the node) [] EntryNone of (st, str, leaftyp) \<Rightarrow> st = Ok \<and> CopyToBuffer str val m = Some (Ok, val')"
    by (auto simp: ReadValue_lookup split: option.splits prod.splits if_splits Option.bind_splits)
  then obtain leaf where leaf: "node = Some leaf" using pb(2) by (auto simp: ResolvePath_def split: prod.splits if_splits dest: ResolveTokens_Some)
  have "CopyToBuffer (leaf_text dtoa leaf) val m = Some (Ok, val')"
    using r(3) leaf by (simp add: DescribeLeaf_spec split: if_splits)
  then show thesis using that [OF pb(1) r(1)] r(2) leaf pb(2) assms(1) by (auto simp: CopyToBuffer_Ok)
qed

lemma ReadJsonDouble_Ok:
  "ReadJsonDouble False i p n s = Some (Ok, x) \<longleftrightarrow>
     (\<exists>b ts r node. p = Buf b \<and> NUL \<in> set (take (unat n) b) \<and> pointer_of ts = c_string b \<and>
        lookup_document s i = Some r \<and> reaches (document r) ts node \<and> ToDouble node 0 = (Ok, x))"
proof -
  have "double_of v = Some x \<longleftrightarrow> ToDouble v 0 = (Ok, x)" for v by (cases v) auto
  then show ?thesis unfolding ReadJsonDouble_def double_read.ReadTypedAt_Ok_iff by simp
qed

lemma ReadJsonValue_leaf_text:
  assumes "buf_ok val m" "ReadJsonValue float_text False i p n val m s = Some (Ok, Buf b, typ)"
    and "json_session lexer float_text s"
  obtains pb r leaf where "p = Buf pb" "lookup_document s i = Some r" "ResolvePath (document r) (Some (c_string pb)) None = (Ok, Some leaf)"
    "finite_floats leaf"
    "\<And>x v. ToDouble leaf 0 = (Ok, x) \<or> ToLong leaf 0 = (Ok, v) \<Longrightarrow> c_string b = leaf_text float_text leaf"
proof -
  obtain pb r leaf vb where l: "p = Buf pb" "lookup_document s i = Some r" "ResolvePath (document r) (Some (c_string pb)) None = (Ok, Some leaf)"
    "Buf b = Buf (leaf_text float_text leaf @ NUL # drop (Suc (length (leaf_text float_text leaf))) vb)"
    by (rule ReadJsonValue_leaf [OF assms(1,2)])
  have fin: "finite_floats leaf"
    using l(3) session_finite [OF assms(3) l(2)] finite_reached unfolding resolve_path_iff by blast
  then have "c_string b = leaf_text float_text leaf" if "ToDouble leaf 0 = (Ok, x) \<or> ToLong leaf 0 = (Ok, v)" for x v
    using number_text_no_NUL that l(4) by (auto simp: c_string_terminated)
  then show thesis using that l(1-3) fin by blast
qed

text \<open>A document with the double nearest to 1.5, run from its own text.\<close>

definition printed_document :: json where
  "printed_document = JArray [JFloat 0x3FF8000000000000]"

lemma printed_document_facts:
  "finite_floats printed_document" "utf8_json printed_document" "signed_ok printed_document" "wf_json printed_document"
  "within_limits printed_document" "length (write_json float_text printed_document) < 32"
  "reaches printed_document [''0''] (JFloat 0x3FF8000000000000)"
proof -
  let ?d = "0x3FF8000000000000 :: f64"
  have fin: "is_finite_fp (decode_f64 ?d)" by (simp add: decode_f64_def is_finite_fp_def)
  then show "finite_floats printed_document" by (simp add: printed_document_def)
  show "utf8_json printed_document" "signed_ok printed_document" "wf_json printed_document"
    by (simp_all add: printed_document_def)
  have "leaves printed_document = [([''0''], JFloat ?d)]" by (simp add: printed_document_def)
  then show "within_limits printed_document"
    by (simp add: within_limits_def printed_document_def key_bytes_def kMaxJsonDepth_def kMaxFlatEntries_def kMaxFlatKeyBytes_def)
  show "length (write_json float_text printed_document) < 32"
    using float_text_length [OF fin] by (simp add: printed_document_def)
  show "reaches printed_document [''0''] (JFloat ?d)"
    using reaches.element [of 0 "[JFloat ?d]" "[]"] by (simp add: printed_document_def reaches.here)
qed

lemma printed_document_run:
  "length (write_json float_text printed_document) \<le> kMaxJsonInputBytes \<and>
   FlattenJson lexer float_text False (write_json float_text printed_document) empty_result =
     Returned (Ok, \<lparr>document = printed_document, entries = flat_entries float_text printed_document\<rparr>)"
proof -
  have size: "length (write_json float_text printed_document) \<le> kMaxJsonInputBytes"
    using printed_document_facts(6) by (simp add: kMaxJsonInputBytes_def)
  with printed_document_facts(1-5) printed.flatten_document show ?thesis by simp
qed

text \<open>A session that has parsed it, and a read of its only leaf.\<close>

lemma printed_document_session:
  obtains i s where "json_session lexer float_text s"
    "lookup_document s i = Some \<lparr>document = printed_document, entries = flat_entries float_text printed_document\<rparr>"
proof -
  have t: "json_text printed_document (write_json float_text printed_document)"
    using printed_document_facts(1-3) by (rule printed.written_text [rotated 2])
  have "length (write_json float_text printed_document) < unat (32 :: u32)" using printed_document_facts(6) by simp
  moreover have "lookup_document JsonDocumentStore = (\<lambda>i. None)"
    by (auto simp: lookup_document_find find_slot_None live_ids_def JsonDocumentStore_def free_slot_def)
  then have "card (dom (lookup_document JsonDocumentStore)) < kJsonDocumentSlotCount" by (simp add: kJsonDocumentSlotCount_def)
  ultimately obtain i s where run: "ParseJsonDocument lexer float_text False False 0 (Buf (write_json float_text printed_document @ NUL # [])) 32 JsonDocumentStore = Some (Ok, i, s)"
    "lookup_document s = (lookup_document JsonDocumentStore)(i \<mapsto> \<lparr>document = collapse printed_document, entries = flat_entries float_text (collapse printed_document)\<rparr>)"
    using ParseJsonDocument_text [OF store_ok_start(1) _ t conjunct1 [OF printed_document_run] printed_document_facts(1,5)] by metis
  have "lookup_document s i = Some \<lparr>document = printed_document, entries = flat_entries float_text printed_document\<rparr>"
    by (simp add: run(2) collapse_wf [OF printed_document_facts(4)])
  with that [OF session_parse [OF session_start run(1)]] show thesis .
qed

lemma ReadJsonValue_run:
  assumes "lookup_document s i = Some r" "NUL \<in> set (take (unat n) pb)" "ResolvePath (document r) (Some (c_string pb)) None = (Ok, Some leaf)"
    and "\<not> IsNonEmptyContainer leaf" "length (leaf_text dtoa leaf) < unat m" "unat m \<le> length vb"
  shows "\<exists>b typ. ReadJsonValue dtoa False i (Buf pb) n (Buf vb) m s = Some (Ok, Buf b, typ)"
proof -
  have "BoundedText (Buf pb) n None = Some (Ok, Some (c_string pb))" using assms(2) by (simp add: BoundedText_Ok_iff)
  moreover have "CopyToBuffer (leaf_text dtoa leaf) (Buf vb) m = Some (Ok, Buf (leaf_text dtoa leaf @ NUL # drop (Suc (length (leaf_text dtoa leaf))) vb))"
    using assms(5,6) by (subst CopyToBuffer_Ok) simp_all
  ultimately show ?thesis using assms(1,3,4) by (simp add: ReadJsonValue_def ReadValue_lookup DescribeLeaf_spec)
qed

section \<open>Properties\<close>

text \<open>C4: A finite double is printed, whatever the buffer held: no assertion of the printer fails and no access
  leaves the buffer. The text has at most 24 characters, is JSON text the parser reads as the double, and
  \<open>ParseDouble\<close> reads it as the double too, with the same bits.\<close>
theorem printed_double_reads_back:
  assumes "is_finite_fp (decode_f64 d)" "length buf = 64"
  shows "\<exists>t. dump_float buf d = Some t \<and> length t \<le> 24 \<and> json_text (JFloat d) t \<and> strtod t = d \<and> ParseDouble t out = (Ok, d)"
proof -
  obtain s m e where d: "decode_f64 d = FpFin s m e" using finite_parts [OF assms(1)] by blast
  from dump_float_reads_back [OF d assms(2), of 0] obtain sg w f ex where t: "dump_float buf d = Some (sg @ w @ f @ ex)"
    "sg = (if s then ''-'' else [])" "whole_part w" "fraction_part f" "exponent_part ex" "f \<noteq> [] \<or> ex \<noteq> []"
    "strtod (sg @ w @ f @ ex) = d" "from_chars_f64 (sg @ w @ f @ ex) 0 = (NoErrc, [], d)" "length (sg @ w @ f @ ex) \<le> 24" by blast
  have "sg \<in> {[], ''-''}" using t(2) by simp
  then have "reads_back (\<lambda>_. sg @ w @ f @ ex) d" unfolding reads_back_def using t(3-7) by blast
  then have "json_text (JFloat d) (sg @ w @ f @ ex)" using write_json_text [of "JFloat d" "\<lambda>_. sg @ w @ f @ ex"] by simp
  moreover have "sg @ w @ f @ ex \<noteq> []" using t(6) by simp
  then have "ParseDouble (sg @ w @ f @ ex) out = (Ok, d)" using t(8) by (simp add: ParseDouble_def del: append_is_Nil_conv)
  ultimately show ?thesis using t(1,7,9) by blast
qed

theorem printed_double_reads_back_witness:
  "\<exists>t. dump_float (replicate 64 (CHR ''x'')) 1 = Some t \<and> length t \<le> 24 \<and> json_text (JFloat 1) t \<and> strtod t = 1 \<and> ParseDouble t 0 = (Ok, 1)"
proof -
  have "decode_f64 1 = FpFin False 1 (- 1074)" by (simp add: decode_f64_def)
  then show ?thesis using printed_double_reads_back [of 1 "replicate 64 (CHR ''x'')" 0] by (simp add: is_finite_fp_def)
qed

text \<open>C10: Whatever a session has parsed and discarded, the text of a value that CAPL reads into its buffer and the typed
  reads of the same path agree: where reading the path as a double or as a 32-bit integer succeeds, parsing
  the text in the buffer gives the same double or integer.\<close>
theorem value_text_reads_back:
  assumes "json_session lexer float_text s" "buf_ok val m"
    and "ReadJsonValue float_text False i p n val m s = Some (Ok, Buf b, typ)"
  shows "(\<forall>x. ReadJsonDouble False i p n s = Some (Ok, x) \<longrightarrow> ParseDouble (c_string b) 0 = (Ok, x)) \<and>
    (\<forall>v. ReadJsonLong False i p n s = Some (Ok, v) \<longrightarrow> ParseLong (c_string b) 0 = (Ok, v))"
proof -
  obtain pb r leaf where l: "p = Buf pb" "lookup_document s i = Some r" "ResolvePath (document r) (Some (c_string pb)) None = (Ok, Some leaf)"
    "finite_floats leaf" "\<And>x v. ToDouble leaf 0 = (Ok, x) \<or> ToLong leaf 0 = (Ok, v) \<Longrightarrow> c_string b = leaf_text float_text leaf"
    by (rule ReadJsonValue_leaf_text [OF assms(2,3,1)]) blast
  have same: "node = leaf" if "pointer_of ts = c_string pb" "reaches (document r) ts node" for ts node
    using that l(3) resolve_path_iff [of "document r" "c_string pb" None node] by auto
  show ?thesis
  proof (intro conjI allI impI)
    fix x assume "ReadJsonDouble False i p n s = Some (Ok, x)"
    then have "ToDouble leaf 0 = (Ok, x)" unfolding ReadJsonDouble_Ok using same l(1,2) by auto
    then show "ParseDouble (c_string b) 0 = (Ok, x)" using leaf_text_typed(1) [OF l(4)] l(5) [of x 0] by simp
  next
    fix v assume "ReadJsonLong False i p n s = Some (Ok, v)"
    then have "ToLong leaf 0 = (Ok, v)" unfolding read_json_long_iff using same l(1,2) by auto
    then show "ParseLong (c_string b) 0 = (Ok, v)" using leaf_text_typed(2) [OF l(4)] l(5) [of 0 v] by simp
  qed
qed

theorem value_text_reads_back_witness:
  "\<exists>s i b typ. json_session lexer float_text s \<and>
     ReadJsonValue float_text False i (Buf (''/0'' @ [NUL])) 3 (Buf (replicate 32 NUL)) 32 s = Some (Ok, Buf b, typ) \<and>
     ParseDouble (c_string b) 0 = (Ok, 0x3FF8000000000000)"
proof -
  let ?d = "0x3FF8000000000000 :: f64"
  let ?path = "Buf (''/0'' @ [NUL])"
  obtain i s where s: "json_session lexer float_text s" "lookup_document s i = Some \<lparr>document = printed_document, entries = flat_entries float_text printed_document\<rparr>"
    by (rule printed_document_session)
  note facts = printed_document_facts
  have path: "pointer_of [''0''] = ''/0''" "c_string (''/0'' @ [NUL]) = ''/0''" "NUL \<in> set (take (unat (3 :: u32)) (''/0'' @ [NUL]))"
    by code_simp+
  then have found: "ResolvePath printed_document (Some (c_string (''/0'' @ [NUL]))) None = (Ok, Some (JFloat ?d))"
    using facts(7) unfolding resolve_path_iff by metis
  have fin: "is_finite_fp (decode_f64 ?d)" using facts(1) by (simp add: printed_document_def)
  then have "leaf_text float_text (JFloat ?d) = float_text ?d" by simp
  then have small: "length (leaf_text float_text (JFloat ?d)) < unat (32 :: u32)" using float_text_length [OF fin] by simp
  have "\<not> IsNonEmptyContainer (JFloat ?d)" "unat (32 :: u32) \<le> length (replicate 32 NUL)"
    by (simp_all add: IsNonEmptyContainer_def json_kind_defs)
  from ReadJsonValue_run [OF s(2) path(3) _ this(1) small this(2)] found
  obtain b ty where v: "ReadJsonValue float_text False i ?path 3 (Buf (replicate 32 NUL)) 32 s = Some (Ok, Buf b, ty)" by auto
  have "ReadJsonDouble False i ?path 3 s = Some (Ok, ?d)"
    unfolding ReadJsonDouble_Ok
  proof (intro exI conjI)
    show "pointer_of [''0''] = c_string (''/0'' @ [NUL])" by (simp only: path)
    show "reaches (document \<lparr>document = printed_document, entries = flat_entries float_text printed_document\<rparr>) [''0''] (JFloat ?d)"
      by (simp only: FlattenResult.select_convs facts(7))
  qed (use path(3) s(2) in simp_all)
  with value_text_reads_back [OF s(1) _ v] s(1) v show ?thesis by auto
qed

end
