(* ===== verification/Worker_Lifetime.thy ===== *)
theory Worker_Lifetime
  imports Async_System
begin

text \<open>
  How worker threads keep the DLL loaded (the top of \<open>src/http/async-operations.cpp\<close>). The engine
  reaches the operating system through the interface \<open>WorkerLifetime\<close>; \<open>Win32WorkerLifetime\<close> is
  its implementation over the loader's reference count of the module. The context a starter hands
  to its thread is a heap block that exactly one of the two frees.
\<close>

section \<open>The interface\<close>

datatype HMODULE = ThisModule

text \<open>
  A thread of the pool: created with the address of its context, in the worker loop, past the
  loop's last critical section but still running code of the module, or ended.
\<close>

datatype os_thread = Created nat | InLoop HMODULE | Leaving HMODULE | Ended

text \<open>
  The virtual functions. The boolean of a call is whether the operating system grants it; a
  thread is known by its position in the order of creation.
\<close>

record 'l WorkerLifetime =
  AcquireModuleReference :: "bool \<Rightarrow> 'l \<Rightarrow> HMODULE option \<times> 'l"
  ReleaseModuleReference :: "HMODULE option \<Rightarrow> 'l \<Rightarrow> 'l"
  StartThread :: "bool \<Rightarrow> nat \<Rightarrow> 'l \<Rightarrow> bool \<times> 'l"
  ExitCurrentThread :: "HMODULE \<Rightarrow> nat \<Rightarrow> 'l \<Rightarrow> 'l"

text \<open>The state around it: the start contexts on the heap and the engine's worker count.\<close>

record 'l world =
  lifetime :: 'l
  startContexts :: "(nat \<times> HMODULE) list"
  nextAddress :: nat
  workers :: u32

definition free_context :: "nat \<Rightarrow> (nat \<times> HMODULE) list \<Rightarrow> (nat \<times> HMODULE) list" where
  "free_context address heap = filter (\<lambda>c. fst c \<noteq> address) heap"

section \<open>Starting and entering a worker\<close>

text \<open>\<open>StartWorkerLocked\<close> over an interface: what the system grants, and whether the context finds memory.\<close>

definition StartWorker ::
  "'l WorkerLifetime \<Rightarrow> bool \<Rightarrow> bool \<Rightarrow> bool \<Rightarrow> 'l world \<Rightarrow> bool outcome \<times> 'l world" where
  "StartWorker L acquire_ok alloc_ok thread_ok w =
     (case AcquireModuleReference L acquire_ok (lifetime w) of
        (None, l) \<Rightarrow> (Returned False, w\<lparr>lifetime := l\<rparr>)
      | (Some moduleReference, l) \<Rightarrow>
          if \<not> alloc_ok then (Threw, w\<lparr>lifetime := l\<rparr>)
          else
            let context = nextAddress w;
                w = w\<lparr>startContexts := (context, moduleReference) # startContexts w, nextAddress := context + 1\<rparr>
            in case StartThread L thread_ok context l of
                 (False, l) \<Rightarrow>
                   (Returned False,
                    w\<lparr>lifetime := ReleaseModuleReference L (Some moduleReference) l,
                      startContexts := free_context context (startContexts w)\<rparr>)
               | (True, l) \<Rightarrow> (Returned True, w\<lparr>lifetime := l, workers := workers w + 1\<rparr>))"

text \<open>
  \<open>WorkerThreadEntry\<close> up to the loop: the module reference read from the context, which is then
  freed. \<open>None\<close> is an access to freed memory.
\<close>

definition WorkerThreadEntry :: "nat \<Rightarrow> 'l world \<Rightarrow> (HMODULE \<times> 'l world) option" where
  "WorkerThreadEntry param w =
     (case map_of (startContexts w) param of
        None \<Rightarrow> None
      | Some moduleReference \<Rightarrow>
          Some (moduleReference, w\<lparr>startContexts := free_context param (startContexts w)\<rparr>))"

section \<open>The contract\<close>

text \<open>What an implementation promises about the references it hands out and the threads it starts.\<close>

locale worker_lifetime =
  fixes L :: "'l WorkerLifetime" and refs :: "'l \<Rightarrow> nat" and threads :: "'l \<Rightarrow> os_thread list"
  assumes acquired: "AcquireModuleReference L ok l = (Some m, l') \<Longrightarrow> refs l' = refs l + 1 \<and> threads l' = threads l"
    and not_acquired: "AcquireModuleReference L ok l = (None, l') \<Longrightarrow> l' = l"
    and released: "refs (ReleaseModuleReference L (Some m) l) = refs l - 1 \<and> threads (ReleaseModuleReference L (Some m) l) = threads l"
    and started: "StartThread L ok c l = (True, l') \<Longrightarrow> refs l' = refs l \<and> threads l' = threads l @ [Created c]"
    and not_started: "StartThread L ok c l = (False, l') \<Longrightarrow> l' = l"
    and exited: "refs (ExitCurrentThread L m t l) = refs l - 1 \<and> threads (ExitCurrentThread L m t l) = (threads l)[t := Ended]"
begin

text \<open>A start keeps its reference and its context exactly when a thread is running with them.\<close>

lemma StartWorker_balance:
  assumes "StartWorker L a c t w = (r, w')" "\<And>k. k \<in> fst ` set (startContexts w) \<Longrightarrow> k < nextAddress w"
  shows "case r of
      Returned True \<Rightarrow> refs (lifetime w') = refs (lifetime w) + 1 \<and> threads (lifetime w') = threads (lifetime w) @ [Created (nextAddress w)]
        \<and> (\<exists>m. startContexts w' = (nextAddress w, m) # startContexts w) \<and> nextAddress w' = nextAddress w + 1 \<and> workers w' = workers w + 1
    | Returned False \<Rightarrow> refs (lifetime w') = refs (lifetime w) \<and> threads (lifetime w') = threads (lifetime w)
        \<and> startContexts w' = startContexts w \<and> nextAddress w \<le> nextAddress w' \<and> workers w' = workers w
    | Threw \<Rightarrow> refs (lifetime w') = refs (lifetime w) + 1 \<and> threads (lifetime w') = threads (lifetime w)
        \<and> startContexts w' = startContexts w \<and> nextAddress w' = nextAddress w \<and> workers w' = workers w"
proof (cases "AcquireModuleReference L a (lifetime w)")
  case (Pair m l)
  show ?thesis
  proof (cases m)
    case None
    then show ?thesis using assms(1) Pair not_acquired [of a "lifetime w" l] by (auto simp: StartWorker_def)
  next
    case (Some m')
    note acq = acquired [OF Pair [unfolded Some]]
    have fresh: "free_context (nextAddress w) (startContexts w) = startContexts w"
      using assms(2) by (force simp: free_context_def filter_id_conv)
    obtain b l' where s: "StartThread L t (nextAddress w) l = (b, l')" by (cases "StartThread L t (nextAddress w) l")
    show ?thesis
    proof (cases "c \<and> b")
      case True
      then show ?thesis using assms(1) Pair Some acq s started [of t "nextAddress w" l l'] by (auto simp: StartWorker_def Let_def)
    next
      case False
      then show ?thesis using assms(1) Pair Some acq s not_started [of t "nextAddress w" l l'] released [of m' l] fresh
        by (auto simp: StartWorker_def Let_def free_context_def split: if_splits)
    qed
  qed
qed

end

section \<open>The Win32 implementation\<close>

text \<open>
  The loader counts the references to the module; the host application holds some of them. The
  module is unloaded when the count reaches zero.
\<close>

record process =
  module_count :: nat
  os_threads :: "os_thread list"

definition Win32WorkerLifetime :: "process WorkerLifetime" where
  "Win32WorkerLifetime =
     \<lparr>AcquireModuleReference = (\<lambda>ok p.
        if ok then (Some ThisModule, p\<lparr>module_count := module_count p + 1\<rparr>) else (None, p)),
      ReleaseModuleReference = (\<lambda>m p.
        case m of None \<Rightarrow> p | Some _ \<Rightarrow> p\<lparr>module_count := module_count p - 1\<rparr>),
      StartThread = (\<lambda>ok param p.
        if ok then (True, p\<lparr>os_threads := os_threads p @ [Created param]\<rparr>) else (False, p)),
      ExitCurrentThread = (\<lambda>m t p.
        p\<lparr>module_count := module_count p - 1, os_threads := (os_threads p)[t := Ended]\<rparr>)\<rparr>"

text \<open>
  The end of \<open>WorkerLoop\<close>: the worker is taken off the count under the lock, then the thread gives
  its reference back and ends, in one call that does not return into the module.
\<close>

definition LeaveLoop :: "HMODULE \<Rightarrow> nat \<Rightarrow> process world \<Rightarrow> process world" where
  "LeaveLoop moduleReference thread w =
     w\<lparr>workers := workers w - 1,
       lifetime := (lifetime w)\<lparr>os_threads := (os_threads (lifetime w))[thread := Leaving moduleReference]\<rparr>\<rparr>"

definition EndThread :: "HMODULE \<Rightarrow> nat \<Rightarrow> process world \<Rightarrow> process world" where
  "EndThread moduleReference thread w =
     w\<lparr>lifetime := ExitCurrentThread Win32WorkerLifetime moduleReference thread (lifetime w)\<rparr>"

interpretation win32: worker_lifetime Win32WorkerLifetime module_count os_threads
  by unfold_locales (auto simp: Win32WorkerLifetime_def split: if_splits)

section \<open>The life of the module\<close>

text \<open>
  The reachable states, with the references the host application holds and the references lost by
  starts whose context found no memory. A worker is started by \<open>Dispatch\<close>, below the limit of the
  pool and by code of the loaded module. The host takes and gives back its own references.
\<close>

inductive lifetime_reach :: "nat \<Rightarrow> nat \<Rightarrow> process world \<Rightarrow> bool" where
  loaded: "lifetime_reach (Suc h) 0
     \<lparr>lifetime = \<lparr>module_count = Suc h, os_threads = []\<rparr>, startContexts = [], nextAddress = 0, workers = 0\<rparr>"
| start: "lifetime_reach h n w \<Longrightarrow> 0 < module_count (lifetime w) \<Longrightarrow> workers w < of_nat kAsyncRequestSlotCount \<Longrightarrow>
     StartWorker Win32WorkerLifetime a c t w = (r, w') \<Longrightarrow> lifetime_reach h (if r = Threw then Suc n else n) w'"
| enter: "lifetime_reach h n w \<Longrightarrow> i < length (os_threads (lifetime w)) \<Longrightarrow> os_threads (lifetime w) ! i = Created param \<Longrightarrow>
     WorkerThreadEntry param w = Some (m, w') \<Longrightarrow>
     lifetime_reach h n (w'\<lparr>lifetime := (lifetime w')\<lparr>os_threads := (os_threads (lifetime w'))[i := InLoop m]\<rparr>\<rparr>)"
| leave: "lifetime_reach h n w \<Longrightarrow> i < length (os_threads (lifetime w)) \<Longrightarrow> os_threads (lifetime w) ! i = InLoop m \<Longrightarrow>
     lifetime_reach h n (LeaveLoop m i w)"
| exit: "lifetime_reach h n w \<Longrightarrow> i < length (os_threads (lifetime w)) \<Longrightarrow> os_threads (lifetime w) ! i = Leaving m \<Longrightarrow>
     lifetime_reach h n (EndThread m i w)"
| host_load: "lifetime_reach h n w \<Longrightarrow>
     lifetime_reach (Suc h) n (w\<lparr>lifetime := (lifetime w)\<lparr>module_count := module_count (lifetime w) + 1\<rparr>\<rparr>)"
| host_free: "lifetime_reach (Suc h) n w \<Longrightarrow>
     lifetime_reach h n (w\<lparr>lifetime := (lifetime w)\<lparr>module_count := module_count (lifetime w) - 1\<rparr>\<rparr>)"

definition alive :: "os_thread list \<Rightarrow> nat" where
  "alive ts = count_slots (\<lambda>t. t \<noteq> Ended) ts"

text \<open>The threads that count as workers of the pool.\<close>

definition is_worker :: "os_thread \<Rightarrow> bool" where
  "is_worker t \<longleftrightarrow> (case t of Created _ \<Rightarrow> True | InLoop _ \<Rightarrow> True | _ \<Rightarrow> False)"

definition pooled :: "os_thread list \<Rightarrow> nat" where
  "pooled ts = count_slots is_worker ts"

definition one_owner :: "os_thread list \<Rightarrow> bool" where
  "one_owner ts \<longleftrightarrow>
     (\<forall>i j k. i < length ts \<longrightarrow> j < length ts \<longrightarrow> ts ! i = Created k \<longrightarrow> ts ! j = Created k \<longrightarrow> i = j)"

definition lifetime_inv :: "nat \<Rightarrow> nat \<Rightarrow> process world \<Rightarrow> bool" where
  "lifetime_inv h n w \<longleftrightarrow>
     module_count (lifetime w) = h + n + alive (os_threads (lifetime w)) \<and>
     unat (workers w) = pooled (os_threads (lifetime w)) \<and> pooled (os_threads (lifetime w)) \<le> kAsyncRequestSlotCount \<and>
     (\<forall>k. Created k \<in> set (os_threads (lifetime w)) \<longleftrightarrow> k \<in> fst ` set (startContexts w)) \<and>
     (\<forall>k. k \<in> fst ` set (startContexts w) \<longrightarrow> k < nextAddress w) \<and>
     distinct (map fst (startContexts w)) \<and> one_owner (os_threads (lifetime w))"

lemma alive_append [simp]: "alive (ts @ [t]) = alive ts + of_bool (t \<noteq> Ended)"
  by (simp add: alive_def)

lemma alive_update: "i < length ts \<Longrightarrow> alive (ts[i := t]) + of_bool (ts ! i \<noteq> Ended) = alive ts + of_bool (t \<noteq> Ended)"
  unfolding alive_def by (rule count_slots_update)

lemma is_worker_simps [simp]:
  "is_worker (Created k)" "is_worker (InLoop m)" "\<not> is_worker (Leaving m)" "\<not> is_worker Ended"
  by (simp_all add: is_worker_def)

lemma pooled_append [simp]: "pooled (ts @ [t]) = pooled ts + of_bool (is_worker t)"
  by (simp add: pooled_def)

lemma pooled_update: "i < length ts \<Longrightarrow> pooled (ts[i := t]) + of_bool (is_worker (ts ! i)) = pooled ts + of_bool (is_worker t)"
  unfolding pooled_def by (rule count_slots_update)

lemma one_owner_append: "one_owner ts \<Longrightarrow> Created k \<notin> set ts \<Longrightarrow> one_owner (ts @ [Created k])"
  by (auto simp: one_owner_def nth_append set_conv_nth less_Suc_eq)

lemma one_owner_update: "one_owner ts \<Longrightarrow> (\<And>k. t \<noteq> Created k) \<Longrightarrow> one_owner (ts[i := t])"
proof -
  assume ts: "one_owner ts" "\<And>k. t \<noteq> Created k"
  have "ts[i := t] ! j = Created k \<Longrightarrow> ts ! j = Created k" for j k
    using ts(2) nth_list_update [of i ts t j] list_update_beyond [of ts i t] by (metis not_le)
  with ts(1) show ?thesis by (simp add: one_owner_def)
qed

lemma created_update:
  assumes "one_owner ts" "i < length ts" "\<And>k. t \<noteq> Created k"
  shows "Created k \<in> set (ts[i := t]) \<longleftrightarrow> Created k \<in> set ts \<and> ts ! i \<noteq> Created k"
proof -
  have "Created k \<in> set (ts[i := t]) \<longleftrightarrow> (\<exists>j < length ts. j \<noteq> i \<and> ts ! j = Created k)"
    using assms(2,3) by (auto simp: in_set_conv_nth nth_list_update) metis
  also have "\<dots> \<longleftrightarrow> Created k \<in> set ts \<and> ts ! i \<noteq> Created k"
    using assms(1,2) unfolding one_owner_def in_set_conv_nth by metis
  finally show ?thesis .
qed

lemma free_context_simps [simp]:
  "fst ` set (free_context k heap) = fst ` set heap - {k}"
  "distinct (map fst heap) \<Longrightarrow> distinct (map fst (free_context k heap))"
  "(a, m) \<in> set (free_context k heap) \<longleftrightarrow> a \<noteq> k \<and> (a, m) \<in> set heap"
  by (auto simp: free_context_def distinct_map_filter)

theorem lifetime_reach_inv: "lifetime_reach h n w \<Longrightarrow> lifetime_inv h n w"
proof (induction rule: lifetime_reach.induct)
  case (loaded h)
  then show ?case by (simp add: lifetime_inv_def alive_def pooled_def one_owner_def)
next
  case (start h n w a c t r w')
  have bound: "k \<in> fst ` set (startContexts w) \<Longrightarrow> k < nextAddress w" for k
    using start.IH by (auto simp: lifetime_inv_def)
  have later: "(k, m) \<in> set (startContexts w) \<Longrightarrow> k < Suc (nextAddress w)" for k m
    using bound [of k] by force
  have few: "unat (workers w) < 8" using start(3) by (simp add: kAsyncRequestSlotCount_def word_less_nat_alt)
  have new: "Created (nextAddress w) \<notin> set (os_threads (lifetime w))"
    using start.IH bound by (auto simp: lifetime_inv_def)
  have succ: "unat (workers w + 1) = unat (workers w) + 1" using few by (simp add: unat_word_ariths unsigned_of_nat)
  note balance = win32.StartWorker_balance [OF start(4) bound]
  show ?case
  proof (cases r)
    case Threw
    then show ?thesis using balance start.IH by (simp add: lifetime_inv_def)
  next
    case (Returned b)
    show ?thesis
    proof (cases b)
      case True
      then show ?thesis using balance start.IH Returned new few succ later
        by (auto simp: lifetime_inv_def kAsyncRequestSlotCount_def one_owner_append)
    next
      case False
      then show ?thesis using balance start.IH Returned by (auto simp: lifetime_inv_def)
    qed
  qed
next
  case (enter h n w i param m w')
  let ?ts = "os_threads (lifetime w)"
  have w': "w' = w\<lparr>startContexts := free_context param (startContexts w)\<rparr>"
    using enter(4) by (auto simp: WorkerThreadEntry_def split: option.splits)
  have "one_owner ?ts" using enter.IH by (simp add: lifetime_inv_def)
  then have "Created k \<in> set (?ts[i := InLoop m]) \<longleftrightarrow> Created k \<in> set ?ts \<and> k \<noteq> param" "one_owner (?ts[i := InLoop m])" for k
    using enter(2,3) by (auto simp: created_update one_owner_update)
  moreover have "alive (?ts[i := InLoop m]) = alive ?ts" "pooled (?ts[i := InLoop m]) = pooled ?ts"
    using alive_update [OF enter(2), of "InLoop m"] pooled_update [OF enter(2), of "InLoop m"] enter(3) by simp_all
  ultimately show ?case using enter.IH by (simp add: lifetime_inv_def w')
next
  case (leave h n w i m)
  let ?ts = "os_threads (lifetime w)"
  have "one_owner ?ts" using leave.IH by (simp add: lifetime_inv_def)
  then have "Created k \<in> set (?ts[i := Leaving m]) \<longleftrightarrow> Created k \<in> set ?ts" "one_owner (?ts[i := Leaving m])" for k
    using leave(2,3) by (auto simp: created_update one_owner_update)
  moreover have left: "alive (?ts[i := Leaving m]) = alive ?ts" "Suc (pooled (?ts[i := Leaving m])) = pooled ?ts"
    using alive_update [OF leave(2), of "Leaving m"] pooled_update [OF leave(2), of "Leaving m"] leave(3) by simp_all
  moreover have "unat (workers w - 1) = unat (workers w) - 1"
    using leave.IH left(2) by (intro unat_dec) (auto simp: lifetime_inv_def)
  ultimately show ?case using leave.IH by (auto simp: lifetime_inv_def LeaveLoop_def)
next
  case (exit h n w i m)
  let ?ts = "os_threads (lifetime w)"
  have "one_owner ?ts" using exit.IH by (simp add: lifetime_inv_def)
  then have "Created k \<in> set (?ts[i := Ended]) \<longleftrightarrow> Created k \<in> set ?ts" "one_owner (?ts[i := Ended])" for k
    using exit(2,3) by (auto simp: created_update one_owner_update)
  moreover have "Suc (alive (?ts[i := Ended])) = alive ?ts" "pooled (?ts[i := Ended]) = pooled ?ts"
    using alive_update [OF exit(2), of Ended] pooled_update [OF exit(2), of Ended] exit(3) by simp_all
  ultimately show ?case using exit.IH by (auto simp: lifetime_inv_def EndThread_def Win32WorkerLifetime_def)
next
  case (host_load h n w)
  then show ?case by (simp add: lifetime_inv_def)
next
  case (host_free h n w)
  then show ?case by (simp add: lifetime_inv_def)
qed

text \<open>There are as many start contexts as threads that have not entered.\<close>

lemma context_count:
  assumes inv: "lifetime_inv h n w"
  shows "length (startContexts w) = count_slots (\<lambda>t. \<exists>k. t = Created k) (os_threads (lifetime w))"
proof -
  let ?ts = "os_threads (lifetime w)"
  have "length (startContexts w) = card (fst ` set (startContexts w))"
    using inv distinct_card [of "map fst (startContexts w)"] by (simp add: lifetime_inv_def)
  also have "\<dots> = card {i. i < length ?ts \<and> (\<exists>k. ?ts ! i = Created k)}"
  proof (rule sym, rule bij_betw_same_card)
    show "bij_betw (\<lambda>i. THE k. ?ts ! i = Created k) {i. i < length ?ts \<and> (\<exists>k. ?ts ! i = Created k)} (fst ` set (startContexts w))"
    proof (rule bij_betw_imageI)
      show "inj_on (\<lambda>i. THE k. ?ts ! i = Created k) {i. i < length ?ts \<and> (\<exists>k. ?ts ! i = Created k)}"
        using inv by (auto simp: lifetime_inv_def one_owner_def inj_on_def)
      have eq: "fst ` set (startContexts w) = {k. Created k \<in> set ?ts}" using inv by (auto simp: lifetime_inv_def)
      show "(\<lambda>i. THE k. ?ts ! i = Created k) ` {i. i < length ?ts \<and> (\<exists>k. ?ts ! i = Created k)} = fst ` set (startContexts w)"
      proof (intro set_eqI iffI)
        fix k assume "k \<in> fst ` set (startContexts w)"
        then obtain i where "i < length ?ts" "?ts ! i = Created k" unfolding eq by (auto simp: in_set_conv_nth)
        then show "k \<in> (\<lambda>i. THE k. ?ts ! i = Created k) ` {i. i < length ?ts \<and> (\<exists>k. ?ts ! i = Created k)}"
          by (intro image_eqI [of _ _ i]) auto
      next
        fix k assume "k \<in> (\<lambda>i. THE k. ?ts ! i = Created k) ` {i. i < length ?ts \<and> (\<exists>k. ?ts ! i = Created k)}"
        then obtain i where "i < length ?ts" "?ts ! i = Created k" by auto
        then show "k \<in> fst ` set (startContexts w)" unfolding eq using nth_mem by force
      qed
    qed
  qed
  finally show ?thesis by (simp add: count_slots_def length_filter_conv_card)
qed

section \<open>The engine's bookkeeping\<close>

text \<open>What \<open>StartWorkerLocked\<close> of the engine is told of a start.\<close>

definition start_of :: "bool \<Rightarrow> bool \<Rightarrow> bool \<Rightarrow> start_result" where
  "start_of acquire_ok alloc_ok thread_ok =
     (if \<not> acquire_ok then NoModule else if \<not> alloc_ok then ContextThrows else if \<not> thread_ok then NoThread else Started)"

text \<open>
  The engine's counters, in a process whose host holds \<open>h\<close> references: the engine counts a leaving
  worker's reference as returned when it takes the worker off its pool.
\<close>

definition leaving :: "os_thread list \<Rightarrow> nat" where
  "leaving ts = count_slots (\<lambda>t. \<exists>m. t = Leaving m) ts"

definition keeps_books :: "nat \<Rightarrow> process world \<Rightarrow> engine \<Rightarrow> bool" where
  "keeps_books h w e \<longleftrightarrow>
     module_count (lifetime w) = h + moduleRefs e + leaving (os_threads (lifetime w)) \<and> workers w = liveWorkers e"

theorem StartWorker_refines:
  assumes "keeps_books h w e" "StartWorker Win32WorkerLifetime a c t w = (r, w')"
  shows "\<exists>e' new. StartWorkerLocked (start_of a c t) e = (r, e', new) \<and> keeps_books h w' e' \<and>
    length (os_threads (lifetime w')) = length (os_threads (lifetime w)) + length new"
  using assms
  by (auto simp: keeps_books_def leaving_def StartWorker_def StartWorkerLocked_def start_of_def Win32WorkerLifetime_def Let_def
      split: if_splits)

lemma leaving_update:
  "i < length ts \<Longrightarrow> leaving (ts[i := t]) + of_bool (\<exists>m. ts ! i = Leaving m) = leaving ts + of_bool (\<exists>m. t = Leaving m)"
  unfolding leaving_def by (rule count_slots_update)

text \<open>A worker that ends takes the two steps of the module for the one of the engine.\<close>

lemma LeaveLoop_keeps_books:
  assumes "keeps_books h w e" "0 < moduleRefs e" "WorkerWake timed_out g e = (e', Exited)"
    and "i < length (os_threads (lifetime w))" "os_threads (lifetime w) ! i = InLoop m"
  shows "keeps_books h (LeaveLoop m i w) e'"
  using assms leaving_update [OF assms(4), of "Leaving m"]
  by (auto simp: keeps_books_def LeaveLoop_def WorkerWake_def WorkerTake_def split: option.splits if_splits)

lemma EndThread_keeps_books:
  assumes "keeps_books h w e" "i < length (os_threads (lifetime w))" "os_threads (lifetime w) ! i = Leaving m"
  shows "keeps_books h (EndThread m i w) e"
  using assms leaving_update [OF assms(2), of Ended]
  by (auto simp: keeps_books_def EndThread_def Win32WorkerLifetime_def)

section \<open>Properties\<close>

text \<open>C39: However starts, thread entries, exits and the host's own loads and releases interleave, the loader's
  count is the host's references, one for each thread that has not ended, and one for each start
  whose context found no memory. So the module stays loaded while a worker runs its code, the
  worker count is exact, and every created thread finds its own start context, which nobody else
  frees or leaks.\<close>
theorem workers_keep_module_loaded:
  assumes "lifetime_reach h n w"
  shows "module_count (lifetime w) = h + n + alive (os_threads (lifetime w)) \<and>
    (\<forall>t \<in> set (os_threads (lifetime w)). t \<noteq> Ended \<longrightarrow> 0 < module_count (lifetime w)) \<and>
    unat (workers w) = pooled (os_threads (lifetime w)) \<and>
    (\<forall>k. Created k \<in> set (os_threads (lifetime w)) \<longleftrightarrow> WorkerThreadEntry k w \<noteq> None) \<and>
    length (startContexts w) = count_slots (\<lambda>t. \<exists>k. t = Created k) (os_threads (lifetime w))"
proof -
  let ?ts = "os_threads (lifetime w)"
  have inv: "lifetime_inv h n w" using lifetime_reach_inv [OF assms] .
  have entry: "WorkerThreadEntry k w \<noteq> None \<longleftrightarrow> k \<in> fst ` set (startContexts w)" for k
    using map_of_eq_None_iff [of "startContexts w" k]
    by (cases "map_of (startContexts w) k") (simp_all add: WorkerThreadEntry_def)
  have "0 < module_count (lifetime w)" if "t \<in> set ?ts" "t \<noteq> Ended" for t
  proof -
    have "0 < alive ?ts" using that by (auto simp: alive_def count_slots_pos)
    then show ?thesis using inv by (simp add: lifetime_inv_def)
  qed
  moreover note context_count [OF inv]
  ultimately show ?thesis using inv entry by (auto simp: lifetime_inv_def)
qed

definition sample_world :: "process world" where
  "sample_world = \<lparr>lifetime = \<lparr>module_count = 1, os_threads = []\<rparr>, startContexts = [], nextAddress = 0, workers = 0\<rparr>"

theorem workers_keep_module_loaded_witness:
  "case StartWorker Win32WorkerLifetime True True True sample_world of
     (r, w) \<Rightarrow> r = Returned True \<and> module_count (lifetime w) = 2 \<and> WorkerThreadEntry 0 w \<noteq> None"
proof -
  obtain r w where start: "StartWorker Win32WorkerLifetime True True True sample_world = (r, w)" by fastforce
  then have r: "r = Returned True" "os_threads (lifetime w) = [Created 0]"
    by (auto simp: StartWorker_def Win32WorkerLifetime_def sample_world_def)
  have "lifetime_reach 1 0 sample_world" using loaded [of 0] by (simp add: sample_world_def)
  from lifetime_reach.start [OF this _ _ start] have "lifetime_reach 1 0 w"
    using r(1) by (simp add: sample_world_def kAsyncRequestSlotCount_def)
  note facts = workers_keep_module_loaded [OF this]
  then have "module_count (lifetime w) = 2" using r(2) by (simp add: alive_def)
  moreover have "WorkerThreadEntry 0 w \<noteq> None" using facts r(2) by (metis list.set_intros(1))
  ultimately show ?thesis using r(1) start by simp
qed

end
