(* ===== verification/Spec2Isabelle.thy ===== *)
theory Spec2Isabelle
  imports Module_Session Printed_Values Worker_Lifetime
begin

text \<open>
  RestifyCAPL: a Windows DLL that gives the CAPL scripts of CANoe HTTP requests and JSON documents.
  This library models its C++ code under \<open>src/src\<close> and proves what makes each part correct.

  \<^bold>\<open>The program.\<close> CAPL calls exported functions (\<open>module/exports.cpp\<close>) whose table tells CANoe their
  names and parameter types. A script passes texts and result arrays as raw memory with a size, and
  gets a status number. Below the exports stand three text layers (\<open>http/sync-text-api.cpp\<close>,
  \<open>http/async-text-api.cpp\<close>, \<open>mapping/json-text-api.cpp\<close>), which bound and parse the texts and
  call the engines: the HTTP client over libcurl (\<open>http/http-client.cpp\<close>,
  \<open>http/sync-operations.cpp\<close>), the asynchronous engine with its worker threads
  (\<open>http/async-operations.cpp\<close>), and the flattening of a JSON text into entries with the store of
  flattened documents (\<open>mapping/json-flatten.cpp\<close>, \<open>json-quotes.cpp\<close>, \<open>json-accessors.cpp\<close>,
  \<open>json-document-store.cpp\<close>). The leaves are \<open>core/\<close>: statuses, bounded copies in and out of caller
  memory, JSON Pointer paths, conversions between JSON values, texts and numbers.

  \<^bold>\<open>Conventions.\<close> Definitions carry the names of the C++ functions. A machine integer is a word of its
  width (\<open>u32\<close>, \<open>i32\<close>, \<open>u64\<close>, \<open>i64\<close>), a \<open>double\<close> its 64-bit pattern (\<open>Doubles\<close>), a text a list of
  bytes. An output parameter is an argument with its old value and a result with its new one. An
  access to caller memory can go outside the array: then the result is \<open>None\<close> of the type
  \<open>'a mem\<close>, so "not \<open>None\<close>" is memory safety. A call that can leave with a C++ exception returns
  \<open>Returned x\<close> or \<open>Threw\<close>. An allocation that can throw is a flag of the call (of one header or one
  copy of a text, the records \<open>text_memory\<close> and \<open>curl_env\<close>), with a handler around it where the code has
  one, so that both outcomes are covered; where there is no handler, in the text layers of the
  requests, around the copy into a slot, the start of a thread and the version block, the exception is
  an outcome of the exported call. A loop that could run forever (minting an id) is a partial
  function whose return is proved.
\<close>

text \<open>
  \<^bold>\<open>Core.\<close> \<open>Prelude\<close>: caller memory, results, tables of slots. \<open>Status\<close>: \<open>core/status.h\<close> with its
  numbers. \<open>Buffers\<close>: \<open>CopyToBuffer\<close> and \<open>BoundedText\<close>; every branch stays inside the array, a
  failed copy leaves an empty text, a bounded text is the text before the first NUL. \<open>Decimal\<close>,
  \<open>Doubles\<close>: \<open>std::to_string\<close>, \<open>std::from_chars\<close>, comparisons, truncation and rounding of doubles.
  \<open>Json_Value\<close>: the value kinds of \<open>nlohmann::ordered_json\<close>. \<open>Json_Path\<close>: \<open>core/json-path.cpp\<close>;
  the locale \<open>pointer_escaping\<close>, extended by \<open>canonical_escaping\<close>, states what an escaping must
  promise for paths to round-trip, and \<open>Json_Leaves\<close> interprets it on the escaping the flattening
  uses. \<open>Type_Conversion\<close>, \<open>Text_Conversion\<close>: \<open>core/type-conversion.cpp\<close>; conversions are exact or
  refuse with the right status.

  \<^bold>\<open>JSON.\<close> \<open>Json_Quotes\<close>: apostrophe strings to standard ones. \<open>Json_Lexer\<close>: the vendored lexer, from
  bytes to tokens. \<open>Json_Strings\<close> and \<open>Json_Numbers\<close> state the strings and numbers of RFC 8259
  apart from it (UTF-8, escapes, surrogate pairs; sign, whole part, fraction, exponent) and prove
  that the scanners take exactly those. \<open>Json_Parser\<close>: the vendored SAX parser loop and the
  document builder over tokens; \<open>Json_Grammar\<close> proves that they accept exactly the token sequences
  of values and build the value. The operations take the lexer as an argument, and what is proved
  of them over tokens holds for any; \<open>Json_Text\<close> gives them the modelled lexer, says which bytes
  are accepted, that quote conversion leaves JSON text alone, and that everything taken from a text
  is UTF-8. \<open>Json_Round_Trip\<close>: a writer as a specification (the program has none), flattening what was written (what it needs
  of a number printer is the locale \<open>number_printer\<close>), reading from a parsed text, and parsing what
  was normalized. \<open>Json_Limits\<close>: \<open>LimitCheckingSax\<close>, the single
  pass with running counters and a fixed frame array, equivalent to measures of the finished tree.
  \<open>Json_Flatten\<close>: the iterative walk with the shared path buffer and the explicit frame stack,
  equivalent to a recursive list of leaves (\<open>Json_Leaves\<close>), and \<open>FlattenJson\<close>, whose success is
  characterised exactly. \<open>Json_Accessors\<close>: typed reads; their common contract is the locale
  \<open>typed_read\<close>, interpreted on all four. \<open>Slot_Ids\<close>: minting an id that is neither zero nor in use;
  the locale \<open>id_minting\<close> is interpreted on both loops of the program. \<open>Json_Store\<close>: the store's
  eight slots; it implements a finite map of documents (locale \<open>document_map\<close>). \<open>Json_Text_Api\<close>:
  the operations as CAPL calls them, the invariant of every session, and the round trip from an
  entry's key to its value.
\<close>

text \<open>
  \<^bold>\<open>Number printing.\<close> The entries of a document hold its numbers as text, which the vendored serializer
  prints with Grisu2. \<open>Diyfp\<close>: 64-bit significands with an exponent, their rounded product, and the
  boundaries of a double. \<open>Cached_Powers\<close>: the 79 powers of ten and the index into them; each entry is
  the power rounded, and the index always lands inside the table with the exponent in \<open>[-60, -32]\<close>.
  \<open>Digit_Generation\<close>: the two digit loops and the last step towards the number; the digits lie in the
  interval handed in. \<open>Grisu2\<close>: scaling with a cached power and narrowing by the product's error, so that
  the at most 17 digits lie strictly between the midpoints to the neighbouring doubles.
  \<open>Double_Rounding\<close>: correct rounding takes every such number back to the double. \<open>Number_Printing\<close>: the
  notations of \<open>format_buffer\<close>, the exponent, signs and zeros; a finite double becomes JSON number text that
  reads back with the same bits. \<open>Integer_Printing\<close>: digit counting and the backward fill of
  \<open>dump_integer\<close>. \<open>Printed_Values\<close> interprets \<open>number_printer\<close> on it and puts it in the place of the argument
  \<open>dtoa\<close>, which the operations of the mapping pass on: in every session the text of a value in CAPL's buffer parses to what the typed
  readers give for its path. A failed \<open>JSON_ASSERT\<close> and an access outside the
  printer's buffer are \<open>None\<close>, so that \<open>Some\<close> excludes both.
\<close>

text \<open>
  \<^bold>\<open>HTTP.\<close> \<open>Http_Client\<close>: requests, responses, the callbacks and \<open>CurlTransport::Perform\<close>. libcurl is
  the record \<open>curl_env\<close>: which allocations fail, which callbacks a transfer with given options
  makes in which order, and the code it ends with. The model lists every libcurl call in order, so
  the options set and the release of handle and header list are facts about that list; the cap of
  the body, the TLS options, the timeouts and the statuses hold for every such environment.
  \<open>Sync_Operations\<close>, \<open>Sync_Text_Api\<close>: the verbs, the header block and method parsers, the delivery of
  a response; the transport is an argument. The texts of a call stand for one request
  (\<open>generic_texts\<close>, \<open>request_of\<close>) or for the reason why not; \<open>sync_throws\<close> and \<open>async_throws\<close> say when
  a copy of them that finds no memory leaves the call instead.

  \<^bold>\<open>Asynchronous engine.\<close> \<open>Async_Engine\<close>: the table of eight request slots, with one definition per
  method and per critical section of a worker (\<open>WorkerHead\<close>: looking for work, \<open>WorkerWake\<close>:
  leaving a wait, \<open>WorkerFinish\<close>: behind the transfer). What the operating system answers (module
  reference, thread, memory) is an argument. \<open>Async_Pool\<close> is the abstract specification of the
  bookkeeping: slot states, workers and counters with the invariant that ties them.
  \<open>Async_System\<close> lets calls and workers interleave as the inductive relation \<open>engine_step\<close> and
  proves the invariant of its reachable states. Two premises of the relation describe the
  environment: a thread's start context finds memory (what happens otherwise is a branch of
  \<open>dispatch_exact\<close>; the states behind it are states of \<open>Module_Session\<close>), and a transfer reports a cancellation only if its flag was set (which
  \<open>transport_outcome\<close> shows for libcurl's transport). \<open>Async_Properties\<close> holds what follows for CAPL
  and for the workers; \<open>Async_Delivery\<close> shows that an id is answered with what the client makes of
  the request dispatched under it; \<open>Async_Text_Api\<close> the calls over texts.

  \<open>Worker_Lifetime\<close>: the interface \<open>WorkerLifetime\<close> as the locale \<open>worker_lifetime\<close>, interpreted on
  \<open>Win32WorkerLifetime\<close> over the loader's reference count, with the hand-over of the start context.
  Starts, thread entries, exits and the host's own references interleave as \<open>lifetime_reach\<close>; the
  engine's \<open>StartWorkerLocked\<close> keeps the same books (\<open>StartWorker_refines\<close>).

  \<^bold>\<open>Exports.\<close> \<open>Export_Table\<close>: the rows of \<open>CAPL_DLL_INFO_LIST4\<close> and the C++ signatures they
  describe. \<open>Export_Shims\<close>: every exported function over the two process-wide objects, with the
  Windows version calls as the record \<open>version_env\<close>. \<open>Module_Session\<close>: the loaded module, engine and
  store together, moved by exported calls and workers. While thread starts find memory its states are
  states of both components' systems; in all its states, those behind a failed start included, each
  exported call returns and stays inside its arrays.

  \<^bold>\<open>Bounds.\<close> No definition has fuel. The lexer, the parser loop, the path loop and the header loop terminate by
  measures on what is left of their input; the walk over a document by the weight of its frames; the
  printer's loops over significands and fraction digits are partial functions whose return is proved;
  \<open>Await\<close> is given the finite list of wake-ups that happen until its deadline.
  Text lengths are naturals: the model identifies \<open>size_t\<close> arithmetic with them wherever a bound of
  the code (\<open>u32\<close> sizes, 1 MiB documents) keeps it from wrapping, and keeps it as a word of any
  width from 32 bits on where the code guards against wrapping (\<open>WouldExceedResponseCap\<close>).

  \<^bold>\<open>Not modelled.\<close> \<open>strtod\<close> and \<open>std::from_chars\<close> are the C and C++ libraries', taken as correctly
  rounded. Of the lexer, the positions and token texts kept for error messages are left out; of the
  serializer, strings and containers, which the program never dumps.
  libcurl, the Windows thread, module and version functions and the condition variables' scheduling
  are environment. \<open>module/exports.def\<close> and \<open>module/version.rc\<close> are linker and resource input. The
  CAPL framework under \<open>src/capl\<close>, the tests, the scripts and the examples are not part of the DLL.
\<close>

section \<open>From the network to a number\<close>

text \<open>C9: When memory lasts for the texts of a call, the transport answers its request with JSON text of a
  value within the limits and the caller's buffer has room for it, the synchronous call delivers it, the very buffer it filled parses into
  a store with a free slot, and every number of the value that is a 32-bit integer is then read at
  its pointer.\<close>
theorem fetched_json_reads_back:
  assumes "buf_ok methodText mn" "buf_ok urlText un" "buf_ok headersText hn" "buf_ok bodyText bn" "buf_ok responseBody n"
    and "generic_request methodText mn urlText un headersText hn bodyText bn c t m = Inr request"
    and "client request HttpResponse_default = (Returned Ok, response)"
    and "json_text tree (response_body response)" "finite_floats tree" "within_limits tree"
    and "length (response_body response) \<le> kMaxJsonInputBytes" "length (response_body response) < unat n" "responseBody \<noteq> NullPtr"
    and "store_ok dtoa s" "card (dom (lookup_document s)) < kJsonDocumentSlotCount"
    and "\<not> sync_throws memory (generic_texts methodText mn urlText un headersText hn bodyText bn)"
  shows "\<exists>body i s'.
    ExecuteRequestSync client memory methodText mn urlText un headersText hn bodyText bn c t m n (responseBody, code, len) =
      Some (Returned (Ok, body, statusCode response, of_nat (length (response_body response)))) \<and>
    ParseJsonDocument lexer dtoa False False ticks body n s = Some (Ok, i, s') \<and> lookup_document s i = None \<and>
    (\<forall>ts node v k junk. reaches (collapse tree) ts node \<longrightarrow> ToLong node 0 = (Ok, v) \<longrightarrow> length (pointer_of ts) < unat k \<longrightarrow>
       ReadJsonLong False i (Buf (pointer_of ts @ NUL # junk)) k s' = Some (Ok, v))"
proof -
  let ?text = "response_body response"
  obtain b where b: "responseBody = Buf b" using assms(13) by (cases responseBody) simp_all
  then have copy: "CopyToBuffer ?text responseBody n = Some (Ok, Buf (?text @ NUL # drop (Suc (length ?text)) b))"
    using assms(5,12) CopyToBuffer_Ok [of responseBody n ?text] by simp
  have "ExecuteRequestSync client memory methodText mn urlText un headersText hn bodyText bn c t m n (responseBody, code, len) =
      Some (Returned (Ok, Buf (?text @ NUL # drop (Suc (length ?text)) b), statusCode response, of_nat (length ?text)))"
    unfolding ExecuteRequestSync_eq [OF assms(1-4)] send_texts_def if_not_P [OF assms(16)] perform_and_deliver_def assms(6) sum.case assms(7) prod.case outcome.case FinishResponse_def
    using copy by simp
  with parsed_text_reads_back [OF assms(14,15,8,11,9,10,12), of ticks "drop (Suc (length ?text)) b"] show ?thesis by blast
qed

theorem fetched_json_reads_back_witness:
  "\<exists>body i s'.
    ExecuteRequestSync echo_client all_memory (c_text ''post'') 5 (c_text ''http://a'') 9 (c_text []) 1 (c_text ''[7]'') 4 0 0 0 4
      (Buf ''wxyz'', 0, 0) = Some (Returned (Ok, body, 200, 3)) \<and>
    ParseJsonDocument lexer (\<lambda>d. []) False False 0 body 4 JsonDocumentStore = Some (Ok, i, s') \<and>
    ReadJsonLong False i (Buf (''/0'' @ [NUL])) 3 s' = Some (Ok, 7)"
proof -
  let ?req = "\<lparr>request_method = Post, request_url = ''http://a'', request_headers = [], request_body = ''[7]'',
      request_options = MakeRequestOptions 0 0 0, cancelFlag = None\<rparr>"
  have g: "generic_request (c_text ''post'') 5 (c_text ''http://a'') 9 (c_text []) 1 (c_text ''[7]'') 4 0 0 0 =
      build_request Post ''http://a'' [] ''[7]'' 0 0 0"
    by code_simp
  have req: "build_request Post ''http://a'' [] ''[7]'' 0 0 0 = Inr ?req"
    by (simp add: build_request_def sendable_def MethodForbidsBody_def MakeRequestOptions_def RequestOptions_default_def)
  have resp: "echo_client ?req HttpResponse_default = (Returned Ok, \<lparr>statusCode = 200, response_body = ''[7]'', response_headers = []\<rparr>)"
    by (simp add: echo_client_def HttpResponse_default_def)
  have ok: "buf_ok (c_text ''post'') 5" "buf_ok (c_text ''http://a'') 9" "buf_ok (c_text []) 1" "buf_ok (c_text ''[7]'') 4"
    "buf_ok (Buf ''wxyz'') 4" by simp_all
  let ?resp = "\<lparr>statusCode = 200, response_body = ''[7]'', response_headers = []\<rparr>"
  have t: "json_text (JArray [JUInt 7]) (response_body ?resp)" "length (response_body ?resp) \<le> kMaxJsonInputBytes"
    "length (response_body ?resp) < unat (4 :: u32)" "Buf ''wxyz'' \<noteq> NullPtr" using one_number_text(1,4) by simp_all
  obtain body i s' where p:
    "ExecuteRequestSync echo_client all_memory (c_text ''post'') 5 (c_text ''http://a'') 9 (c_text []) 1 (c_text ''[7]'') 4 0 0 0 4
      (Buf ''wxyz'', 0, 0) = Some (Returned (Ok, body, statusCode ?resp, of_nat (length (response_body ?resp))))"
    "ParseJsonDocument lexer (\<lambda>d. []) False False 0 body 4 JsonDocumentStore = Some (Ok, i, s')"
    "\<forall>ts node v k junk. reaches (collapse (JArray [JUInt 7])) ts node \<longrightarrow> ToLong node 0 = (Ok, v) \<longrightarrow> length (pointer_of ts) < unat k \<longrightarrow>
       ReadJsonLong False i (Buf (pointer_of ts @ NUL # junk)) k s' = Some (Ok, v)"
    using fetched_json_reads_back [where client = echo_client and ticks = 0 and code = 0 and len = 0, OF ok g [unfolded req] resp t(1) one_number_text(2,3) t(2-4) one_number_text(5,6) sync_throws_simps(3)]
      by blast
  have seven: "ToLong (JUInt 7) 0 = (Ok, 7)" "length (pointer_of [''0'']) < unat (3 :: u32)" by (simp_all add: int32_defs)
  have "ReadJsonLong False i (Buf (pointer_of [''0''] @ NUL # [])) 3 s' = Some (Ok, 7)"
    using p(3) one_number_reaches seven by blast
  with p(1,2) show ?thesis by auto
qed

end
